(* ===== verification/Prelude.thy ===== *)
theory Prelude
  imports Complex_Main "HOL-Library.Word"
begin

text \<open>
  Shared vocabulary of the development: the names of the machine types the C++ code uses,
  the result type of code that can throw, and the generic facts about lists and 64-bit words
  that several components rest on (writing a block into a list, reading a block of a list,
  masking a word by a power of two minus one, un-wrapping of word arithmetic).
\<close>

unbundle bit_operations_syntax

subsection \<open>Types\<close>

text \<open>\<open>uint64_t\<close>, \<open>std::size_t\<close> (64 bits on the supported platforms) and \<open>int64_t\<close>.\<close>

type_synonym u64 = "64 word"

text \<open>
  The fact collections of the library: \<open>u64_nat\<close> turns statements about 64-bit words into
  statements about natural numbers, \<open>ring_defs\<close> unfolds the operations of the sample ring,
  \<open>queue_defs\<close> those of the log queue.
\<close>

named_theorems u64_nat
named_theorems ring_defs
named_theorems queue_defs

subsection \<open>Blocks of lists\<close>

text \<open>The block of \<open>n\<close> elements from index \<open>off\<close>, and a block written over a list.\<close>

definition block :: "nat \<Rightarrow> nat \<Rightarrow> 'a list \<Rightarrow> 'a list" where
  "block off n xs = take n (drop off xs)"

definition overwrite :: "nat \<Rightarrow> 'a list \<Rightarrow> 'a list \<Rightarrow> 'a list" where
  "overwrite off ys xs = take off xs @ ys @ drop (off + length ys) xs"

lemma length_overwrite [simp]:
  "off + length ys \<le> length xs \<Longrightarrow> length (overwrite off ys xs) = length xs"
  by (simp add: overwrite_def)

lemma nth_overwrite:
  "off + length ys \<le> length xs \<Longrightarrow> i < length xs \<Longrightarrow>
   overwrite off ys xs ! i = (if off \<le> i \<and> i < off + length ys then ys ! (i - off) else xs ! i)"
  by (auto simp: overwrite_def nth_append)

lemma overwrite_Nil [simp]: "overwrite off [] xs = xs"
  by (simp add: overwrite_def)

lemma overwrite_Suc:
  assumes "k < length ys" "off + Suc k \<le> length xs"
  shows "overwrite off (take (Suc k) ys) xs = (overwrite off (take k ys) xs)[off + k := ys ! k]"
proof -
  have "drop (off + k) xs = xs ! (off + k) # drop (off + Suc k) xs"
    using assms(2) Cons_nth_drop_Suc [of "off + k" xs] by simp
  then show ?thesis
    using assms by (simp add: overwrite_def take_Suc_conv_app_nth list_update_append)
qed

lemma length_block [simp]: "length (block off n xs) = min n (length xs - off)"
  by (simp add: block_def)

lemma nth_block:
  "off + n \<le> length xs \<Longrightarrow> i < n \<Longrightarrow> block off n xs ! i = xs ! (off + i)"
  by (simp add: block_def)

lemma block_eqI:
  assumes "off + n \<le> length xs" "length ys = n" "\<And>i. i < n \<Longrightarrow> ys ! i = xs ! (off + i)"
  shows "block off n xs = ys"
  using assms by (intro nth_equalityI) (auto simp: nth_block)

lemma block_append_left: "off + n \<le> length xs \<Longrightarrow> block off n (xs @ ys) = block off n xs"
  by (simp add: block_def)

lemma block_block_append:
  "off + m + n \<le> length xs \<Longrightarrow> block off m xs @ block (off + m) n xs = block off (m + n) xs"
  by (simp add: block_def take_add add.commute)

subsection \<open>64-bit words as natural numbers\<close>

lemma u64_lt [simp]: "unat (x :: u64) < 18446744073709551616"
  using unsigned_less [of x] by (simp add: unat_arith_simps)

lemma unat_plus_u64 [u64_nat]:
  "unat (x :: u64) + unat y < 2 ^ 64 \<Longrightarrow> unat (x + y) = unat x + unat y"
  by (simp add: unat_word_ariths)

lemma unat_minus_u64 [u64_nat]: "y \<le> x \<Longrightarrow> unat ((x :: u64) - y) = unat x - unat y"
  by (rule unat_sub)

lemma unat_and_mask_u64:
  assumes "k \<le> 64"
  shows "unat ((x :: u64) AND (2 ^ k - 1)) = unat x mod 2 ^ k"
proof -
  have "x AND (2 ^ k - 1) = take_bit k x"
    by (simp add: take_bit_eq_mask mask_eq_exp_minus_1)
  then have "unat (x AND (2 ^ k - 1)) = unat (take_bit k x)"
    by (rule arg_cong)
  also have "\<dots> = take_bit k (unat x)"
    by (rule unsigned_take_bit_eq)
  also have "\<dots> = unat x mod 2 ^ k"
    by (rule take_bit_eq_mod)
  finally show ?thesis .
qed

lemma unat_pow2_u64 [simp]:
  assumes "k < 64"
  shows "unat ((2 :: u64) ^ k) = 2 ^ k"
proof -
  have "(2 :: u64) ^ k = word_of_nat (2 ^ k)"
    by simp
  moreover have "(2 :: nat) ^ k < 2 ^ 64"
    using assms by (intro power_strict_increasing) auto
  ultimately show ?thesis
    by (simp only: unat_of_nat) simp
qed

lemma u64_of_nat: "unat (x :: u64) = n \<Longrightarrow> x = word_of_nat n"
  by auto

lemma unat_word_of_nat_u64 [u64_nat]: "n < 2 ^ 64 \<Longrightarrow> unat (word_of_nat n :: u64) = n"
  by (simp add: unat_of_nat)

lemma unat_plus_nat_u64 [u64_nat]:
  assumes "unat (x :: u64) + n < 2 ^ 64"
  shows "unat (x + word_of_nat n) = unat x + n"
proof -
  have "unat (word_of_nat n :: u64) = n"
    using assms by (intro unat_word_of_nat_u64) linarith
  with assms show ?thesis
    by (simp add: unat_plus_u64)
qed

lemma sint_u64:
  "sint (x :: u64) = (if unat x < 2 ^ 63 then int (unat x) else int (unat x) - 2 ^ 64)"
proof -
  have range: "- (2 ^ 63) \<le> sint x" "sint x < 2 ^ 63"
    using sint_ge [of x] sint_lt [of x] by simp_all
  have "int (unat x) = sint x mod 2 ^ 64"
    using uint_sint [of x] by (simp add: take_bit_eq_mod)
  also have "\<dots> = (if 0 \<le> sint x then sint x else sint x + 2 ^ 64)"
  proof (cases "0 \<le> sint x")
    case False
    have "(sint x + 2 ^ 64) mod 2 ^ 64 = sint x + 2 ^ 64"
      using range False by (intro mod_pos_pos_trivial) auto
    with False show ?thesis
      by (simp only: mod_add_self2 if_False)
  qed (use range in \<open>simp add: mod_pos_pos_trivial\<close>)
  finally have eq: "int (unat x) = (if 0 \<le> sint x then sint x else sint x + 2 ^ 64)" .
  have "unat x < 2 ^ 63 \<longleftrightarrow> int (unat x) < int (2 ^ 63)"
    by (rule of_nat_less_iff [symmetric])
  with eq range show ?thesis
    by (simp del: of_nat_unat split: if_splits)
qed

lemma mod_add_lt:
  "(a :: nat) mod n + b < n \<Longrightarrow> (a + b) mod n = a mod n + b"
  by (metis mod_add_left_eq mod_less)

lemma mod_eq_near:
  assumes "(a :: nat) mod n = b mod n" "a \<le> b" "b < a + n"
  shows "a = b"
proof (rule ccontr)
  assume "a \<noteq> b"
  from assms obtain q where "b = a + n * q"
    by (metis mod_eq_nat1E)
  with \<open>a \<noteq> b\<close> \<open>b < a + n\<close> show False
    by (cases q) auto
qed

lemma mod_sub_low:
  assumes "n \<le> (h :: nat) mod S"
  shows "(h - n) mod S = h mod S - n"
proof (cases "S = 0")
  case False
  have "h - n = (h mod S - n) + S * (h div S)"
    using assms mult_div_mod_eq [of S h] by linarith
  also have "\<dots> mod S = (h mod S - n) mod S"
    by simp
  also have "\<dots> = h mod S - n"
    using False mod_less_divisor [of S h] by (intro mod_less) linarith
  finally show ?thesis .
qed simp

lemma mod_sub_high:
  assumes "(h :: nat) mod S < n" "n \<le> S" "n \<le> h"
  shows "(h - n) mod S = S + h mod S - n"
proof -
  have "0 < h div S"
  proof (rule ccontr)
    assume "\<not> 0 < h div S"
    then have "h mod S = h" using mult_div_mod_eq [of S h] by simp
    with assms show False by simp
  qed
  then have "S * (h div S) = S + S * (h div S - 1)"
    by (cases "h div S") simp_all
  then have "h - n = (S + h mod S - n) + S * (h div S - 1)"
    using assms mult_div_mod_eq [of S h] by linarith
  also have "\<dots> mod S = (S + h mod S - n) mod S"
    by simp
  also have "\<dots> = S + h mod S - n"
    using assms by (intro mod_less) linarith
  finally show ?thesis .
qed

subsection \<open>Short runs of a step relation\<close>

lemma steps2: "r a b \<Longrightarrow> r b c \<Longrightarrow> c = z \<Longrightarrow> r\<^sup>*\<^sup>* a z"
  by auto

lemma steps3: "r a b \<Longrightarrow> r b c \<Longrightarrow> r c d \<Longrightarrow> d = z \<Longrightarrow> r\<^sup>*\<^sup>* a z"
  by (rule converse_rtranclp_into_rtranclp [OF _ steps2])

lemma steps4: "r a b \<Longrightarrow> r b c \<Longrightarrow> r c d \<Longrightarrow> r d e \<Longrightarrow> e = z \<Longrightarrow> r\<^sup>*\<^sup>* a z"
  by (rule converse_rtranclp_into_rtranclp [OF _ steps3])

lemma steps6:
  "r a b \<Longrightarrow> r b c \<Longrightarrow> r c d \<Longrightarrow> r d e \<Longrightarrow> r e f \<Longrightarrow> r f g \<Longrightarrow> g = z \<Longrightarrow> r\<^sup>*\<^sup>* a z"
  by (rule converse_rtranclp_into_rtranclp [OF _ converse_rtranclp_into_rtranclp [OF _ steps4]])

end
