(* ===== verification/Doubles.thy ===== *)
theory Doubles
  imports Prelude "HOL-Library.Log_Nat"
begin

text \<open>
  The C++ type \<open>double\<close>: IEEE 754 binary64 with round-to-nearest-even, as the language's
  arithmetic on the supported platforms performs it. A value is a finite rational, an infinity
  or a NaN (the sign of zero is not kept). \<open>rnd\<close> rounds a rational to 53 significant bits with
  the exponent bounded below (gradual underflow), \<open>mkd\<close> adds the overflow to infinity; every
  operation is the exact one followed by \<open>mkd\<close>. The lemmas bound the rounding error and say
  which values are exact; the components use them for the conversions between seconds,
  nanoseconds and sample counts.
\<close>

subsection \<open>Powers of two with an integer exponent\<close>

definition p2 :: "int \<Rightarrow> rat" where
  "p2 k = (if 0 \<le> k then 2 ^ nat k else 1 / 2 ^ nat (- k))"

lemma p2_power_int: "p2 k = power_int 2 k"
  by (simp add: p2_def power_int_def power_one_over inverse_eq_divide)

lemma p2_pos [simp]: "0 < p2 k"
  by (simp add: p2_def)

lemma p2_nonneg [simp]: "0 \<le> p2 k"
  using p2_pos [of k] by linarith

lemma p2_nonzero [simp]: "p2 k \<noteq> 0"
  using p2_pos [of k] by linarith

lemma p2_add: "p2 (a + b) = p2 a * p2 b"
  by (simp add: p2_power_int power_int_add)

lemma p2_nat [simp]: "p2 (int n) = 2 ^ n"
  by (simp add: p2_def)

lemma p2_less: "a < b \<Longrightarrow> p2 a < p2 b"
  unfolding p2_power_int by (rule power_int_strict_increasing) auto

lemma p2_less_iff: "p2 a < p2 b \<longleftrightarrow> a < b"
  using p2_less [of a b] p2_less [of b a] by (cases a b rule: linorder_cases) auto

lemma p2_le_iff: "p2 a \<le> p2 b \<longleftrightarrow> a \<le> b"
  using p2_less_iff [of b a] by linarith

lemma p2_minus: "p2 (- k) = 1 / p2 k"
  by (simp add: p2_power_int power_int_minus inverse_eq_divide)

subsection \<open>The binary exponent of a positive rational\<close>

definition ilog2 :: "rat \<Rightarrow> int" where
  "ilog2 x = (let (n, d) = quotient_of x; k = bitlen n - bitlen d
              in if p2 k \<le> x then k else k - 1)"

lemma bitlen_p2:
  assumes "0 < n"
  shows "p2 (bitlen n - 1) \<le> of_int n" "of_int n < p2 (bitlen n)"
proof -
  have pos: "0 < bitlen n"
    using assms bitlen_eq_zero_iff [of n] bitlen_nonneg [of n] by linarith
  have "2 ^ nat (bitlen n - 1) \<le> n \<and> n < 2 ^ nat (bitlen n)"
    using bitlen_bounds [OF assms] .
  then have "of_int (2 ^ nat (bitlen n - 1)) \<le> (of_int n :: rat)"
    and "(of_int n :: rat) < of_int (2 ^ nat (bitlen n))"
    by (simp_all only: of_int_le_iff of_int_less_iff)
  then show "p2 (bitlen n - 1) \<le> of_int n" "of_int n < p2 (bitlen n)"
    using pos by (simp_all add: p2_def)
qed

lemma ilog2_bounds:
  assumes "0 < x"
  shows "p2 (ilog2 x) \<le> x" "x < p2 (ilog2 x + 1)"
proof -
  obtain n d where q: "quotient_of x = (n, d)"
    by (cases "quotient_of x")
  have d: "0 < d"
    using q by (rule quotient_of_denom_pos)
  have x: "x = of_int n / of_int d"
    using q by (rule quotient_of_div)
  have n: "0 < n"
    using assms d by (simp add: x zero_less_divide_iff)
  define k where "k = bitlen n - bitlen d"
  have up: "x < p2 (k + 1)"
  proof -
    have "of_int n < p2 (bitlen n)" and "p2 (bitlen d - 1) \<le> of_int d"
      using bitlen_p2 n d by auto
    then have "of_int n / of_int d < p2 (bitlen n) / p2 (bitlen d - 1)"
      by (intro frac_less) (use n in auto)
    also have "\<dots> = p2 (k + 1)"
      using p2_add [of "bitlen d - 1" "k + 1"] by (simp add: k_def field_simps)
    finally show ?thesis by (simp add: x)
  qed
  have low: "p2 (k - 1) \<le> x"
  proof -
    have "p2 (bitlen n - 1) \<le> of_int n" and "of_int d < p2 (bitlen d)"
      using bitlen_p2 n d by auto
    then have "p2 (bitlen n - 1) / p2 (bitlen d) \<le> of_int n / of_int d"
      by (intro frac_le) (use d n in auto)
    moreover have "p2 (bitlen n - 1) / p2 (bitlen d) = p2 (k - 1)"
      using p2_add [of "bitlen d" "k - 1"] by (simp add: k_def field_simps)
    ultimately show ?thesis by (simp add: x)
  qed
  have "ilog2 x = (if p2 k \<le> x then k else k - 1)"
    by (simp add: ilog2_def q k_def)
  then show "p2 (ilog2 x) \<le> x" "x < p2 (ilog2 x + 1)"
    using up low by auto
qed

lemma ilog2_unique:
  assumes "p2 e \<le> x" "x < p2 (e + 1)"
  shows "ilog2 x = e"
proof -
  have pos: "0 < x"
    using assms(1) p2_pos [of e] by linarith
  from ilog2_bounds [OF pos] assms have "p2 (ilog2 x) < p2 (e + 1)" "p2 e < p2 (ilog2 x + 1)"
    by linarith+
  then show ?thesis
    by (simp add: p2_less_iff)
qed

subsection \<open>Rounding\<close>

text \<open>Round a rational to the nearest integer, ties to even.\<close>

definition rne :: "rat \<Rightarrow> int" where
  "rne x = (let f = \<lfloor>x\<rfloor>; r = x - of_int f
            in if r < 1 / 2 then f else if 1 / 2 < r then f + 1
               else if even f then f else f + 1)"

lemma rne_err: "\<bar>of_int (rne x) - x\<bar> \<le> 1 / 2"
proof -
  have "of_int \<lfloor>x\<rfloor> \<le> x" "x < of_int \<lfloor>x\<rfloor> + 1"
    by (rule of_int_floor_le, rule floor_correct [THEN conjunct2, simplified])
  then show ?thesis
    by (auto simp: rne_def Let_def abs_le_iff)
qed

lemma rne_of_int [simp]: "rne (of_int n) = n"
  by (simp add: rne_def)

text \<open>The spacing of the doubles around \<open>x\<close>: 53 significant bits, at least \<open>2 ^ -1074\<close>.\<close>

definition quantum :: "rat \<Rightarrow> int" where
  "quantum x = max (ilog2 \<bar>x\<bar> - 52) (- 1074)"

definition rnd :: "rat \<Rightarrow> rat" where
  "rnd x = (if x = 0 then 0 else of_int (rne (x / p2 (quantum x))) * p2 (quantum x))"

lemma rnd_0 [simp]: "rnd 0 = 0"
  by (simp add: rnd_def)

lemma rnd_err_quantum: "x \<noteq> 0 \<Longrightarrow> \<bar>rnd x - x\<bar> \<le> p2 (quantum x) / 2"
proof -
  assume x: "x \<noteq> 0"
  let ?q = "p2 (quantum x)"
  have "rnd x - x = (of_int (rne (x / ?q)) - x / ?q) * ?q"
    using x by (simp add: rnd_def left_diff_distrib)
  then have "\<bar>rnd x - x\<bar> = \<bar>of_int (rne (x / ?q)) - x / ?q\<bar> * ?q"
    by (simp add: abs_mult)
  also have "\<dots> \<le> 1 / 2 * ?q"
    by (intro mult_right_mono rne_err) simp
  finally show ?thesis by simp
qed

text \<open>In the normal range the relative error is at most half a unit in the last place.\<close>

lemma rnd_rel:
  assumes "p2 (- 1022) \<le> \<bar>x\<bar>"
  shows "\<bar>rnd x - x\<bar> \<le> \<bar>x\<bar> * p2 (- 53)"
proof -
  have pos: "0 < \<bar>x\<bar>"
    using assms p2_pos [of "- 1022"] by linarith
  have "p2 (- 1022) < p2 (ilog2 \<bar>x\<bar> + 1)"
    using assms ilog2_bounds(2) [OF pos] by linarith
  then have q: "quantum x = ilog2 \<bar>x\<bar> - 52"
    by (simp add: p2_less_iff quantum_def)
  have "\<bar>rnd x - x\<bar> \<le> p2 (quantum x) / 2"
    by (rule rnd_err_quantum) (use pos in auto)
  also have "\<dots> = p2 (ilog2 \<bar>x\<bar>) * p2 (- 53)"
    using p2_add [of "ilog2 \<bar>x\<bar> - 52" "- 1"] p2_add [of "ilog2 \<bar>x\<bar>" "- 53"]
    by (simp add: q) (simp add: p2_def)
  also have "\<dots> \<le> \<bar>x\<bar> * p2 (- 53)"
    by (intro mult_right_mono ilog2_bounds pos) simp
  finally show ?thesis .
qed

text \<open>Values with at most 53 significant bits are exact.\<close>

lemma rnd_exact:
  assumes "x = of_int m * p2 k" "\<bar>m\<bar> < 2 ^ 53" "- 1074 \<le> k"
  shows "rnd x = x"
proof (cases "x = 0")
  case False
  let ?e = "ilog2 \<bar>x\<bar>"
  have pos: "0 < \<bar>x\<bar>" using False by simp
  have "\<bar>x\<bar> = of_int \<bar>m\<bar> * p2 k"
    by (simp add: assms(1) abs_mult)
  also have "\<dots> < p2 53 * p2 k"
  proof (rule mult_strict_right_mono)
    have "of_int \<bar>m\<bar> < (of_int (2 ^ 53) :: rat)"
      using assms(2) by (simp only: of_int_less_iff)
    then show "of_int \<bar>m\<bar> < p2 53" by (simp add: p2_def)
  qed simp
  also have "\<dots> = p2 (53 + k)"
    by (simp add: p2_add)
  finally have "p2 ?e < p2 (53 + k)"
    using ilog2_bounds(1) [OF pos] by linarith
  then have le: "quantum x \<le> k"
    using assms(3) by (simp add: p2_less_iff quantum_def)
  define n where "n = m * 2 ^ nat (k - quantum x)"
  have "x = of_int n * p2 (quantum x)"
  proof -
    have "p2 k = p2 (k - quantum x) * p2 (quantum x)"
      by (simp flip: p2_add)
    moreover have "p2 (k - quantum x) = 2 ^ nat (k - quantum x)"
      using le by (simp add: p2_def)
    ultimately show ?thesis by (simp add: n_def assms(1))
  qed
  then have "x / p2 (quantum x) = of_int n"
    by (metis nonzero_mult_div_cancel_right p2_nonzero)
  then have "rne (x / p2 (quantum x)) = n"
    by (simp only: rne_of_int)
  with False \<open>x = of_int n * p2 (quantum x)\<close> show ?thesis
    by (simp add: rnd_def)
qed simp

subsection \<open>Doubles and their operations\<close>

text \<open>\<open>Inf True\<close> is minus infinity.\<close>

datatype dbl = Fin rat | Inf bool | NaN

definition mkd :: "rat \<Rightarrow> dbl" where
  "mkd x = (let y = rnd x in if p2 1024 \<le> \<bar>y\<bar> then Inf (y < 0) else Fin y)"

text \<open>Conversions of the integer types, and a literal of the source.\<close>

definition of_u64 :: "u64 \<Rightarrow> dbl" where
  "of_u64 w = mkd (of_nat (unat w))"

definition of_integer :: "int \<Rightarrow> dbl" where
  "of_integer i = mkd (of_int i)"

fun dmul :: "dbl \<Rightarrow> dbl \<Rightarrow> dbl" where
  "dmul (Fin x) (Fin y) = mkd (x * y)"
| "dmul NaN _ = NaN"
| "dmul _ NaN = NaN"
| "dmul (Inf a) (Inf b) = Inf (a \<noteq> b)"
| "dmul (Inf a) (Fin y) = (if y = 0 then NaN else Inf (a \<noteq> (y < 0)))"
| "dmul (Fin x) (Inf b) = (if x = 0 then NaN else Inf ((x < 0) \<noteq> b))"

fun ddiv :: "dbl \<Rightarrow> dbl \<Rightarrow> dbl" where
  "ddiv (Fin x) (Fin y) = (if y = 0 then (if x = 0 then NaN else Inf (x < 0)) else mkd (x / y))"
| "ddiv NaN _ = NaN"
| "ddiv _ NaN = NaN"
| "ddiv (Inf _) (Inf _) = NaN"
| "ddiv (Inf a) (Fin y) = Inf (a \<noteq> (y < 0))"
| "ddiv (Fin _) (Inf _) = Fin 0"

fun dsub :: "dbl \<Rightarrow> dbl \<Rightarrow> dbl" where
  "dsub (Fin x) (Fin y) = mkd (x - y)"
| "dsub NaN _ = NaN"
| "dsub _ NaN = NaN"
| "dsub (Inf a) (Inf b) = (if a = b then NaN else Inf a)"
| "dsub (Inf a) (Fin _) = Inf a"
| "dsub (Fin _) (Inf b) = Inf (\<not> b)"

text \<open>The comparisons \<open><\<close>, \<open><=\<close> and \<open>==\<close>; every one is false on a NaN.\<close>

fun dless :: "dbl \<Rightarrow> dbl \<Rightarrow> bool" where
  "dless (Fin x) (Fin y) = (x < y)"
| "dless NaN _ = False"
| "dless _ NaN = False"
| "dless (Inf a) (Inf b) = (a \<and> \<not> b)"
| "dless (Inf a) (Fin _) = a"
| "dless (Fin _) (Inf b) = (\<not> b)"

definition deq :: "dbl \<Rightarrow> dbl \<Rightarrow> bool" where
  "deq a b \<longleftrightarrow> a = b \<and> a \<noteq> NaN"

definition dle :: "dbl \<Rightarrow> dbl \<Rightarrow> bool" where
  "dle a b \<longleftrightarrow> dless a b \<or> deq a b"

text \<open>\<open>std::round\<close>: nearest integer, ties away from zero.\<close>

fun dround :: "dbl \<Rightarrow> dbl" where
  "dround (Fin x) = Fin (if 0 \<le> x then of_int \<lfloor>x + 1 / 2\<rfloor> else of_int \<lceil>x - 1 / 2\<rceil>)"
| "dround d = d"

text \<open>
  Conversion to \<open>uint64_t\<close> truncates towards zero; where the truncated value does not fit the
  conversion is undefined behaviour, which is \<open>None\<close>.
\<close>

fun to_u64 :: "dbl \<Rightarrow> u64 option" where
  "to_u64 (Fin x) =
     (let t = (if 0 \<le> x then \<lfloor>x\<rfloor> else \<lceil>x\<rceil>)
      in if 0 \<le> t \<and> t < 2 ^ 64 then Some (word_of_int t) else None)"
| "to_u64 _ = None"

subsection \<open>Exact values\<close>

lemma rnd_int [simp]: "\<bar>m\<bar> < 2 ^ 53 \<Longrightarrow> rnd (of_int m) = of_int m"
  by (rule rnd_exact [where m = m and k = 0]) (simp_all add: p2_def)

lemma rnd_nat: "n < 2 ^ 53 \<Longrightarrow> rnd (of_nat n) = of_nat n"
  using rnd_int [of "int n"] by (simp flip: of_nat_power)

lemma mkd_small: "rnd x = x \<Longrightarrow> \<bar>x\<bar> < p2 1024 \<Longrightarrow> mkd x = Fin x"
  by (simp add: mkd_def)

lemma mkd_Fin_rnd: "\<bar>rnd x\<bar> < p2 1024 \<Longrightarrow> mkd x = Fin (rnd x)"
  by (simp add: mkd_def)

lemma to_u64_nat:
  assumes "n < 2 ^ 64"
  shows "to_u64 (Fin (of_nat n)) = Some (of_nat n)"
proof -
  have "\<lfloor>of_nat n :: rat\<rfloor> = int n"
    by simp
  moreover have "int n < 2 ^ 64"
    using assms by simp
  ultimately show ?thesis by simp
qed

subsection \<open>Error of a product chain\<close>

definition ulp1 :: rat where
  "ulp1 = 1 / 9007199254740992"

lemma ulp1_p2: "p2 (- 53) = ulp1"
  by (simp add: p2_def ulp1_def)

lemma rnd_factor:
  assumes "p2 (- 1022) \<le> x"
  obtains a where "rnd x = x * a" "\<bar>a - 1\<bar> \<le> ulp1"
proof -
  have x: "0 < x"
    using assms p2_pos [of "- 1022"] by linarith
  have "\<bar>rnd x - x\<bar> \<le> \<bar>x\<bar> * ulp1"
    using rnd_rel [of x] assms x by (simp add: ulp1_p2)
  then have "\<bar>rnd x / x - 1\<bar> \<le> ulp1"
    using x by (simp add: abs_le_iff field_simps)
  with that [of "rnd x / x"] x show ?thesis by simp
qed

lemma factor_mult:
  fixes a b :: rat
  assumes "\<bar>a - 1\<bar> \<le> e" "\<bar>b - 1\<bar> \<le> f"
  shows "\<bar>a * b - 1\<bar> \<le> e + f + e * f"
proof -
  have "\<bar>(a - 1) * (b - 1)\<bar> \<le> e * f"
    unfolding abs_mult using assms by (intro mult_mono) auto
  moreover have "a * b - 1 = (a - 1) + (b - 1) + (a - 1) * (b - 1)"
    by (simp add: algebra_simps)
  ultimately show ?thesis
    using assms by linarith
qed

lemma p2_tiny: "1 / 100000000000 \<le> x \<Longrightarrow> p2 (- 1022) \<le> x"
proof -
  assume "1 / 100000000000 \<le> x"
  moreover have "p2 (- 1022) \<le> p2 (- 60)"
    by (simp add: p2_le_iff)
  ultimately show ?thesis by (simp add: p2_def)
qed

text \<open>
  Nanoseconds to samples as \<open>get_tail\<close> computes them: four roundings, so at most five half
  units in the last place of relative error.
\<close>

lemma product_chain:
  assumes "1 \<le> K" "1 \<le> R"
  shows "\<bar>rnd (rnd (rnd K * rnd (1 / 1000000000)) * R) - K / 1000000000 * R\<bar>
    \<le> K / 1000000000 * R * (5 * ulp1)"
proof -
  have "1 / 100000000000 \<le> K" using assms(1) by simp
  then obtain a where a: "rnd K = K * a" "\<bar>a - 1\<bar> \<le> ulp1"
    using rnd_factor [OF p2_tiny] by metis
  obtain b where b: "rnd (1 / 1000000000) = 1 / 1000000000 * b" "\<bar>b - 1\<bar> \<le> ulp1"
    using rnd_factor [OF p2_tiny, of "1 / 1000000000"] by auto
  define x where "x = K / 1000000000 * (a * b)"
  have ab: "\<bar>a * b - 1\<bar> \<le> 9 / 4 * ulp1"
    using factor_mult [OF a(2) b(2)] by (simp add: ulp1_def)
  then have "1 / 2 \<le> a * b"
    unfolding ulp1_def by linarith
  then have "1 / 1000000000 * (1 / 2) \<le> x"
    unfolding x_def using assms(1) by (intro mult_mono) auto
  then have x: "1 / 2000000000 \<le> x" by simp
  then have "1 / 100000000000 \<le> x" by linarith
  then obtain c where c: "rnd x = x * c" "\<bar>c - 1\<bar> \<le> ulp1"
    using rnd_factor [OF p2_tiny] by metis
  have abc: "\<bar>a * b * c - 1\<bar> \<le> 7 / 2 * ulp1"
    using factor_mult [OF ab c(2)] by (simp add: ulp1_def)
  have "1 / 2 \<le> c"
    using c(2) unfolding ulp1_def by linarith
  then have "1 / 2000000000 * (1 / 2) * 1 \<le> x * c * R"
    using assms x by (intro mult_mono) auto
  then have "1 / 100000000000 \<le> x * c * R" by linarith
  then obtain d where d: "rnd (x * c * R) = x * c * R * d" "\<bar>d - 1\<bar> \<le> ulp1"
    using rnd_factor [OF p2_tiny] by metis
  have abcd: "\<bar>a * b * c * d - 1\<bar> \<le> 5 * ulp1"
    using factor_mult [OF abc d(2)] by (simp add: ulp1_def)
  have prod: "rnd K * rnd (1 / 1000000000) = x"
    by (simp add: a(1) b(1) x_def)
  have "x * c * R * d - K / 1000000000 * R = K / 1000000000 * R * (a * b * c * d - 1)"
    by (simp add: x_def algebra_simps)
  then have "rnd (rnd (rnd K * rnd (1 / 1000000000)) * R) - K / 1000000000 * R =
      K / 1000000000 * R * (a * b * c * d - 1)"
    by (simp only: prod c(1) d(1))
  moreover have "\<bar>K / 1000000000 * R\<bar> = K / 1000000000 * R"
    using assms by simp
  ultimately show ?thesis
    using abcd assms by (simp only: abs_mult) (intro mult_left_mono, auto)
qed

text \<open>In the range of all the code's quantities nothing overflows.\<close>

lemma mkd_moderate:
  assumes "1 / 100000000000 \<le> x" "x \<le> 2 ^ 200"
  shows "mkd x = Fin (rnd x)" "x / 2 \<le> rnd x" "rnd x \<le> 2 * x"
proof -
  obtain a where a: "rnd x = x * a" "\<bar>a - 1\<bar> \<le> ulp1"
    using rnd_factor [OF p2_tiny] assms(1) by metis
  have x: "0 < x" using assms(1) by linarith
  have b: "1 / 2 \<le> a" "a \<le> 2"
    using a(2) unfolding ulp1_def by linarith+
  then have "x * (1 / 2) \<le> x * a" "x * a \<le> x * 2"
    using x by (intro mult_left_mono; simp)+
  then show r: "x / 2 \<le> rnd x" "rnd x \<le> 2 * x"
    using a(1) by simp_all
  have "(2 :: rat) * 2 ^ 200 = p2 201" "p2 201 < p2 1024"
    by (simp add: p2_def, simp add: p2_less_iff)
  then have "\<bar>rnd x\<bar> < p2 1024"
    using r x assms(2) by linarith
  then show "mkd x = Fin (rnd x)"
    by (rule mkd_Fin_rnd)
qed

end
