(* ===== verification/Errors.thy ===== *)
theory Errors
  imports Text
begin

text \<open>
  The exceptions of \<^verbatim>\<open>src/error.hpp\<close> and \<^verbatim>\<open>src/mqtt.hpp\<close> and the text their \<open>what()\<close>
  returns, the exception of \<open>std::get\<close> on a
  variant and, by their text, the exceptions of the libraries. A model of code that throws returns \<open>exc + 'a\<close>, with \<open>Inl\<close> for the exception. The
  constructor \<open>Undefined\<close> is not an exception of the program: it is the value of a model where
  the C++ code runs into undefined behaviour (an index out of range, a division by zero, a
  conversion of a double that does not fit).
\<close>

datatype exc =
    Config_error string int string
  | Generic_error string
  | Not_implemented_error string
  | Syscall_error string int
  | Mqtt_error string int
  | Bad_variant_access
  | Library_error string
  | Undefined string

type_synonym 'a res = "exc + 'a"

text \<open>
  \<open>what strerror mosq_strerror file line e\<close>: the text of exception \<open>e\<close> thrown at \<open>file:line\<close>.
  The two error tables belong to the C library and to libmosquitto.
\<close>

definition mqtt_what :: "(int \<Rightarrow> string) \<Rightarrow> string \<Rightarrow> nat \<Rightarrow> string \<Rightarrow> int \<Rightarrow> string" where
  "mqtt_what mosq_strerror file line message code =
     file @ '':'' @ show_nat line @ '': mqtt_error: '' @ message @ '': ''
       @ mosq_strerror code @ '' ('' @ show_int code @ '')''"

definition what :: "(int \<Rightarrow> string) \<Rightarrow> (int \<Rightarrow> string) \<Rightarrow> string \<Rightarrow> nat \<Rightarrow> exc \<Rightarrow> string" where
  "what strerror mosq_strerror file line e =
     (case e of
        Config_error message lineno cfgline \<Rightarrow>
          ''config_error: '' @ file @ '':'' @ show_nat line @ '': error parsing config line ''
            @ show_int lineno @ '': '' @ message @ '': '' @ cfgline
      | Generic_error message \<Rightarrow>
          ''generic_error: '' @ file @ '':'' @ show_nat line @ '': '' @ message
      | Not_implemented_error message \<Rightarrow>
          ''not_implemented_error: '' @ file @ '':'' @ show_nat line @ '': ''
            @ message @ '': '' @ message
      | Syscall_error message code \<Rightarrow>
          ''syscall_error: '' @ file @ '':'' @ show_nat line @ '': ''
            @ message @ '': '' @ strerror code @ '' ('' @ show_int code @ '')''
      | Mqtt_error message code \<Rightarrow> mqtt_what mosq_strerror file line message code
      | Bad_variant_access \<Rightarrow> ''std::get: wrong index for variant''
      | Library_error message \<Rightarrow> message
      | Undefined message \<Rightarrow> [])"

text \<open>Sequencing: an exception skips what follows.\<close>

fun and_then :: "'a res \<Rightarrow> ('a \<Rightarrow> 'b res) \<Rightarrow> 'b res" where
  "and_then (Inl e) f = Inl e"
| "and_then (Inr x) f = f x"

lemma and_then_Inr: "and_then r f = Inr y \<longleftrightarrow> (\<exists>x. r = Inr x \<and> f x = Inr y)"
  by (cases r) simp_all

lemma and_then_Inl: "and_then r f = Inl e \<longleftrightarrow> r = Inl e \<or> (\<exists>x. r = Inr x \<and> f x = Inl e)"
  by (cases r) simp_all

subsection \<open>Procedures\<close>

text \<open>
  What a procedure did: \<open>None\<close> when it does not return, otherwise the exception it ended with, if any,
  and its actions up to there.
\<close>

type_synonym 'c run = "(exc option \<times> 'c list) option"

definition run_do :: "'c list \<Rightarrow> 'c run" where
  "run_do cs = Some (None, cs)"

definition run_throw :: "exc \<Rightarrow> 'c run" where
  "run_throw e = Some (Some e, [])"

definition run_then :: "'c run \<Rightarrow> 'c run \<Rightarrow> 'c run" where
  "run_then a b =
     (case a of None \<Rightarrow> None | Some (Some e, cs) \<Rightarrow> Some (Some e, cs)
      | Some (None, cs) \<Rightarrow> map_option (\<lambda>(e, ds). (e, cs @ ds)) b)"

definition run_map :: "('c \<Rightarrow> 'd) \<Rightarrow> 'c run \<Rightarrow> 'd run" where
  "run_map f = map_option (\<lambda>(e, cs). (e, map f cs))"

lemma run_then_Some: "run_then a b = Some (r, cs) \<longleftrightarrow>
   (\<exists>e ds. a = Some (e, ds) \<and>
     (case e of Some x \<Rightarrow> r = Some x \<and> cs = ds
      | None \<Rightarrow> (\<exists>es. b = Some (r, es) \<and> cs = ds @ es)))"
  by (auto simp: run_then_def split: option.splits prod.splits)

lemma run_then_cases [consumes 1, case_names first both]:
  assumes "run_then a b = Some (e, cs)"
  obtains "a = Some (e, cs)" "e \<noteq> None"
    | ds es where "a = Some (None, ds)" "b = Some (e, es)" "cs = ds @ es"
proof -
  from assms obtain x ds where a: "a = Some (x, ds)" and x: "case x of Some y \<Rightarrow> e = Some y \<and> cs = ds
      | None \<Rightarrow> (\<exists>es. b = Some (e, es) \<and> cs = ds @ es)"
    unfolding run_then_Some by blast
  show thesis
  proof (cases x)
    case None
    with a x that(2) show ?thesis by auto
  next
    case Some
    with a x that(1) show ?thesis by simp
  qed
qed

lemma run_then_assoc: "run_then (run_then a b) c = run_then a (run_then b c)"
  by (cases c) (auto simp: run_then_def split: option.splits prod.splits)

lemma run_then_none [simp]: "run_then (run_do []) r = r" "run_then r (run_do []) = r"
  by (cases r; auto simp: run_then_def run_do_def split: option.splits)+

end
