(* ===== verification/Sink.thy ===== *)
theory Sink
  imports Prelude
begin

text \<open>
  The interface between the ring buffer and the code that fills it. A sink holds a history of
  samples; \<open>claim n\<close> tells how many of the next \<open>n\<close> samples it can take in one piece and \<open>push\<close>
  appends one such piece. The two loops of \<^verbatim>\<open>Rx::worker\<close> that write a run of samples piece by
  piece (zero padding, copying the receive buffer) are one function, \<open>fill\<close>, over this
  interface; that it ends and appends exactly its samples is proved here, once.
\<close>

subsection \<open>Filling a sink piece by piece\<close>

text \<open>
  \<open>while (done < n) { span = claim(n - done); write; produce; done += span.size(); }\<close>. The loop
  does not end if a claim is empty, so it is a partial function.
\<close>

partial_function (option) fill ::
  "(u64 \<Rightarrow> 's \<Rightarrow> u64) \<Rightarrow> (u64 \<Rightarrow> 'a list \<Rightarrow> 's \<Rightarrow> 's) \<Rightarrow> (u64 \<Rightarrow> u64 \<Rightarrow> 'a list) \<Rightarrow>
   u64 \<Rightarrow> u64 \<Rightarrow> 's \<Rightarrow> 's option" where
  "fill claim push src n k s =
     (if k < n
      then let m = claim (n - k) s
           in fill claim push src n (k + m) (push (n - k) (src k m) s)
      else Some s)"

locale sample_sink =
  fixes holds :: "'s \<Rightarrow> 'a list \<Rightarrow> bool"
    and claim :: "u64 \<Rightarrow> 's \<Rightarrow> u64"
    and push :: "u64 \<Rightarrow> 'a list \<Rightarrow> 's \<Rightarrow> 's"
  assumes claim_pos: "holds s h \<Longrightarrow> unat n < 2 ^ 62 \<Longrightarrow> 0 < n \<Longrightarrow> 0 < claim n s"
    and claim_le: "holds s h \<Longrightarrow> unat n < 2 ^ 62 \<Longrightarrow> claim n s \<le> n"
    and push_holds: "holds s h \<Longrightarrow> unat n < 2 ^ 62 \<Longrightarrow> length h + unat n < 2 ^ 63 \<Longrightarrow>
      length xs = unat (claim n s) \<Longrightarrow> holds (push n xs s) (h @ xs)"
begin

lemma fill_from:
  assumes "holds s h" "length xs = unat n" "unat n < 2 ^ 62" "length h + unat n < 2 ^ 63 + unat k"
    and "k \<le> n" "\<And>j m. unat j + unat m \<le> unat n \<Longrightarrow> src j m = block (unat j) (unat m) xs"
  shows "\<exists>s'. fill claim push src n k s = Some s' \<and> holds s' (h @ drop (unat k) xs)"
  using assms(1,4,5)
proof (induction "unat (n - k)" arbitrary: k s h rule: less_induct)
  case less
  show ?case
  proof (cases "k < n")
    case False
    with less.prems(3) have "k = n" by simp
    with less.prems(1) assms(2) show ?thesis
      by (simp add: fill.simps [of _ _ _ _ n])
  next
    case True
    define m where "m = claim (n - k) s"
    have nk: "unat (n - k) = unat n - unat k" "unat k < unat n"
      using True unat_minus_u64 [OF less_imp_le [OF True]] by (simp_all add: word_less_nat_alt)
    then have small: "unat (n - k) < 2 ^ 62"
      using assms(3) by linarith
    have "0 < n - k"
      using nk by (simp add: word_less_nat_alt)
    then have "0 < m" "m \<le> n - k"
      using claim_pos [OF less.prems(1) small] claim_le [OF less.prems(1) small] by (simp_all add: m_def)
    then have m: "0 < unat m" "unat m + unat k \<le> unat n"
      using nk by (simp_all add: word_less_nat_alt word_le_nat_alt)
    have km: "unat (k + m) = unat k + unat m"
      using m(2) u64_lt [of n] by (simp add: unat_plus_u64 del: u64_lt)
    have piece: "src k m = block (unat k) (unat m) xs"
      using m(2) by (intro assms(6)) simp
    have len: "length (src k m) = unat m"
      using m(2) assms(2) by (simp add: piece)
    have "length h + unat (n - k) < 2 ^ 63"
      using less.prems(2) nk by linarith
    then have "holds (push (n - k) (src k m) s) (h @ src k m)"
      using less.prems(1) small len by (intro push_holds) (simp_all add: m_def)
    moreover have "k + m \<le> n" "unat (n - (k + m)) < unat (n - k)"
      using m km nk by (simp_all add: word_le_nat_alt unat_sub)
    moreover have "length (h @ src k m) + unat n < 2 ^ 63 + unat (k + m)"
      using less.prems(2) km len by simp
    ultimately have "\<exists>s'. fill claim push src n (k + m) (push (n - k) (src k m) s) = Some s' \<and>
        holds s' ((h @ src k m) @ drop (unat (k + m)) xs)"
      using less.hyps by blast
    moreover have "src k m @ drop (unat (k + m)) xs = drop (unat k) xs"
      unfolding piece km block_def add.commute [of "unat k"] drop_drop [symmetric]
      by (rule append_take_drop_id)
    ultimately show ?thesis
      using True by (simp add: fill.simps [of _ _ _ _ k] m_def Let_def)
  qed
qed

text \<open>Filling from the start ends and appends the whole run.\<close>

lemma fill_holds:
  assumes "holds s h" "length xs = unat n" "unat n < 2 ^ 62" "length h + unat n < 2 ^ 63"
    and "\<And>j m. unat j + unat m \<le> unat n \<Longrightarrow> src j m = block (unat j) (unat m) xs"
  shows "\<exists>s'. fill claim push src n 0 s = Some s' \<and> holds s' (h @ xs)"
  using fill_from [OF assms(1-3), of 0 src] assms(4,5) by simp

end

end
