(* ===== verification/Ringbuf.thy ===== *)
theory Ringbuf
  imports Errors Doubles Sink
begin

text \<open>
  The shared-memory ring buffer of \<^verbatim>\<open>src/ringbuf.h\<close> and \<^verbatim>\<open>src/ringbuf.hpp\<close>: one producer (the
  Rx thread), any number of consumers. The record holds the shared descriptor (\<open>rb_head\<close>,
  \<open>rb_clob\<close>, start time, sample rate), the mapped sample memory and the producer's private
  copies. Every member function is a definition over it, with the 64-bit arithmetic of the
  code. The abstract view is the history of all samples ever produced: \<open>ring_repr\<close> says that the
  memory holds its last \<open>rb_size\<close> samples. The second half of the theory interleaves a producer
  with a consumer that reads without a lock and checks the clobber distance afterwards.
\<close>

subsection \<open>State and member functions\<close>

record 'a ringbuf =
  rb_start_nsec :: u64
  rb_rate :: dbl
  rb_head :: u64
  rb_clob :: u64
  rb_mem :: "'a list"
  rb_lhead :: u64
  rb_size :: u64
  rb_mask :: u64

text \<open>
  A \<open>std::span\<close> into the ring memory: the offset of its data pointer from the start of the
  mapping, in samples, and its size. Pointer arithmetic can leave the mapping on either side, so
  the offset is an integer.
\<close>

datatype span = Span (sp_off: int) (sp_size: u64)

text \<open>The constructor, on a mapping that the kernel and \<open>memset\<close> have filled with zeros.\<close>

definition ringbuf_new :: "u64 \<Rightarrow> u64 \<Rightarrow> 'a \<Rightarrow> 'a ringbuf" where
  "ringbuf_new ring_bytes sizeof_T zero =
     (let sz = ring_bytes div sizeof_T in
      \<lparr>rb_start_nsec = 0, rb_rate = Fin 0, rb_head = 0, rb_clob = 0,
       rb_mem = replicate (unat sz) zero, rb_lhead = 0, rb_size = sz, rb_mask = sz - 1\<rparr>)"

definition set_descriptor_info :: "u64 \<Rightarrow> dbl \<Rightarrow> 'a ringbuf \<Rightarrow> 'a ringbuf" where
  "set_descriptor_info nsec rate rb = rb\<lparr>rb_start_nsec := nsec, rb_rate := rate\<rparr>"

definition get_backlog_samples :: "'a ringbuf \<Rightarrow> u64 \<Rightarrow> u64" where
  "get_backlog_samples rb tail = (if rb_head rb \<le> tail then 0 else rb_head rb - tail)"

definition get_clobber_distance :: "'a ringbuf \<Rightarrow> u64 \<Rightarrow> int" where
  "get_clobber_distance rb tail = sint (tail + rb_size rb - rb_clob rb)"

definition get_consumer_span :: "'a ringbuf \<Rightarrow> u64 \<Rightarrow> u64 \<Rightarrow> span" where
  "get_consumer_span rb tail sz =
     (let data = uint (tail AND rb_mask rb) in
      if rb_head rb < tail + sz then Span data 0
      else if (tail AND rb_mask rb) + sz \<le> rb_size rb then Span data sz
      else Span data (rb_size rb - (tail AND rb_mask rb)))"

definition get_consumer_wait :: "'a ringbuf \<Rightarrow> u64 \<Rightarrow> u64 \<Rightarrow> u64 res" where
  "get_consumer_wait rb tail sz =
     (let sleep_sec = ddiv (of_u64 (tail + sz - rb_head rb)) (rb_rate rb) in
      if dle sleep_sec (Fin 0) then Inr 0
      else case to_u64 (dmul sleep_sec (mkd 1000000000)) of
             Some ns \<Rightarrow> Inr ns
           | None \<Rightarrow> Inl (Undefined ''sleep_sec * 1e9 does not fit uint64_t''))"

definition get_aligned_samples :: "'a ringbuf \<Rightarrow> u64 \<Rightarrow> span res" where
  "get_aligned_samples rb sz =
     (if sz = 0 then Inl (Undefined ''head % 0'')
      else let head = rb_head rb - rb_head rb mod sz in
        if sz \<le> (head AND rb_mask rb)
        then Inr (Span (uint (head AND rb_mask rb) - uint sz) sz)
        else Inr (Span (uint ((head - sz) AND rb_mask rb) - uint sz) sz))"

definition get_producer_span :: "u64 \<Rightarrow> 'a ringbuf \<Rightarrow> span \<times> 'a ringbuf" where
  "get_producer_span sz rb =
     (if (rb_lhead rb AND rb_mask rb) + sz \<le> rb_size rb
      then (Span (uint (rb_lhead rb AND rb_mask rb)) sz, rb\<lparr>rb_clob := rb_lhead rb + sz\<rparr>)
      else let sz' = rb_size rb - (rb_lhead rb AND rb_mask rb) in
        (Span (uint (rb_lhead rb AND rb_mask rb)) sz', rb\<lparr>rb_clob := rb_lhead rb + sz'\<rparr>))"

definition get_tail :: "'a ringbuf \<Rightarrow> u64 \<Rightarrow> u64 res" where
  "get_tail rb tail_nsec =
     (if tail_nsec < rb_start_nsec rb
      then Inl (Generic_error ''requested tail precedes start time of buffer'')
      else case to_u64 (dround (dmul (dmul (of_u64 (tail_nsec - rb_start_nsec rb))
                                           (mkd (1 / 1000000000))) (rb_rate rb))) of
             None \<Rightarrow> Inl (Undefined ''tail does not fit uint64_t'')
           | Some tail \<Rightarrow>
               if tail \<le> rb_clob rb then Inl (Generic_error ''requested tail already clobbered'')
               else Inr tail)"

definition produce :: "u64 \<Rightarrow> 'a ringbuf \<Rightarrow> 'a ringbuf" where
  "produce sz rb = (let h = rb_lhead rb + sz in rb\<lparr>rb_lhead := h, rb_head := h\<rparr>)"

text \<open>
  What the code does with a span: the samples a \<open>memset\<close>, a \<open>memcpy\<close> or the driver writes
  through its data pointer, and the samples a reader finds there.
\<close>

definition span_write :: "span \<Rightarrow> 'a list \<Rightarrow> 'a ringbuf \<Rightarrow> 'a ringbuf" where
  "span_write sp xs rb = rb\<lparr>rb_mem := overwrite (nat (sp_off sp)) xs (rb_mem rb)\<rparr>"

definition span_read :: "span \<Rightarrow> 'a ringbuf \<Rightarrow> 'a list" where
  "span_read sp rb = block (nat (sp_off sp)) (unat (sp_size sp)) (rb_mem rb)"

text \<open>A span lies inside the mapping.\<close>

definition span_inside :: "span \<Rightarrow> 'a ringbuf \<Rightarrow> bool" where
  "span_inside sp rb \<longleftrightarrow>
     0 \<le> sp_off sp \<and> sp_off sp + uint (sp_size sp) \<le> int (length (rb_mem rb))"

lemma span_insideI: "a + unat w \<le> length (rb_mem rb) \<Longrightarrow> span_inside (Span (int a) w) rb"
  by (simp add: span_inside_def uint_nat flip: of_nat_add del: of_nat_unat)

lemmas ring_ops = set_descriptor_info_def produce_def span_write_def Let_def

subsection \<open>Well-formed rings and their abstraction\<close>

text \<open>
  The code masks offsets with \<open>size - 1\<close>, so the size must be a power of two; it is computed
  from the configuration and not checked. The mirror \<open>rb_lhead\<close> agrees with the published head
  and the clobber offset is at or ahead of it by at most the ring's size: this is what the
  \<open>assert\<close>s of \<open>get_producer_span\<close> and \<open>produce\<close> test.
\<close>

definition ring_wf :: "'a ringbuf \<Rightarrow> bool" where
  "ring_wf rb \<longleftrightarrow>
     (\<exists>k<63. rb_size rb = 2 ^ k) \<and> rb_mask rb = rb_size rb - 1 \<and>
     length (rb_mem rb) = unat (rb_size rb) \<and> rb_head rb = rb_lhead rb \<and>
     rb_lhead rb \<le> rb_clob rb \<and> unat (rb_clob rb) \<le> unat (rb_lhead rb) + unat (rb_size rb)"

text \<open>
  The memory represents a history up to the index \<open>hi\<close> of the first sample never written: all
  of the history's samples that a write below \<open>hi\<close> cannot have overwritten are in their cells.
\<close>

definition ring_repr_upto :: "nat \<Rightarrow> 'a ringbuf \<Rightarrow> 'a list \<Rightarrow> bool" where
  "ring_repr_upto hi rb hist \<longleftrightarrow>
     length hist = unat (rb_head rb) \<and>
     (\<forall>i < length hist. hi \<le> i + unat (rb_size rb) \<longrightarrow>
        rb_mem rb ! (i mod unat (rb_size rb)) = hist ! i)"

definition ring_repr :: "'a ringbuf \<Rightarrow> 'a list \<Rightarrow> bool" where
  "ring_repr rb hist \<longleftrightarrow> ring_repr_upto (unat (rb_head rb)) rb hist"

subsection \<open>Spans are masked offsets inside the mapping\<close>

text \<open>The usable length of a span of \<open>n\<close> samples from absolute index \<open>i\<close> in a ring of \<open>S\<close>.\<close>

definition clip :: "nat \<Rightarrow> nat \<Rightarrow> nat \<Rightarrow> nat" where
  "clip S i n = min n (S - i mod S)"

lemma ring_wf_size:
  assumes "ring_wf rb"
  shows "0 < unat (rb_size rb)" "unat (rb_size rb) < 2 ^ 63"
    "length (rb_mem rb) = unat (rb_size rb)" "rb_head rb = rb_lhead rb"
proof -
  obtain k where k: "k < 63" "rb_size rb = 2 ^ k"
    using assms by (auto simp: ring_wf_def)
  then have "unat (rb_size rb) = 2 ^ k"
    by simp
  moreover have "(2 :: nat) ^ k < 2 ^ 63"
    using k(1) by (intro power_strict_increasing) auto
  ultimately show "0 < unat (rb_size rb)" "unat (rb_size rb) < 2 ^ 63"
    by simp_all
qed (use assms in \<open>simp_all add: ring_wf_def\<close>)

lemma ring_wf_size_le: "ring_wf rb \<Longrightarrow> unat (rb_size rb) \<le> 2 ^ 62"
proof -
  assume "ring_wf rb"
  then obtain k where k: "k < 63" "rb_size rb = 2 ^ k"
    by (auto simp: ring_wf_def)
  moreover have "(2 :: nat) ^ k \<le> 2 ^ 62"
    using k(1) by (intro power_increasing) auto
  ultimately show ?thesis by simp
qed

lemma ring_mask:
  assumes "ring_wf rb"
  shows "unat (x AND rb_mask rb) = unat x mod unat (rb_size rb)"
proof -
  obtain k where k: "k < 63" "rb_size rb = 2 ^ k" "rb_mask rb = rb_size rb - 1"
    using assms by (auto simp: ring_wf_def)
  then show ?thesis
    by (simp add: unat_and_mask_u64)
qed

lemma ring_mask_uint:
  "ring_wf rb \<Longrightarrow> uint (x AND rb_mask rb) = int (unat x mod unat (rb_size rb))"
  by (metis ring_mask uint_nat)

lemma clip_le [simp]: "clip S i n \<le> n"
  by (simp add: clip_def)

lemma clip_inside: "0 < S \<Longrightarrow> i mod S + clip S i n \<le> S"
proof -
  assume "0 < S"
  then have "i mod S < S" by simp
  then show ?thesis unfolding clip_def by linarith
qed

lemma clip_pos: "0 < S \<Longrightarrow> 0 < n \<Longrightarrow> 0 < clip S i n"
  by (simp add: clip_def)

lemma masked_sum_le:
  assumes "ring_wf rb" "unat n < 2 ^ 63"
  shows "(x AND rb_mask rb) + n \<le> rb_size rb \<longleftrightarrow>
    unat n \<le> unat (rb_size rb) - unat x mod unat (rb_size rb)"
proof -
  have lt: "unat x mod unat (rb_size rb) < unat (rb_size rb)"
    using ring_wf_size(1) [OF assms(1)] by simp
  then have "unat (x AND rb_mask rb) + unat n < 2 ^ 64"
    using ring_wf_size(2) [OF assms(1)] assms(2)
    by (simp add: ring_mask [OF assms(1)])
  then have "unat ((x AND rb_mask rb) + n) = unat x mod unat (rb_size rb) + unat n"
    by (simp add: unat_plus_u64 ring_mask [OF assms(1)])
  with lt show ?thesis
    by (simp add: word_le_nat_alt) arith
qed

lemma masked_rest:
  assumes "ring_wf rb"
  shows "rb_size rb - (x AND rb_mask rb) =
    word_of_nat (unat (rb_size rb) - unat x mod unat (rb_size rb))"
proof -
  have "unat x mod unat (rb_size rb) \<le> unat (rb_size rb)"
    using ring_wf_size(1) [OF assms] by (simp add: less_imp_le)
  then have "x AND rb_mask rb \<le> rb_size rb"
    by (simp add: word_le_nat_alt ring_mask [OF assms])
  then have "unat (rb_size rb - (x AND rb_mask rb)) =
      unat (rb_size rb) - unat x mod unat (rb_size rb)"
    by (simp add: unat_sub ring_mask [OF assms])
  then show ?thesis
    by (rule u64_of_nat)
qed

lemma get_producer_span_eq:
  assumes "ring_wf rb" "unat n < 2 ^ 63"
  shows "get_producer_span n rb =
    (let m = clip (unat (rb_size rb)) (unat (rb_lhead rb)) (unat n) in
     (Span (int (unat (rb_lhead rb) mod unat (rb_size rb))) (word_of_nat m),
      rb\<lparr>rb_clob := rb_lhead rb + word_of_nat m\<rparr>))"
  using masked_sum_le [OF assms, of "rb_lhead rb"]
  by (auto simp: get_producer_span_def clip_def Let_def masked_rest [OF assms(1)]
      ring_mask_uint [OF assms(1)] min_def)

lemma get_consumer_span_eq:
  assumes "ring_wf rb" "unat n < 2 ^ 63" "unat tail + unat n < 2 ^ 64"
  shows "get_consumer_span rb tail n =
    Span (int (unat tail mod unat (rb_size rb)))
      (if unat (rb_head rb) < unat tail + unat n then 0
       else word_of_nat (clip (unat (rb_size rb)) (unat tail) (unat n)))"
  using masked_sum_le [OF assms(1,2), of tail] assms(3)
  by (auto simp: get_consumer_span_def clip_def Let_def masked_rest [OF assms(1)]
      ring_mask_uint [OF assms(1)] min_def word_less_nat_alt unat_plus_u64)

lemma unat_clip [simp]:
  "unat (word_of_nat (clip S i (unat (n :: u64))) :: u64) = clip S i (unat n)"
proof -
  have "clip S i (unat n) < 2 ^ 64"
    using le_less_trans [OF clip_le u64_lt, of S i n] by simp
  then show ?thesis
    by (rule unat_word_of_nat_u64)
qed

subsection \<open>The producer appends to the history\<close>

text \<open>
  The cell of absolute index \<open>i\<close> is \<open>i mod S\<close>. A block of at most \<open>S\<close> samples written from
  index \<open>h\<close> inside one span replaces exactly the cells of the indices \<open>h, \<dots>, h + m - 1\<close>,
  and these collide with the history only below \<open>h + m - S\<close>.
\<close>

lemma overwrite_cells:
  assumes "0 < S" "length mem = S" "h mod S + length xs \<le> S"
    and "length hist = h" "\<And>i. i < h \<Longrightarrow> hi \<le> i + S \<Longrightarrow> mem ! (i mod S) = hist ! i"
    and "i < h + length xs" "max hi (h + length xs) \<le> i + S"
  shows "overwrite (h mod S) xs mem ! (i mod S) = (hist @ xs) ! i"
proof -
  have iS: "i mod S < length mem"
    using assms(1,2) by simp
  have fits: "h mod S + length xs \<le> length mem"
    using assms(2,3) by simp
  note cell = nth_overwrite [OF fits iS]
  show ?thesis
  proof (cases "i < h")
    case True
    have "\<not> (h mod S \<le> i mod S \<and> i mod S < h mod S + length xs)"
    proof
      assume a: "h mod S \<le> i mod S \<and> i mod S < h mod S + length xs"
      define j where "j = i mod S - h mod S"
      have j: "j < length xs" "i mod S = h mod S + j"
        using a by (simp_all add: j_def less_diff_conv2)
      have "h mod S + j < S"
        using j(1) assms(3) by linarith
      then have "(h + j) mod S = i mod S"
        using j(2) by (simp add: mod_add_lt)
      then have "i mod S = (h + j) mod S" ..
      moreover have "i \<le> h + j" "h + j < i + S"
        using True j(1) assms(7) by linarith+
      ultimately have "i = h + j"
        by (rule mod_eq_near)
      with True show False by simp
    qed
    then have "overwrite (h mod S) xs mem ! (i mod S) = mem ! (i mod S)"
      by (simp only: cell if_False)
    also have "\<dots> = hist ! i"
      using True assms(7) by (intro assms(5)) auto
    finally show ?thesis
      using True assms(4) by (simp add: nth_append)
  next
    case False
    define j where "j = i - h"
    have j: "i = h + j" "j < length xs"
      using False assms(6) by (simp_all add: j_def)
    have "i mod S = h mod S + j"
      unfolding j(1) using assms(3) j(2) by (intro mod_add_lt) linarith
    then have "overwrite (h mod S) xs mem ! (i mod S) = xs ! j"
      using j(2) cell by simp
    then show ?thesis
      using assms(4) j(1) by (simp add: nth_append)
  qed
qed

text \<open>Claim a span of \<open>n\<close> samples, write \<open>xs\<close> into it, produce \<open>length xs\<close> samples.\<close>

definition ring_append :: "u64 \<Rightarrow> 'a list \<Rightarrow> 'a ringbuf \<Rightarrow> 'a ringbuf" where
  "ring_append n xs rb =
     (let (sp, rb') = get_producer_span n rb
      in produce (word_of_nat (length xs)) (span_write sp xs rb'))"

lemma ring_append_fields:
  assumes "ring_wf rb" "unat n < 2 ^ 63"
  shows "rb_start_nsec (ring_append n xs rb) = rb_start_nsec rb"
    "rb_rate (ring_append n xs rb) = rb_rate rb"
    "rb_size (ring_append n xs rb) = rb_size rb"
    "rb_mask (ring_append n xs rb) = rb_mask rb"
    "rb_head (ring_append n xs rb) = rb_lhead rb + word_of_nat (length xs)"
    "rb_lhead (ring_append n xs rb) = rb_lhead rb + word_of_nat (length xs)"
    "rb_clob (ring_append n xs rb) = rb_lhead rb +
       word_of_nat (clip (unat (rb_size rb)) (unat (rb_lhead rb)) (unat n))"
    "rb_mem (ring_append n xs rb) =
       overwrite (unat (rb_lhead rb) mod unat (rb_size rb)) xs (rb_mem rb)"
  by (simp_all add: ring_append_def get_producer_span_eq [OF assms] ring_ops)

lemma ring_append_ok:
  assumes wf: "ring_wf rb" and repr: "ring_repr rb hist"
    and n: "unat n < 2 ^ 63" "unat (rb_lhead rb) + unat n < 2 ^ 64"
    and xs: "length xs \<le> clip (unat (rb_size rb)) (unat (rb_lhead rb)) (unat n)"
  shows "ring_wf (ring_append n xs rb)" "ring_repr (ring_append n xs rb) (hist @ xs)"
proof -
  let ?S = "unat (rb_size rb)" and ?h = "unat (rb_lhead rb)"
  let ?m = "clip ?S ?h (unat n)"
  note F = ring_append_fields [OF wf n(1), of xs]
  have m: "?m \<le> unat n" by simp
  have h': "unat (rb_lhead rb + word_of_nat (length xs)) = ?h + length xs"
    using xs m n by (intro unat_plus_nat_u64) linarith
  have c': "unat (rb_lhead rb + word_of_nat ?m) = ?h + ?m"
    using m n by (intro unat_plus_nat_u64) linarith
  have in_S: "?h mod ?S + length xs \<le> ?S"
    using clip_inside [OF ring_wf_size(1) [OF wf], of ?h "unat n"] xs by linarith
  have "?m \<le> ?S"
    using clip_inside [OF ring_wf_size(1) [OF wf], of ?h "unat n"] by linarith
  then show "ring_wf (ring_append n xs rb)"
    using wf xs in_S
    by (auto simp: ring_wf_def F h' c' word_le_nat_alt)
  have "length hist = ?h"
    and "\<And>i. i < ?h \<Longrightarrow> ?h \<le> i + ?S \<Longrightarrow> rb_mem rb ! (i mod ?S) = hist ! i"
    using repr wf by (auto simp: ring_repr_def ring_repr_upto_def ring_wf_def)
  then show "ring_repr (ring_append n xs rb) (hist @ xs)"
    using overwrite_cells [OF ring_wf_size(1) [OF wf] ring_wf_size(3) [OF wf] in_S, of hist ?h]
    by (simp add: ring_repr_def ring_repr_upto_def F h')
qed

text \<open>An empty ring represents the empty history.\<close>

lemma ring_repr_empty: "rb_head rb = 0 \<Longrightarrow> ring_repr rb []"
  by (simp add: ring_repr_def ring_repr_upto_def)

lemma ringbuf_new_ok:
  assumes "k < 63" "bytes div sz = 2 ^ k"
  shows "ring_wf (ringbuf_new bytes sz z)" "ring_repr (ringbuf_new bytes sz z) []"
proof -
  show "ring_wf (ringbuf_new bytes sz z)"
    using assms by (auto simp: ring_wf_def ringbuf_new_def Let_def)
  show "ring_repr (ringbuf_new bytes sz z) []"
    by (rule ring_repr_empty) (simp add: ringbuf_new_def Let_def)
qed

subsection \<open>A producer interleaved with lock-free consumers\<close>

text \<open>
  The producer's atomic steps, as the code orders them: \<open>get_producer_span\<close> publishes the
  clobber offset, the driver or a copy stores single samples into claimed cells, \<open>produce\<close>
  publishes the head. \<open>p_hi\<close> is the index after the last sample stored. A claim must not move the clobber offset below it:
  no store beyond the claimed samples is left unproduced when the next span is claimed. \<open>p_hist\<close>
  is the history the consumers are to see.
\<close>

record 'a pstate =
  p_ring :: "'a ringbuf"
  p_hist :: "'a list"
  p_hi :: nat

inductive pstep :: "'a pstate \<Rightarrow> 'a pstate \<Rightarrow> bool" where
  claim: "get_producer_span n (p_ring s) = (sp, rb') \<Longrightarrow>
    unat (rb_lhead (p_ring s)) + unat n < 2 ^ 63 \<Longrightarrow> p_hi s \<le> unat (rb_clob rb') \<Longrightarrow>
    pstep s (s\<lparr>p_ring := rb'\<rparr>)"
| store: "unat (rb_lhead (p_ring s)) \<le> j \<Longrightarrow> j < unat (rb_clob (p_ring s)) \<Longrightarrow>
    pstep s (s\<lparr>p_ring := (p_ring s)\<lparr>rb_mem :=
        (rb_mem (p_ring s))[j mod unat (rb_size (p_ring s)) := v]\<rparr>,
      p_hi := max (p_hi s) (Suc j)\<rparr>)"
| publish: "unat (rb_lhead (p_ring s)) + unat m \<le> unat (rb_clob (p_ring s)) \<Longrightarrow>
    pstep s (s\<lparr>p_ring := produce m (p_ring s),
      p_hist := p_hist s @ map (\<lambda>j. rb_mem (p_ring s) ! (j mod unat (rb_size (p_ring s))))
        [unat (rb_lhead (p_ring s))..<unat (rb_lhead (p_ring s)) + unat m],
      p_hi := max (p_hi s) (unat (rb_lhead (p_ring s)) + unat m)\<rparr>)"

definition pinv :: "'a pstate \<Rightarrow> bool" where
  "pinv s \<longleftrightarrow> ring_wf (p_ring s) \<and> ring_repr_upto (p_hi s) (p_ring s) (p_hist s) \<and>
     unat (rb_head (p_ring s)) \<le> p_hi s \<and> p_hi s \<le> unat (rb_clob (p_ring s)) \<and>
     unat (rb_clob (p_ring s)) < 2 ^ 63"

text \<open>What a step keeps or only grows.\<close>

definition pgrows :: "'a pstate \<Rightarrow> 'a pstate \<Rightarrow> bool" where
  "pgrows s t \<longleftrightarrow> rb_size (p_ring t) = rb_size (p_ring s) \<and> p_hi s \<le> p_hi t \<and>
     (\<exists>xs. p_hist t = p_hist s @ xs)"

lemma pgrows_refl [simp]: "pgrows s s"
  by (simp add: pgrows_def)

lemma pgrows_trans: "pgrows s t \<Longrightarrow> pgrows t u \<Longrightarrow> pgrows s u"
  by (auto simp: pgrows_def)

lemma pstep_grows: "pstep s t \<Longrightarrow> pgrows s t"
  by (induction rule: pstep.induct)
    (auto simp: pgrows_def produce_def Let_def get_producer_span_def split: if_splits)

lemma pinv_claim:
  assumes "pinv s" "get_producer_span n (p_ring s) = (sp, rb')"
    "unat (rb_lhead (p_ring s)) + unat n < 2 ^ 63" "p_hi s \<le> unat (rb_clob rb')"
  shows "pinv (s\<lparr>p_ring := rb'\<rparr>)"
proof -
  let ?rb = "p_ring s"
  let ?m = "clip (unat (rb_size ?rb)) (unat (rb_lhead ?rb)) (unat n)"
  have wf: "ring_wf ?rb" and n: "unat n < 2 ^ 63"
    using assms(1,3) by (simp_all add: pinv_def)
  have rb': "rb' = ?rb\<lparr>rb_clob := rb_lhead ?rb + word_of_nat ?m\<rparr>"
    using assms(2) get_producer_span_eq [OF wf n] by (simp add: Let_def)
  have m: "?m \<le> unat n" "?m \<le> unat (rb_size ?rb)"
    using clip_inside [OF ring_wf_size(1) [OF wf], of "unat (rb_lhead ?rb)" "unat n"] by simp_all
  have "unat (rb_lhead ?rb) + ?m < 2 ^ 63"
    using assms(3) m(1) by linarith
  then have "unat (rb_lhead ?rb + word_of_nat ?m) = unat (rb_lhead ?rb) + ?m"
    and "unat (rb_lhead ?rb) + ?m < 2 ^ 63"
    by (simp_all add: unat_plus_nat_u64)
  with assms wf m show ?thesis
    by (auto simp: pinv_def rb' ring_wf_def ring_repr_upto_def word_le_nat_alt)
qed

lemma pinv_store:
  assumes "pinv s" "unat (rb_lhead (p_ring s)) \<le> j" "j < unat (rb_clob (p_ring s))"
  shows "pinv (s\<lparr>p_ring := (p_ring s)\<lparr>rb_mem :=
        (rb_mem (p_ring s))[j mod unat (rb_size (p_ring s)) := v]\<rparr>,
      p_hi := max (p_hi s) (Suc j)\<rparr>)"
proof -
  let ?rb = "p_ring s"
  let ?S = "unat (rb_size ?rb)"
  have inv: "ring_wf ?rb" "ring_repr_upto (p_hi s) ?rb (p_hist s)" "length (p_hist s) \<le> j"
    using assms by (auto simp: pinv_def ring_repr_upto_def ring_wf_def)
  have "j mod ?S \<noteq> i mod ?S" if "i < length (p_hist s)" "Suc j \<le> i + ?S" for i
    using that inv(3) mod_eq_near [of i ?S j] by linarith
  then have "ring_repr_upto (max (p_hi s) (Suc j))
      (?rb\<lparr>rb_mem := (rb_mem ?rb)[j mod ?S := v]\<rparr>) (p_hist s)"
    using inv(2) by (auto simp: ring_repr_upto_def nth_list_update_neq)
  moreover have "ring_wf (?rb\<lparr>rb_mem := (rb_mem ?rb)[j mod ?S := v]\<rparr>)"
    using inv(1) by (simp add: ring_wf_def)
  ultimately show ?thesis
    using assms by (auto simp: pinv_def)
qed

lemma pinv_publish:
  assumes "pinv s" "unat (rb_lhead (p_ring s)) + unat m \<le> unat (rb_clob (p_ring s))"
  shows "pinv (s\<lparr>p_ring := produce m (p_ring s),
      p_hist := p_hist s @ map (\<lambda>j. rb_mem (p_ring s) ! (j mod unat (rb_size (p_ring s))))
        [unat (rb_lhead (p_ring s))..<unat (rb_lhead (p_ring s)) + unat m],
      p_hi := max (p_hi s) (unat (rb_lhead (p_ring s)) + unat m)\<rparr>)"
proof -
  let ?rb = "p_ring s"
  let ?h = "unat (rb_lhead ?rb)"
  have inv: "ring_wf ?rb" "ring_repr_upto (p_hi s) ?rb (p_hist s)" "length (p_hist s) = ?h"
    using assms by (auto simp: pinv_def ring_repr_upto_def ring_wf_def)
  have h': "unat (rb_lhead ?rb + m) = ?h + unat m"
    using assms by (intro unat_plus_u64) (auto simp: pinv_def)
  have wf: "ring_wf (produce m ?rb)"
    using inv(1) assms(2) by (auto simp: ring_wf_def produce_def Let_def h' word_le_nat_alt)
  have "ring_repr_upto (max (p_hi s) (?h + unat m)) (produce m ?rb)
      (p_hist s @ map (\<lambda>j. rb_mem ?rb ! (j mod unat (rb_size ?rb))) [?h..<?h + unat m])"
    using inv(2,3) by (auto simp: ring_repr_upto_def produce_def Let_def h' nth_append)
  with wf assms show ?thesis
    by (auto simp: pinv_def produce_def Let_def h')
qed

lemma pstep_inv: "pstep s t \<Longrightarrow> pinv s \<Longrightarrow> pinv t"
  by (induction rule: pstep.induct) (blast intro: pinv_claim pinv_store pinv_publish)+

lemma psteps_info:
  "pstep\<^sup>*\<^sup>* s t \<Longrightarrow> rb_start_nsec (p_ring t) = rb_start_nsec (p_ring s) \<and> rb_rate (p_ring t) = rb_rate (p_ring s)"
proof (induction rule: rtranclp_induct)
  case (step t u)
  from step(2) have "rb_start_nsec (p_ring u) = rb_start_nsec (p_ring t) \<and> rb_rate (p_ring u) = rb_rate (p_ring t)"
    by cases (auto simp: produce_def Let_def get_producer_span_def split: if_splits)
  with step(3) show ?case by simp
qed simp

lemma psteps_inv: "pstep\<^sup>*\<^sup>* s t \<Longrightarrow> pinv s \<Longrightarrow> pinv t \<and> pgrows s t"
  by (induction rule: rtranclp_induct) (auto intro: pstep_inv pgrows_trans pstep_grows)

subsection \<open>The ring as a sample sink\<close>

text \<open>Claim a span of at most \<open>n\<close> samples: its size; the piece is written and produced.\<close>

definition ring_claim :: "u64 \<Rightarrow> 'a ringbuf \<Rightarrow> u64" where
  "ring_claim n rb = sp_size (fst (get_producer_span n rb))"

text \<open>
  From a ring with no samples, a producer has come to one that holds \<open>hist\<close>, and nothing beyond
  it has been stored.
\<close>

definition produced :: "'a ringbuf \<Rightarrow> 'a ringbuf \<Rightarrow> 'a list \<Rightarrow> bool" where
  "produced rb0 rb hist \<longleftrightarrow> pstep\<^sup>*\<^sup>* \<lparr>p_ring = rb0, p_hist = [], p_hi = 0\<rparr>
     \<lparr>p_ring = rb, p_hist = hist, p_hi = length hist\<rparr>"

lemma produced_refl: "produced rb rb []"
  by (simp add: produced_def)

text \<open>The stores of a piece, one after the other.\<close>

lemma psteps_store:
  assumes "ring_wf rb" "unat (rb_lhead rb) = h" "h + k \<le> unat (rb_clob rb)"
    and "h mod unat (rb_size rb) + k \<le> unat (rb_size rb)" "k \<le> length xs"
  shows "pstep\<^sup>*\<^sup>* \<lparr>p_ring = rb, p_hist = hist, p_hi = h\<rparr>
    \<lparr>p_ring = rb\<lparr>rb_mem := overwrite (h mod unat (rb_size rb)) (take k xs) (rb_mem rb)\<rparr>,
      p_hist = hist, p_hi = h + k\<rparr>"
  using assms(3-5)
proof (induction k)
  case 0
  then show ?case by simp
next
  case (Suc k)
  let ?S = "unat (rb_size rb)"
  let ?s = "\<lparr>p_ring = rb\<lparr>rb_mem := overwrite (h mod ?S) (take k xs) (rb_mem rb)\<rparr>, p_hist = hist, p_hi = h + k\<rparr>"
  have "(h + k) mod ?S = h mod ?S + k"
    using Suc.prems by (intro mod_add_lt) simp
  moreover have "h mod ?S + Suc k \<le> length (rb_mem rb)"
    using Suc.prems ring_wf_size(3) [OF assms(1)] by simp
  ultimately have "(overwrite (h mod ?S) (take k xs) (rb_mem rb))[(h + k) mod ?S := xs ! k] =
      overwrite (h mod ?S) (take (Suc k) xs) (rb_mem rb)"
    using overwrite_Suc [of k xs "h mod ?S" "rb_mem rb"] Suc.prems by simp
  then have "pstep ?s \<lparr>p_ring = rb\<lparr>rb_mem := overwrite (h mod ?S) (take (Suc k) xs) (rb_mem rb)\<rparr>,
      p_hist = hist, p_hi = h + Suc k\<rparr>"
    using pstep.store [of ?s "h + k" "xs ! k"] assms(2) Suc.prems by simp
  moreover have "pstep\<^sup>*\<^sup>* \<lparr>p_ring = rb, p_hist = hist, p_hi = h\<rparr> ?s"
    by (rule Suc.IH) (use Suc.prems in simp_all)
  ultimately show ?case
    by (rule rtranclp.rtrancl_into_rtrancl [rotated])
qed

text \<open>An append is a claim, its stores and a publication.\<close>

lemma psteps_append:
  assumes wf: "ring_wf rb" and h: "length hist = unat (rb_lhead rb)"
    and n: "unat (rb_lhead rb) + unat n < 2 ^ 63"
    and xs: "length xs \<le> clip (unat (rb_size rb)) (unat (rb_lhead rb)) (unat n)"
  shows "pstep\<^sup>*\<^sup>* \<lparr>p_ring = rb, p_hist = hist, p_hi = length hist\<rparr>
    \<lparr>p_ring = ring_append n xs rb, p_hist = hist @ xs, p_hi = length (hist @ xs)\<rparr>"
proof -
  let ?S = "unat (rb_size rb)" and ?h = "unat (rb_lhead rb)"
  let ?m = "clip ?S ?h (unat n)"
  let ?s = "\<lparr>p_ring = rb, p_hist = hist, p_hi = ?h\<rparr>"
  have n63: "unat n < 2 ^ 63" using n by simp
  define rb1 where "rb1 = rb\<lparr>rb_clob := rb_lhead rb + word_of_nat ?m\<rparr>"
  define mem where "mem = overwrite (?h mod ?S) xs (rb_mem rb)"
  have span: "get_producer_span n rb = (Span (int (?h mod ?S)) (word_of_nat ?m), rb1)"
    by (simp add: get_producer_span_eq [OF wf n63] rb1_def Let_def)
  have "?m \<le> unat n" by simp
  then have "?h + ?m \<le> ?h + unat n" by simp
  also have "\<dots> < 2 ^ 64" using n by simp
  finally have clob: "unat (rb_lhead rb + word_of_nat ?m) = ?h + ?m"
    by (rule unat_plus_nat_u64)
  have in_S: "?h mod ?S + ?m \<le> ?S"
    by (rule clip_inside [OF ring_wf_size(1) [OF wf]])
  have wf1: "ring_wf rb1"
    using wf clob in_S by (auto simp: ring_wf_def rb1_def word_le_nat_alt)
  have claim: "pstep ?s \<lparr>p_ring = rb1, p_hist = hist, p_hi = ?h\<rparr>"
    using pstep.claim [of n ?s _ rb1] span n clob by (simp add: rb1_def)
  have stores: "pstep\<^sup>*\<^sup>* \<lparr>p_ring = rb1, p_hist = hist, p_hi = ?h\<rparr>
      \<lparr>p_ring = rb1\<lparr>rb_mem := mem\<rparr>, p_hist = hist, p_hi = ?h + length xs\<rparr>"
    using psteps_store [OF wf1, of ?h "length xs" xs hist] xs in_S clob by (simp add: rb1_def mem_def)
  have publish: "pstep \<lparr>p_ring = rb1\<lparr>rb_mem := mem\<rparr>, p_hist = hist, p_hi = ?h + length xs\<rparr>
      \<lparr>p_ring = ring_append n xs rb, p_hist = hist @ xs, p_hi = ?h + length xs\<rparr>"
  proof -
    let ?t = "\<lparr>p_ring = rb1\<lparr>rb_mem := mem\<rparr>, p_hist = hist, p_hi = ?h + length xs\<rparr>"
    have len: "unat (word_of_nat (length xs) :: u64) = length xs"
      using le_less_trans [OF order_trans [OF xs clip_le] n63] by (intro unat_word_of_nat_u64) simp
    have "mem ! ((?h + d) mod ?S) = xs ! d" if d: "d < length xs" for d
    proof -
      have "(?h + d) mod ?S = ?h mod ?S + d"
        using d xs in_S by (intro mod_add_lt) linarith
      then show ?thesis
        using d xs in_S ring_wf_size(3) [OF wf] by (simp add: mem_def nth_overwrite)
    qed
    then have "map (\<lambda>j. mem ! (j mod ?S)) [?h..<?h + length xs] = xs"
      by (intro nth_equalityI) simp_all
    moreover have "produce (word_of_nat (length xs)) (rb1\<lparr>rb_mem := mem\<rparr>) = ring_append n xs rb"
      by (simp add: ring_append_def span ring_ops rb1_def mem_def)
    ultimately show ?thesis
      using pstep.publish [of ?t "word_of_nat (length xs)"] len xs clob by (simp add: rb1_def)
  qed
  have "pstep\<^sup>*\<^sup>* ?s \<lparr>p_ring = ring_append n xs rb, p_hist = hist @ xs, p_hi = ?h + length xs\<rparr>"
    by (rule rtranclp.rtrancl_into_rtrancl
        [OF converse_rtranclp_into_rtranclp [of pstep, OF claim stores] publish])
  then show ?thesis
    by (simp only: h length_append)
qed

text \<open>The same ring, but for its contents.\<close>

definition same_ring :: "'a ringbuf \<Rightarrow> 'a ringbuf \<Rightarrow> bool" where
  "same_ring rb rb' \<longleftrightarrow> rb_start_nsec rb' = rb_start_nsec rb \<and> rb_rate rb' = rb_rate rb \<and>
     rb_size rb' = rb_size rb \<and> rb_mask rb' = rb_mask rb"

lemma same_ring_refl [simp]: "same_ring rb rb"
  by (simp add: same_ring_def)

lemma same_ring_trans: "same_ring a b \<Longrightarrow> same_ring b c \<Longrightarrow> same_ring a c"
  by (simp add: same_ring_def)

definition ring_holds :: "'a ringbuf \<Rightarrow> 'a ringbuf \<Rightarrow> 'a list \<Rightarrow> bool" where
  "ring_holds rb0 rb hist \<longleftrightarrow> ring_wf rb \<and> ring_repr rb hist \<and> same_ring rb0 rb \<and> produced rb0 rb hist"

lemma ring_claim_unat:
  assumes "ring_wf rb" "unat n < 2 ^ 62"
  shows "unat (ring_claim n rb) = clip (unat (rb_size rb)) (unat (rb_lhead rb)) (unat n)"
proof -
  have "unat n < 2 ^ 63" using assms(2) by simp
  then show ?thesis
    by (simp add: ring_claim_def get_producer_span_eq [OF assms(1)] Let_def)
qed

lemma ring_holds_head:
  "ring_holds rb0 rb hist \<Longrightarrow> unat (rb_head rb) = length hist \<and> unat (rb_lhead rb) = length hist"
  by (simp add: ring_holds_def ring_repr_def ring_repr_upto_def ring_wf_def)

lemma ring_append_holds:
  assumes "ring_holds rb0 rb h" "unat n < 2 ^ 62" "length h + unat n < 2 ^ 63"
    and "length xs \<le> unat (ring_claim n rb)"
  shows "ring_holds rb0 (ring_append n xs rb) (h @ xs)"
proof -
  have wf: "ring_wf rb" and n': "unat n < 2 ^ 63"
    and r: "ring_repr rb h" "same_ring rb0 rb" "produced rb0 rb h"
    using assms by (simp_all add: ring_holds_def)
  have head: "length h = unat (rb_lhead rb)"
    using ring_holds_head [OF assms(1)] by simp
  have xs: "length xs \<le> clip (unat (rb_size rb)) (unat (rb_lhead rb)) (unat n)"
    using assms(4) by (simp add: ring_claim_unat [OF wf assms(2)])
  have "produced rb0 (ring_append n xs rb) (h @ xs)"
    unfolding produced_def
    by (rule rtranclp_trans [OF r(3) [unfolded produced_def] psteps_append [OF wf head _ xs]])
      (use assms(3) head in simp)
  moreover have "unat (rb_lhead rb) + unat n < 2 ^ 64"
    using head assms(3) by simp
  ultimately show ?thesis
    using ring_append_ok [OF wf r(1) n' _ xs] r
    by (simp add: ring_holds_def same_ring_def ring_append_fields [OF wf n'])
qed

text \<open>A claim on its own keeps the contents.\<close>

lemma ring_claim_holds:
  assumes "ring_holds rb0 rb h" "unat n < 2 ^ 62" "length h + unat n < 2 ^ 63"
  shows "ring_holds rb0 (snd (get_producer_span n rb)) h"
proof -
  have "rb_head rb = rb_lhead rb"
    using assms(1) by (simp add: ring_holds_def ring_wf_def)
  then have "ring_append n [] rb = snd (get_producer_span n rb)"
    by (simp add: ring_append_def ring_ops get_producer_span_def)
  with ring_append_holds [OF assms, of "[]"] show ?thesis by simp
qed

interpretation ring_sink: sample_sink "ring_holds rb0" ring_claim ring_append for rb0 :: "'a ringbuf"
proof unfold_locales
  fix rb :: "'a ringbuf" and h xs :: "'a list" and n :: u64
  assume h: "ring_holds rb0 rb h" and n: "unat n < 2 ^ 62"
  then have wf: "ring_wf rb"
    by (simp add: ring_holds_def)
  note claim = ring_claim_unat [OF wf n]
  show "0 < ring_claim n rb" if "0 < n"
    using that clip_pos [OF ring_wf_size(1) [OF wf], of "unat n" "unat (rb_lhead rb)"]
    by (simp add: word_less_nat_alt claim)
  show "ring_claim n rb \<le> n"
    by (simp add: word_le_nat_alt claim)
  show "ring_holds rb0 (ring_append n xs rb) (h @ xs)"
    if "length h + unat n < 2 ^ 63" "length xs = unat (ring_claim n rb)"
    using h n that by (simp add: ring_append_holds)
qed

subsection \<open>Lock-free consumers\<close>

text \<open>
  The consumer of \<^verbatim>\<open>src/wr.cpp\<close>: it obtains a span, reads its cells one after the other while the
  producer runs on, and then asks for the clobber distance. \<open>rd i\<close> is the state in which it
  reads cell \<open>i\<close>.
\<close>

lemma get_clobber_distance_nonneg:
  assumes "unat tail < 2 ^ 62" "ring_wf rb" "unat (rb_clob rb) < 2 ^ 63"
  shows "0 \<le> get_clobber_distance rb tail \<longleftrightarrow> unat (rb_clob rb) \<le> unat tail + unat (rb_size rb)"
proof -
  have sum: "unat (tail + rb_size rb) = unat tail + unat (rb_size rb)"
    using assms(1) ring_wf_size(2) [OF assms(2)] by (intro unat_plus_u64) simp
  show ?thesis
  proof (cases "rb_clob rb \<le> tail + rb_size rb")
    case True
    then have "unat (tail + rb_size rb - rb_clob rb) =
        unat tail + unat (rb_size rb) - unat (rb_clob rb)"
      by (simp add: unat_sub sum)
    with True show ?thesis
      using assms(1) sum ring_wf_size_le [OF assms(2)]
      by (simp add: get_clobber_distance_def word_le_nat_alt sint_u64 del: of_nat_unat)
  next
    case False
    then have "unat (tail + rb_size rb) < unat (rb_clob rb)"
      by (simp add: word_le_nat_alt)
    then have "unat (tail + rb_size rb - rb_clob rb) =
        2 ^ 64 + unat (tail + rb_size rb) - unat (rb_clob rb)"
      by (simp add: unat_sub_if')
    with False show ?thesis
      using assms(3) sum
      by (simp add: get_clobber_distance_def word_le_nat_alt sint_u64 del: of_nat_unat)
  qed
qed

lemma consumer_read_cell:
  assumes "pinv s" "i < length (p_hist s)" "p_hi s \<le> i + unat (rb_size (p_ring s))"
  shows "rb_mem (p_ring s) ! (i mod unat (rb_size (p_ring s))) = p_hist s ! i"
  using assms by (auto simp: pinv_def ring_repr_upto_def)

lemma consumer_validated_cells:
  assumes inv: "pinv s0" and sp: "get_consumer_span (p_ring s0) tail n = sp"
    and small: "unat n < 2 ^ 62" "unat tail < 2 ^ 62"
    and rd: "\<And>i. i < unat (sp_size sp) \<Longrightarrow> pstep\<^sup>*\<^sup>* s0 (rd i) \<and> pstep\<^sup>*\<^sup>* (rd i) sf"
    and sf: "pinv sf" and ok: "0 \<le> get_clobber_distance (p_ring sf) tail"
    and i: "i < unat (sp_size sp)"
  shows "rb_mem (p_ring (rd i)) ! (nat (sp_off sp) + i) = p_hist sf ! (unat tail + i) \<and>
    unat tail + i < length (p_hist sf)"
proof -
  let ?S = "unat (rb_size (p_ring s0))" and ?t = "unat tail"
  have wf: "ring_wf (p_ring s0)" using inv by (simp add: pinv_def)
  have n: "unat n < 2 ^ 63" "?t + unat n < 2 ^ 64" using small by simp_all
  note eq = get_consumer_span_eq [OF wf n]
  have "\<not> unat (rb_head (p_ring s0)) < ?t + unat n"
    using i unfolding sp [symmetric] eq by (auto split: if_splits)
  then have sp': "sp = Span (int (?t mod ?S)) (word_of_nat (clip ?S ?t (unat n)))"
    and len: "?t + unat n \<le> length (p_hist s0)"
    using eq sp inv by (auto simp: pinv_def ring_repr_upto_def)
  have ic: "i < clip ?S ?t (unat n)"
    using i by (simp add: sp')
  have "?t mod ?S + i < ?S"
    using ic clip_inside [OF ring_wf_size(1) [OF wf], of ?t "unat n"] by linarith
  then have cell: "(?t + i) mod ?S = nat (sp_off sp) + i"
    by (simp add: sp' mod_add_lt)
  have ti: "?t + i < length (p_hist s0)"
    using len ic clip_le [of ?S ?t "unat n"] by linarith
  from rd [OF i] inv have r: "pinv (rd i)" "pgrows s0 (rd i)" "pgrows (rd i) sf"
    using psteps_inv by blast+
  have "unat (rb_clob (p_ring sf)) \<le> ?t + unat (rb_size (p_ring sf))"
    using ok sf get_clobber_distance_nonneg [OF small(2), of "p_ring sf"] by (simp add: pinv_def)
  then have "p_hi (rd i) \<le> ?t + i + ?S"
    using r sf by (auto simp: pinv_def pgrows_def)
  then have "rb_mem (p_ring (rd i)) ! ((?t + i) mod ?S) = p_hist (rd i) ! (?t + i)"
    using consumer_read_cell [OF r(1), of "?t + i"] r(2) ti by (auto simp: pgrows_def)
  with cell ti r show ?thesis
    by (auto simp: pgrows_def nth_append)
qed

subsection \<open>Time stamps and sample offsets\<close>

text \<open>
  \<open>get_tail\<close> multiplies nanoseconds by \<open>1e-9\<close> and by the sample rate in doubles. Up to
  \<open>2 ^ 49\<close> samples the four roundings stay below half a sample, so a whole number of seconds
  after the start of the ring is converted exactly.
\<close>

lemma tail_rounding:
  assumes "0 < s" "0 < R" "s * R \<le> 2 ^ 49" "R < 2 ^ 53" "s * 1000000000 < 2 ^ 64"
  shows "to_u64 (dround (dmul (dmul (of_u64 (word_of_nat (s * 1000000000)))
      (mkd (1 / 1000000000))) (Fin (of_nat R)))) = Some (word_of_nat (s * R))"
proof -
  let ?K = "of_nat (s * 1000000000) :: rat"
  define p where "p = (of_nat (s * R) :: rat)"
  define y where "y = rnd ?K * rnd (1 / 1000000000)"
  define t where "t = rnd (rnd y * of_nat R)"
  have p: "1 \<le> p" "p \<le> 2 ^ 49"
    using of_nat_mono [OF assms(3), where ?'a = rat] of_nat_mono [of 1 "s * R", where ?'a = rat]
      assms(1,2) by (simp_all add: p_def)
  have K: "1 \<le> ?K" "?K \<le> 2 ^ 64"
    using assms(1) of_nat_mono [OF less_imp_le [OF assms(5)], where ?'a = rat] by simp_all
  have R: "1 \<le> (of_nat R :: rat)" "(of_nat R :: rat) \<le> 2 ^ 53"
    using assms(2) of_nat_mono [OF less_imp_le [OF assms(4)], where ?'a = rat] by simp_all
  have "?K / 1000000000 * of_nat R = p"
    by (simp add: p_def)
  then have err: "\<bar>t - p\<bar> \<le> p * (5 * ulp1)"
    using product_chain [OF K(1) R(1)] by (simp only: t_def y_def)
  have "p * (5 * ulp1) \<le> 2 ^ 49 * (5 * ulp1)"
    using p(2) by (intro mult_right_mono) (auto simp: ulp1_def)
  also have "\<dots> = 5 / 16"
    by (simp add: ulp1_def)
  finally have near: "\<bar>t - p\<bar> \<le> 5 / 16"
    using err by linarith
  have "\<lfloor>t + 1 / 2\<rfloor> = int (s * R)"
  proof (rule floor_unique)
    show "of_int (int (s * R)) \<le> t + 1 / 2" "t + 1 / 2 < of_int (int (s * R)) + 1"
      using near by (simp_all only: of_int_of_nat_eq p_def [symmetric])
  qed
  moreover have "0 \<le> t"
    using near p(1) by linarith
  ultimately have res: "dround (Fin t) = Fin (of_nat (s * R))"
    by simp
  have m1: "mkd ?K = Fin (rnd ?K)" "?K / 2 \<le> rnd ?K" "rnd ?K \<le> 2 * ?K"
    using K by (intro mkd_moderate; simp)+
  have m2: "mkd (1 / 1000000000) = Fin (rnd (1 / 1000000000))"
    "1 / 2000000000 \<le> rnd (1 / 1000000000)" "rnd (1 / 1000000000) \<le> 2 / 1000000000"
    using mkd_moderate [of "1 / 1000000000"] by simp_all
  have k: "1 / 2 \<le> rnd ?K" "rnd ?K \<le> 2 * 2 ^ 64"
    using m1(2,3) K by linarith+
  then have "1 / 2 * (1 / 2000000000) \<le> y" "y \<le> 2 * 2 ^ 64 * (2 / 1000000000)"
    unfolding y_def using m2(2,3) by (intro mult_mono; linarith)+
  then have y: "1 / 4000000000 \<le> y" "y \<le> 2 ^ 66"
    by simp_all
  then have m3: "mkd y = Fin (rnd y)" "y / 2 \<le> rnd y" "rnd y \<le> 2 * y"
    by (intro mkd_moderate; simp)+
  then have "1 / 8000000000 \<le> rnd y" "rnd y \<le> 2 * 2 ^ 66"
    using y by linarith+
  then have "1 / 8000000000 * 1 \<le> rnd y * of_nat R" "rnd y * of_nat R \<le> 2 * 2 ^ 66 * 2 ^ 53"
    using R by (intro mult_mono; linarith)+
  then have m4: "mkd (rnd y * of_nat R) = Fin t"
    unfolding t_def by (intro mkd_moderate) simp_all
  have "s * R < 2 ^ 64"
    using assms(3) by simp
  then have "to_u64 (dround (Fin t)) = Some (word_of_nat (s * R))"
    unfolding res by (rule to_u64_nat)
  moreover have "of_u64 (word_of_nat (s * 1000000000)) = mkd ?K"
    by (simp only: of_u64_def unat_word_of_nat_u64 [OF assms(5)])
  ultimately show ?thesis
    by (simp only: m1(1) m2(1) dmul.simps(1) y_def [symmetric] m3(1) m4)
qed

subsection \<open>Reading the history back\<close>

lemma ring_block:
  assumes "ring_wf rb" "ring_repr rb hist"
    and "i mod unat (rb_size rb) + n \<le> unat (rb_size rb)"
    and "i + n \<le> length hist" "length hist \<le> i + unat (rb_size rb)"
  shows "block (i mod unat (rb_size rb)) n (rb_mem rb) = block i n hist"
proof (rule block_eqI)
  show "i mod unat (rb_size rb) + n \<le> length (rb_mem rb)" "length (block i n hist) = n"
    using assms(1,3,4) by (simp_all add: ring_wf_def)
next
  fix j assume j: "j < n"
  have cell: "(i + j) mod unat (rb_size rb) = i mod unat (rb_size rb) + j"
    using assms(3) j by (intro mod_add_lt) linarith
  have "rb_mem rb ! ((i + j) mod unat (rb_size rb)) = hist ! (i + j)"
    using assms(2,4,5) j by (auto simp: ring_repr_def ring_repr_upto_def)
  then show "block i n hist ! j = rb_mem rb ! (i mod unat (rb_size rb) + j)"
    using j assms(4) by (simp add: nth_block cell)
qed

lemma ring_repr_length: "ring_repr rb hist \<Longrightarrow> length hist = unat (rb_head rb)"
  by (simp add: ring_repr_def ring_repr_upto_def)

lemma aligned_samples_cases:
  assumes wf: "ring_wf rb" and len: "length hist = unat (rb_head rb)"
    and n: "0 < unat n" "unat n \<le> length hist" "3 * unat n \<le> unat (rb_size rb)"
  obtains e where
    "get_aligned_samples rb n = Inr (Span (int ((e - unat n) mod unat (rb_size rb))) n)"
    "unat n dvd e" "unat n \<le> e" "e \<le> length hist" "length hist < e + 2 * unat n"
    "(e - unat n) mod unat (rb_size rb) + unat n \<le> unat (rb_size rb)"
proof -
  let ?S = "unat (rb_size rb)" and ?n = "unat n" and ?h = "unat (rb_head rb)"
  define h where "h = ?n * (?h div ?n)"
  have nz: "n \<noteq> 0" using n(1) by auto
  have split: "?h = h + ?h mod ?n" "?h mod ?n < ?n"
    using n(1) by (simp_all add: h_def)
  have "0 < ?h div ?n"
    using n(1,2) len by (simp add: div_greater_zero_iff)
  then have le: "?n \<le> h" by (simp add: h_def)
  define hw where "hw = rb_head rb - rb_head rb mod n"
  have hw: "unat hw = h"
  proof -
    have "rb_head rb mod n \<le> rb_head rb"
      by (simp add: word_le_nat_alt unat_mod)
    then have "unat hw = ?h - ?h mod ?n"
      by (simp add: hw_def unat_sub unat_mod)
    with split show ?thesis by linarith
  qed
  have eq: "get_aligned_samples rb n =
     (if n \<le> (hw AND rb_mask rb) then Inr (Span (uint (hw AND rb_mask rb) - uint n) n)
      else Inr (Span (uint ((hw - n) AND rb_mask rb) - uint n) n))"
    using nz by (simp add: get_aligned_samples_def Let_def hw_def)
  note S = ring_wf_size(1) [OF wf]
  have dv: "?n dvd h" by (simp add: h_def)
  show thesis
  proof (cases "?n \<le> h mod ?S")
    case True
    then have "get_aligned_samples rb n = Inr (Span (int (h mod ?S) - int ?n) n)"
      by (simp add: eq word_le_nat_alt ring_mask [OF wf] ring_mask_uint [OF wf] hw)
    then have "get_aligned_samples rb n = Inr (Span (int ((h - ?n) mod ?S)) n)"
      using True by (simp add: mod_sub_low of_nat_diff)
    moreover have "(h - ?n) mod ?S + ?n \<le> ?S"
      using True S mod_less_divisor [OF S, of h] by (simp add: mod_sub_low)
    ultimately show thesis
      using dv le split len by (intro that) auto
  next
    case False
    then have r: "h mod ?S < ?n" by simp
    have "?S \<le> h"
      using r le by (metis mod_less not_less)
    then have big: "3 * ?n \<le> h" using n(3) by linarith
    have hn: "unat (hw - n) = h - ?n"
      using le hw by (simp add: unat_sub word_le_nat_alt)
    have "get_aligned_samples rb n = Inr (Span (int ((h - ?n) mod ?S) - int ?n) n)"
      using False by (simp add: eq word_le_nat_alt ring_mask [OF wf] ring_mask_uint [OF wf] hw hn)
    moreover have "(h - ?n) mod ?S = ?S + h mod ?S - ?n" "(h - ?n - ?n) mod ?S = ?S + h mod ?S - 2 * ?n"
      using mod_sub_high [of h ?S ?n] mod_sub_high [of h ?S "2 * ?n"] r n(3) big
      by (simp_all add: mult_2)
    ultimately have "get_aligned_samples rb n = Inr (Span (int ((h - ?n - ?n) mod ?S)) n)"
      and "(h - ?n - ?n) mod ?S + ?n \<le> ?S"
      using n(3) r by (simp_all add: of_nat_diff)
    then show thesis
      using dv big split len by (intro that [of "h - ?n"]) (auto intro: dvd_diff_nat)
  qed
qed

subsection \<open>Properties of the ring\<close>

text \<open>
  C14. Producing through a span refines appending to the history: claim a span, write up to its
  size, produce what was written; the ring stays well-formed (the asserts of the code hold), the
  span lies inside the mapping, and the memory holds the extended history.
\<close>

theorem producer_appends:
  assumes "ring_wf rb" "ring_repr rb hist" "get_producer_span n rb = (sp, rb1)"
    and "unat n < 2 ^ 63" "unat (rb_lhead rb) + unat n < 2 ^ 64"
    and "length xs \<le> unat (sp_size sp)"
    and "rb2 = produce (word_of_nat (length xs)) (span_write sp xs rb1)"
  shows "ring_wf rb2 \<and> ring_repr rb2 (hist @ xs) \<and> span_inside sp rb1 \<and> ring_wf rb1 \<and>
    (n \<noteq> 0 \<longrightarrow> sp_size sp \<noteq> 0) \<and> sp_size sp \<le> n"
proof -
  let ?S = "unat (rb_size rb)" and ?h = "unat (rb_lhead rb)"
  let ?m = "clip ?S ?h (unat n)"
  have sp: "sp = Span (int (?h mod ?S)) (word_of_nat ?m)"
    and rb1: "rb1 = rb\<lparr>rb_clob := rb_lhead rb + word_of_nat ?m\<rparr>"
    using assms(3) get_producer_span_eq [OF assms(1,4)] by (simp_all add: Let_def)
  have xs: "length xs \<le> ?m"
    using assms(6) by (simp add: sp)
  have "rb2 = ring_append n xs rb"
    using assms(3,7) by (simp add: ring_append_def)
  then have "ring_wf rb2" "ring_repr rb2 (hist @ xs)"
    using ring_append_ok [OF assms(1,2,4,5) xs] by simp_all
  moreover have m: "?h mod ?S + ?m \<le> ?S"
    by (rule clip_inside [OF ring_wf_size(1) [OF assms(1)]])
  then have "span_inside sp rb1"
    unfolding sp rb1 using ring_wf_size(3) [OF assms(1)] by (intro span_insideI) simp
  moreover have "unat (rb_lhead rb + word_of_nat ?m) = ?h + ?m"
    using le_less_trans [OF add_left_mono [OF clip_le] assms(5), of ?S ?h]
    by (rule unat_plus_nat_u64)
  then have "ring_wf rb1"
    using assms(1) m by (auto simp: ring_wf_def rb1 word_le_nat_alt)
  moreover have "sp_size sp \<noteq> 0" if "n \<noteq> 0"
  proof
    assume "sp_size sp = 0"
    then have "?m = 0"
      using unat_clip [of ?S ?h n] by (simp add: sp del: unat_clip)
    with clip_pos [OF ring_wf_size(1) [OF assms(1)], of "unat n" ?h] that show False
      by (simp add: unat_gt_0)
  qed
  moreover have "sp_size sp \<le> n"
    by (simp add: sp word_le_nat_alt)
  ultimately show ?thesis by blast
qed

text \<open>
  What a consumer gets in a quiescent ring: the span is empty exactly when the request is not
  fully produced; otherwise it starts at the tail, is clipped at the end of the mapping, is not
  empty, and, if the request is still within the last \<open>rb_size\<close> samples, holds the samples of
  the history from the tail on.
\<close>

theorem consumer_span_history:
  assumes "ring_wf rb" "ring_repr rb hist" "unat n < 2 ^ 63" "unat tail + unat n < 2 ^ 64" "n \<noteq> 0"
    and "sp = get_consumer_span rb tail n"
  shows "(sp_size sp = 0 \<longleftrightarrow> length hist < unat tail + unat n) \<and> span_inside sp rb \<and>
    (sp_size sp \<noteq> 0 \<longrightarrow> length hist \<le> unat tail + unat (rb_size rb) \<longrightarrow>
      span_read sp rb = block (unat tail) (unat (sp_size sp)) hist)"
proof -
  let ?S = "unat (rb_size rb)" and ?t = "unat tail"
  let ?m = "clip ?S ?t (unat n)"
  note S = ring_wf_size(1) [OF assms(1)]
  note len = ring_repr_length [OF assms(2)]
  have sp: "sp = Span (int (?t mod ?S)) (if length hist < ?t + unat n then 0 else word_of_nat ?m)"
    using get_consumer_span_eq [OF assms(1,3,4)] assms(6) by (simp add: len)
  have m: "?t mod ?S + ?m \<le> ?S" by (rule clip_inside [OF S])
  have u: "unat (word_of_nat ?m :: u64) = ?m" by simp
  have "0 < ?m"
    using clip_pos [OF S, of "unat n" ?t] assms(5) by (simp add: unat_gt_0)
  then have "(word_of_nat ?m :: u64) \<noteq> 0"
    by (metis u unat_0 less_irrefl)
  moreover have "span_inside sp rb"
    unfolding sp using m ring_wf_size(3) [OF assms(1)] by (intro span_insideI) simp
  moreover have "span_read sp rb = block ?t ?m hist"
    if "\<not> length hist < ?t + unat n" "length hist \<le> ?t + ?S"
    using ring_block [OF assms(1,2) m] that clip_le [of ?S ?t "unat n"]
    by (simp add: span_read_def sp)
  ultimately show ?thesis
    by (auto simp: sp)
qed

text \<open>
  C7. Lock-free reading is validated by the clobber distance: while the producer claims, stores
  and produces, a consumer reads the cells of its span at different times; if the clobber
  distance it asks for afterwards is not negative, what it read is the history from its tail on,
  whatever the interleaving.
\<close>

theorem consumer_validated_read:
  assumes "pinv s0" "sp = get_consumer_span (p_ring s0) tail n"
    and "unat n < 2 ^ 62" "unat tail < 2 ^ 62" "pstep\<^sup>*\<^sup>* s0 sf"
    and "\<forall>i < unat (sp_size sp). pstep\<^sup>*\<^sup>* s0 (rd i) \<and> pstep\<^sup>*\<^sup>* (rd i) sf"
    and "0 \<le> get_clobber_distance (p_ring sf) tail"
  shows "map (\<lambda>i. rb_mem (p_ring (rd i)) ! (nat (sp_off sp) + i)) [0..<unat (sp_size sp)] =
    block (unat tail) (unat (sp_size sp)) (p_hist sf)"
proof -
  have sf: "pinv sf" using psteps_inv [OF assms(5,1)] by simp
  have cells: "rb_mem (p_ring (rd i)) ! (nat (sp_off sp) + i) = p_hist sf ! (unat tail + i) \<and>
      unat tail + i < length (p_hist sf)" if "i < unat (sp_size sp)" for i
    using consumer_validated_cells [OF assms(1) assms(2) [symmetric] assms(3,4) _ sf assms(7) that]
      assms(6) by blast
  show ?thesis
  proof (cases "unat (sp_size sp) = 0")
    case True
    then show ?thesis by (simp add: block_def)
  next
    case False
    then have "unat tail + unat (sp_size sp) \<le> length (p_hist sf)"
      using cells [of "unat (sp_size sp) - 1"] by simp linarith
    then show ?thesis
      using cells by (intro block_eqI [symmetric]) auto
  qed
qed

text \<open>
  The tail of a recording that starts a whole number of seconds after the ring is exactly
  that many seconds times the sample rate, in spite of the floating point, for up to \<open>2 ^ 49\<close>
  samples; it is handed out only if it is ahead of everything the producer has claimed.
\<close>

theorem get_tail_whole_seconds:
  assumes "0 < R" "R < 2 ^ 53" "s * R \<le> 2 ^ 49" "rb_rate rb = Fin (of_nat R)"
    and "unat (rb_start_nsec rb) + s * 1000000000 < 2 ^ 64"
  shows "get_tail rb (rb_start_nsec rb + word_of_nat (s * 1000000000)) =
    (if s * R \<le> unat (rb_clob rb) then Inl (Generic_error ''requested tail already clobbered'')
     else Inr (word_of_nat (s * R)))"
proof -
  let ?n = "rb_start_nsec rb + word_of_nat (s * 1000000000)"
  have "unat ?n = unat (rb_start_nsec rb) + s * 1000000000"
    by (rule unat_plus_nat_u64 [OF assms(5)])
  then have "\<not> ?n < rb_start_nsec rb"
    by (simp add: word_less_nat_alt)
  moreover have "to_u64 (dround (dmul (dmul (of_u64 (?n - rb_start_nsec rb))
      (mkd (1 / 1000000000))) (rb_rate rb))) = Some (word_of_nat (s * R))"
  proof (cases "s = 0")
    case True
    have "mkd 0 = Fin 0" "\<lfloor>1 / 2 :: rat\<rfloor> = 0"
      by (simp add: mkd_def not_le, rule floor_unique, simp_all)
    with True show ?thesis
      using mkd_moderate(1) [of "1 / 1000000000"] by (simp add: assms(4) of_u64_def)
  next
    case False
    with tail_rounding [of s R] assms show ?thesis by simp
  qed
  moreover have "(word_of_nat (s * R) :: u64) \<le> rb_clob rb \<longleftrightarrow> s * R \<le> unat (rb_clob rb)"
    using assms(3) by (simp only: word_le_nat_alt) (subst unat_word_of_nat_u64, simp_all)
  ultimately show ?thesis
    by (simp add: get_tail_def)
qed

text \<open>
  C20. The block published over MQTT: once one block has been produced and as long as three
  blocks fit into the ring, \<open>get_aligned_samples\<close> returns a span inside the mapping that holds
  a block of the history, aligned to a multiple of the block size and at most two blocks old.
\<close>

theorem aligned_samples_history:
  assumes "ring_wf rb" "ring_repr rb hist"
    and "0 < unat n" "unat n \<le> length hist" "3 * unat n \<le> unat (rb_size rb)"
  shows "\<exists>sp e. get_aligned_samples rb n = Inr sp \<and> span_inside sp rb \<and> unat n dvd e \<and>
    unat n \<le> e \<and> e \<le> length hist \<and> length hist < e + 2 * unat n \<and>
    span_read sp rb = block (e - unat n) (unat n) hist"
proof -
  from aligned_samples_cases [OF assms(1) ring_repr_length [OF assms(2)] assms(3-5)]
  obtain e where e: "get_aligned_samples rb n =
      Inr (Span (int ((e - unat n) mod unat (rb_size rb))) n)"
    "unat n dvd e" "unat n \<le> e" "e \<le> length hist" "length hist < e + 2 * unat n"
    "(e - unat n) mod unat (rb_size rb) + unat n \<le> unat (rb_size rb)"
    by blast
  let ?sp = "Span (int ((e - unat n) mod unat (rb_size rb))) n"
  have "span_inside ?sp rb"
    using e(6) ring_wf_size(3) [OF assms(1)] by (intro span_insideI) simp
  moreover have "span_read ?sp rb = block (e - unat n) (unat n) hist"
    using ring_block [OF assms(1,2) e(6)] e(3-5) assms(5) by (simp add: span_read_def)
  ultimately show ?thesis
    using e by blast
qed

text \<open>
  The guard is missing for large blocks: asked for as many samples as the ring holds,
  \<open>get_aligned_samples\<close> returns a span that starts before the mapping, in every state.
\<close>

theorem aligned_samples_out_of_bounds:
  assumes "ring_wf rb"
  shows "\<exists>sp. get_aligned_samples rb (rb_size rb) = Inr sp \<and> \<not> span_inside sp rb"
proof -
  let ?S = "unat (rb_size rb)" and ?x = "rb_head rb - rb_head rb mod rb_size rb"
  note S = ring_wf_size(1) [OF assms]
  have small: "unat (y AND rb_mask rb) < ?S" for y
    by (simp add: ring_mask [OF assms] S)
  have "rb_size rb \<noteq> 0" using S by auto
  moreover have "\<not> rb_size rb \<le> (?x AND rb_mask rb)"
    using small [of ?x] by (simp add: word_le_nat_alt)
  ultimately have "get_aligned_samples rb (rb_size rb) =
      Inr (Span (uint ((?x - rb_size rb) AND rb_mask rb) - uint (rb_size rb)) (rb_size rb))"
    by (simp add: get_aligned_samples_def Let_def)
  moreover have "uint ((?x - rb_size rb) AND rb_mask rb) < uint (rb_size rb)"
    using small [of "?x - rb_size rb"] by (simp add: word_less_nat_alt flip: word_less_def)
  ultimately show ?thesis
    by (simp add: span_inside_def)
qed

subsection \<open>Concrete rings\<close>

text \<open>A ring of four samples after five: sample 10 has been overwritten by sample 14.\<close>

definition demo_ring :: "nat ringbuf" where
  "demo_ring = \<lparr>rb_start_nsec = 7000000000, rb_rate = Fin 100, rb_head = 5, rb_clob = 5,
     rb_mem = [14, 11, 12, 13], rb_lhead = 5, rb_size = 4, rb_mask = 3\<rparr>"

definition demo_hist :: "nat list" where
  "demo_hist = [10, 11, 12, 13, 14]"

lemma demo_wf: "ring_wf demo_ring"
  unfolding ring_wf_def by (intro conjI exI [of _ 2]) (simp_all add: demo_ring_def)

lemma demo_repr: "ring_repr demo_ring demo_hist"
  by (simp add: ring_repr_def ring_repr_upto_def demo_ring_def demo_hist_def All_less_Suc)

definition demo_prod :: "nat pstate" where
  "demo_prod = \<lparr>p_ring = demo_ring, p_hist = demo_hist, p_hi = 5\<rparr>"

definition demo_prod' :: "nat pstate" where
  "demo_prod' = demo_prod\<lparr>p_ring := demo_ring\<lparr>rb_clob := 6\<rparr>\<rparr>"

lemma demo_pinv: "pinv demo_prod"
  using demo_wf demo_repr
  by (simp add: pinv_def demo_prod_def ring_repr_def) (simp add: demo_ring_def)

lemma demo_pstep: "pstep demo_prod demo_prod'"
  unfolding demo_prod'_def
  using pstep.claim [of 1 demo_prod "Span 1 1" "demo_ring\<lparr>rb_clob := 6\<rparr>"]
  by (simp add: demo_prod_def) (simp add: demo_ring_def get_producer_span_def)

theorem producer_appends_witness:
  "ring_repr (produce 2 (span_write (Span 1 2) [15, 16] (demo_ring\<lparr>rb_clob := 7\<rparr>)))
    [10, 11, 12, 13, 14, 15, 16]"
  using producer_appends [OF demo_wf demo_repr, of 2 "Span 1 2" "demo_ring\<lparr>rb_clob := 7\<rparr>" "[15, 16]"]
  by (simp add: get_producer_span_def demo_ring_def demo_hist_def)

theorem consumer_span_history_witness:
  "span_read (get_consumer_span demo_ring 2 2) demo_ring = [12, 13]"
  using consumer_span_history [OF demo_wf demo_repr, of 2 2]
  by (simp add: get_consumer_span_def span_read_def demo_ring_def demo_hist_def block_def)

theorem consumer_validated_read_witness:
  "map (\<lambda>i. rb_mem (p_ring (if i = 0 then demo_prod else demo_prod')) ! (2 + i)) [0..<2] = [12, 13]"
proof -
  have sp: "get_consumer_span (p_ring demo_prod) 2 2 = Span 2 2"
    by (simp add: get_consumer_span_def demo_prod_def demo_ring_def)
  have "0 \<le> get_clobber_distance (p_ring demo_prod') 2"
    by (simp add: get_clobber_distance_def demo_prod'_def demo_ring_def)
  moreover have "pstep\<^sup>*\<^sup>* demo_prod demo_prod'"
    using demo_pstep by blast
  ultimately show ?thesis
    using consumer_validated_read [OF demo_pinv sp [symmetric], of demo_prod'
        "\<lambda>i. if i = 0 then demo_prod else demo_prod'"]
    by (simp add: block_def) (simp add: demo_prod'_def demo_prod_def demo_hist_def)
qed

theorem get_tail_whole_seconds_witness:
  "get_tail demo_ring 10000000000 = Inr 300"
  using get_tail_whole_seconds [of 100 3 demo_ring] by (simp add: demo_ring_def)

definition demo_ring8 :: "nat ringbuf" where
  "demo_ring8 = \<lparr>rb_start_nsec = 0, rb_rate = Fin 100, rb_head = 5, rb_clob = 5,
     rb_mem = [10, 11, 12, 13, 14, 0, 0, 0], rb_lhead = 5, rb_size = 8, rb_mask = 7\<rparr>"

theorem aligned_samples_history_witness:
  "\<exists>sp e. get_aligned_samples demo_ring8 2 = Inr sp \<and> span_inside sp demo_ring8 \<and> 2 dvd e \<and>
    2 \<le> e \<and> e \<le> 5 \<and> 5 < e + 4 \<and> span_read sp demo_ring8 = block (e - 2) 2 demo_hist"
proof -
  have "ring_wf demo_ring8"
    unfolding ring_wf_def by (intro conjI exI [of _ 3]) (simp_all add: demo_ring8_def)
  moreover have "ring_repr demo_ring8 demo_hist"
    by (simp add: ring_repr_def ring_repr_upto_def demo_ring8_def demo_hist_def All_less_Suc)
  moreover have "length demo_hist = 5" "unat (rb_size demo_ring8) = 8"
    by (simp_all add: demo_hist_def demo_ring8_def)
  ultimately show ?thesis
    using aligned_samples_history [of demo_ring8 demo_hist 2] by simp
qed

theorem aligned_samples_out_of_bounds_witness:
  "\<exists>sp. get_aligned_samples demo_ring 4 = Inr sp \<and> \<not> span_inside sp demo_ring"
  using aligned_samples_out_of_bounds [OF demo_wf] by (simp add: demo_ring_def)

end
