(* ===== verification/Mpsc.thy ===== *)
theory Mpsc
  imports Prelude
begin

text \<open>
  The bounded multi-producer single-consumer queue of \<^verbatim>\<open>src/mpsc.hpp\<close>, through which all
  threads send their log entries. First the two operations as functions on the shared members
  (what a call does when nothing runs between its steps), then the same code as atomic steps of
  any number of producers and one consumer, with the invariant that makes every interleaving
  safe. The atomics are sequentially consistent here; the memory-order arguments of the code are
  not modelled.
\<close>

subsection \<open>Shared members and the operations\<close>

text \<open>The ring of slots is kept as two lists, the \<open>valid\<close> flags and the \<open>data\<close>.\<close>

record 'a mpsc =
  q_used :: u64
  q_head :: u64
  q_lost :: u64
  q_tail :: u64
  q_valid :: "bool list"
  q_data :: "'a list"

definition mpsc_new :: "u64 \<Rightarrow> 'a \<Rightarrow> 'a mpsc" where
  "mpsc_new N dflt = \<lparr>q_used = 0, q_head = 0, q_lost = 0, q_tail = 0,
     q_valid = replicate (unat N) False, q_data = replicate (unat N) dflt\<rparr>"

definition mpsc_push :: "u64 \<Rightarrow> 'a \<Rightarrow> 'a mpsc \<Rightarrow> u64 \<times> 'a mpsc" where
  "mpsc_push N obj q =
     (let used = q_used q; q = q\<lparr>q_used := q_used q + 1\<rparr> in
      if N \<le> used
      then let q = q\<lparr>q_used := q_used q - 1\<rparr>; q = q\<lparr>q_lost := q_lost q + 1\<rparr> in (N, q)
      else let h = q_head q AND (N - 1);
               q = q\<lparr>q_head := q_head q + 1\<rparr>;
               q = q\<lparr>q_data := (q_data q)[unat h := obj]\<rparr>;
               q = q\<lparr>q_valid := (q_valid q)[unat h := True]\<rparr>
           in (used, q))"

definition mpsc_pop :: "u64 \<Rightarrow> 'a mpsc \<Rightarrow> 'a option \<times> 'a mpsc" where
  "mpsc_pop N q =
     (let used = q_used q in
      if used = 0 then (None, q)
      else let t = q_tail q AND (N - 1) in
        if \<not> q_valid q ! unat t then (None, q)
        else let obj = q_data q ! unat t;
                 q = q\<lparr>q_valid := (q_valid q)[unat t := False]\<rparr>;
                 q = q\<lparr>q_used := q_used q - 1\<rparr>;
                 q = q\<lparr>q_tail := q_tail q + 1\<rparr>
             in (Some obj, q))"

subsection \<open>Producers and the consumer as atomic steps\<close>

text \<open>
  Where a producer is inside \<open>push\<close>: idle, after the increment of \<open>used\<close> that found the queue
  full, after undoing it, after the increment that allocated a place, after \<open>head.fetch_add\<close>,
  after moving the object into its slot. \<open>Slot\<close> and \<open>Written\<close> carry the masked index the code
  computed and, as a ghost, the ticket: the number of successful allocations before this one.
\<close>

datatype 'a ppc =
    Idle
  | Full
  | Undone
  | Alloc 'a
  | Slot 'a u64 nat
  | Written 'a u64 nat

text \<open>Where the consumer is inside \<open>pop\<close>.\<close>

datatype 'a cpc =
    CIdle
  | CUsed
  | CValid
  | CMoved 'a
  | CInvalidated 'a
  | CReleased 'a

text \<open>
  The system: the queue, the program counters, and two ghosts: the objects in ticket order with
  the producer that pushed each, and the objects popped so far.
\<close>

record 'a msys =
  m_q :: "'a mpsc"
  m_pcs :: "nat \<Rightarrow> 'a ppc"
  m_cpc :: "'a cpc"
  m_alloc :: "(nat \<times> 'a) list"
  m_out :: "'a list"

definition msys_init :: "u64 \<Rightarrow> 'a \<Rightarrow> 'a msys" where
  "msys_init N dflt = \<lparr>m_q = mpsc_new N dflt, m_pcs = (\<lambda>_. Idle), m_cpc = CIdle,
     m_alloc = [], m_out = []\<rparr>"

inductive mstep :: "u64 \<Rightarrow> nat \<Rightarrow> 'a msys \<Rightarrow> 'a msys \<Rightarrow> bool" for N :: u64 and np :: nat where
  push_used: "p < np \<Longrightarrow> m_pcs s p = Idle \<Longrightarrow> \<not> N \<le> q_used (m_q s) \<Longrightarrow>
    mstep N np s (s\<lparr>m_q := (m_q s)\<lparr>q_used := q_used (m_q s) + 1\<rparr>,
      m_pcs := (m_pcs s)(p := Alloc x)\<rparr>)"
| push_full: "p < np \<Longrightarrow> m_pcs s p = Idle \<Longrightarrow> N \<le> q_used (m_q s) \<Longrightarrow>
    mstep N np s (s\<lparr>m_q := (m_q s)\<lparr>q_used := q_used (m_q s) + 1\<rparr>,
      m_pcs := (m_pcs s)(p := Full)\<rparr>)"
| push_undo: "p < np \<Longrightarrow> m_pcs s p = Full \<Longrightarrow>
    mstep N np s (s\<lparr>m_q := (m_q s)\<lparr>q_used := q_used (m_q s) - 1\<rparr>,
      m_pcs := (m_pcs s)(p := Undone)\<rparr>)"
| push_lost: "p < np \<Longrightarrow> m_pcs s p = Undone \<Longrightarrow>
    mstep N np s (s\<lparr>m_q := (m_q s)\<lparr>q_lost := q_lost (m_q s) + 1\<rparr>,
      m_pcs := (m_pcs s)(p := Idle)\<rparr>)"
| push_head: "p < np \<Longrightarrow> m_pcs s p = Alloc x \<Longrightarrow>
    mstep N np s (s\<lparr>m_q := (m_q s)\<lparr>q_head := q_head (m_q s) + 1\<rparr>,
      m_pcs := (m_pcs s)(p := Slot x (q_head (m_q s) AND (N - 1)) (length (m_alloc s))),
      m_alloc := m_alloc s @ [(p, x)]\<rparr>)"
| push_data: "p < np \<Longrightarrow> m_pcs s p = Slot x i g \<Longrightarrow>
    mstep N np s (s\<lparr>m_q := (m_q s)\<lparr>q_data := (q_data (m_q s))[unat i := x]\<rparr>,
      m_pcs := (m_pcs s)(p := Written x i g)\<rparr>)"
| push_valid: "p < np \<Longrightarrow> m_pcs s p = Written x i g \<Longrightarrow>
    mstep N np s (s\<lparr>m_q := (m_q s)\<lparr>q_valid := (q_valid (m_q s))[unat i := True]\<rparr>,
      m_pcs := (m_pcs s)(p := Idle)\<rparr>)"
| pop_empty: "m_cpc s = CIdle \<Longrightarrow> q_used (m_q s) = 0 \<Longrightarrow> mstep N np s s"
| pop_used: "m_cpc s = CIdle \<Longrightarrow> q_used (m_q s) \<noteq> 0 \<Longrightarrow> mstep N np s (s\<lparr>m_cpc := CUsed\<rparr>)"
| pop_invalid: "m_cpc s = CUsed \<Longrightarrow> \<not> q_valid (m_q s) ! unat (q_tail (m_q s) AND (N - 1)) \<Longrightarrow>
    mstep N np s (s\<lparr>m_cpc := CIdle\<rparr>)"
| pop_valid: "m_cpc s = CUsed \<Longrightarrow> q_valid (m_q s) ! unat (q_tail (m_q s) AND (N - 1)) \<Longrightarrow>
    mstep N np s (s\<lparr>m_cpc := CValid\<rparr>)"
| pop_move: "m_cpc s = CValid \<Longrightarrow>
    mstep N np s (s\<lparr>m_cpc := CMoved (q_data (m_q s) ! unat (q_tail (m_q s) AND (N - 1)))\<rparr>)"
| pop_invalidate: "m_cpc s = CMoved x \<Longrightarrow>
    mstep N np s (s\<lparr>m_q := (m_q s)\<lparr>q_valid :=
        (q_valid (m_q s))[unat (q_tail (m_q s) AND (N - 1)) := False]\<rparr>,
      m_cpc := CInvalidated x\<rparr>)"
| pop_release: "m_cpc s = CInvalidated x \<Longrightarrow>
    mstep N np s (s\<lparr>m_q := (m_q s)\<lparr>q_used := q_used (m_q s) - 1\<rparr>, m_cpc := CReleased x\<rparr>)"
| pop_tail: "m_cpc s = CReleased x \<Longrightarrow>
    mstep N np s (s\<lparr>m_q := (m_q s)\<lparr>q_tail := q_tail (m_q s) + 1\<rparr>, m_cpc := CIdle,
      m_out := m_out s @ [x]\<rparr>)"

inductive mreach :: "u64 \<Rightarrow> nat \<Rightarrow> 'a \<Rightarrow> 'a msys \<Rightarrow> bool" for N np dflt where
  start: "mreach N np dflt (msys_init N dflt)"
| step: "mreach N np dflt s \<Longrightarrow> mstep N np s t \<Longrightarrow> mreach N np dflt t"

subsection \<open>The invariant\<close>

text \<open>How many producers are in a kind of state.\<close>

definition cnt :: "nat \<Rightarrow> ('c \<Rightarrow> bool) \<Rightarrow> (nat \<Rightarrow> 'c) \<Rightarrow> nat" where
  "cnt np Q f = card {p \<in> {..<np}. Q (f p)}"

lemma cnt_le: "cnt np Q f \<le> np"
  unfolding cnt_def by (rule order_trans [OF card_mono [of "{..<np}"]]) auto

lemma cnt_upd:
  assumes "p < np"
  shows "cnt np Q (f(p := c)) + (if Q (f p) then 1 else 0) = cnt np Q f + (if Q c then 1 else 0)"
proof -
  let ?R = "{q \<in> {..<np}. q \<noteq> p \<and> Q (f q)}"
  have "{q \<in> {..<np}. Q ((f(p := c)) q)} = (if Q c then insert p ?R else ?R)"
    and "{q \<in> {..<np}. Q (f q)} = (if Q (f p) then insert p ?R else ?R)"
    using assms by auto
  moreover have "card (insert p ?R) = card ?R + 1"
    by (subst card_insert_disjoint) auto
  ultimately show ?thesis
    by (auto simp: cnt_def)
qed

fun is_Alloc :: "'a ppc \<Rightarrow> bool" where
  "is_Alloc (Alloc _) = True"
| "is_Alloc _ = False"

fun is_Full :: "'a ppc \<Rightarrow> bool" where
  "is_Full Full = True"
| "is_Full _ = False"

fun is_CReleased :: "'a cpc \<Rightarrow> bool" where
  "is_CReleased (CReleased _) = True"
| "is_CReleased _ = False"

fun is_CInvalidated :: "'a cpc \<Rightarrow> bool" where
  "is_CInvalidated (CInvalidated _) = True"
| "is_CInvalidated _ = False"

text \<open>The tickets whose slots are in use: from the first unreleased one to the last allocated.\<close>

definition lo :: "'a msys \<Rightarrow> nat" where
  "lo s = length (m_out s) + (if is_CReleased (m_cpc s) then 1 else 0)"

abbreviation hi :: "'a msys \<Rightarrow> nat" where
  "hi s \<equiv> length (m_alloc s)"

text \<open>A ticket is pending while its producer has not yet validated the slot.\<close>

fun has_slot :: "nat \<Rightarrow> 'a ppc \<Rightarrow> bool" where
  "has_slot g (Slot _ _ h) = (h = g)"
| "has_slot g _ = False"

fun has_ticket :: "nat \<Rightarrow> 'a ppc \<Rightarrow> bool" where
  "has_ticket g (Slot _ _ h) = (h = g)"
| "has_ticket g (Written _ _ h) = (h = g)"
| "has_ticket g _ = False"

definition in_slot :: "nat \<Rightarrow> (nat \<Rightarrow> 'a ppc) \<Rightarrow> nat \<Rightarrow> bool" where
  "in_slot np f g \<longleftrightarrow> (\<exists>p < np. has_slot g (f p))"

definition pending :: "nat \<Rightarrow> (nat \<Rightarrow> 'a ppc) \<Rightarrow> nat \<Rightarrow> bool" where
  "pending np f g \<longleftrightarrow> (\<exists>p < np. has_ticket g (f p))"

text \<open>The slots in use, and the use count with the increments not yet settled.\<close>

definition in_use :: "'a msys \<Rightarrow> nat" where
  "in_use s = hi s - lo s"

definition uses :: "nat \<Rightarrow> nat \<Rightarrow> (nat \<Rightarrow> 'a ppc) \<Rightarrow> nat" where
  "uses np n f = n + cnt np is_Alloc f + cnt np is_Full f"

lemma lo_simps [simp]:
  "lo (s\<lparr>m_q := q\<rparr>) = lo s" "lo (s\<lparr>m_pcs := f\<rparr>) = lo s" "lo (s\<lparr>m_alloc := a\<rparr>) = lo s"
  by (simp_all add: lo_def)

lemma in_use_simps [simp]:
  "in_use (s\<lparr>m_q := q\<rparr>) = in_use s" "in_use (s\<lparr>m_pcs := f\<rparr>) = in_use s"
  "in_use (s\<lparr>m_alloc := a\<rparr>) = length a - lo s"
  by (simp_all add: in_use_def)

text \<open>The counters agree with the ghosts.\<close>

definition counters_ok :: "u64 \<Rightarrow> nat \<Rightarrow> 'a msys \<Rightarrow> bool" where
  "counters_ok N np s \<longleftrightarrow>
     q_head (m_q s) = word_of_nat (hi s) \<and> q_tail (m_q s) = word_of_nat (length (m_out s)) \<and>
     lo s \<le> hi s \<and> in_use s + cnt np is_Alloc (m_pcs s) \<le> unat N \<and>
     q_used (m_q s) = word_of_nat (uses np (in_use s) (m_pcs s))"

text \<open>Every producer with a ticket holds the index of its slot, and the object with the ticket.\<close>

definition ticket_at :: "u64 \<Rightarrow> 'a msys \<Rightarrow> nat \<Rightarrow> 'a \<Rightarrow> u64 \<Rightarrow> nat \<Rightarrow> bool" where
  "ticket_at N s p x i g \<longleftrightarrow>
     lo s \<le> g \<and> g < hi s \<and> unat i = g mod unat N \<and> m_alloc s ! g = (p, x)"

fun ticket_ok :: "u64 \<Rightarrow> 'a msys \<Rightarrow> nat \<Rightarrow> 'a ppc \<Rightarrow> bool" where
  "ticket_ok N s p (Slot x i g) = ticket_at N s p x i g"
| "ticket_ok N s p (Written x i g) = ticket_at N s p x i g"
| "ticket_ok N s p _ = True"

definition tickets_ok :: "u64 \<Rightarrow> nat \<Rightarrow> 'a msys \<Rightarrow> bool" where
  "tickets_ok N np s \<longleftrightarrow> (\<forall>p < np. ticket_ok N s p (m_pcs s p))"

text \<open>Slots in use hold their object once written and are valid once published; others are not.\<close>

definition slots_ok :: "u64 \<Rightarrow> nat \<Rightarrow> 'a msys \<Rightarrow> bool" where
  "slots_ok N np s \<longleftrightarrow>
     length (q_valid (m_q s)) = unat N \<and> length (q_data (m_q s)) = unat N \<and>
     (\<forall>g. lo s \<le> g \<and> g < hi s \<longrightarrow>
        (q_valid (m_q s) ! (g mod unat N) \<longleftrightarrow>
           \<not> pending np (m_pcs s) g \<and> \<not> (g = length (m_out s) \<and> is_CInvalidated (m_cpc s))) \<and>
        (\<not> in_slot np (m_pcs s) g \<longrightarrow> q_data (m_q s) ! (g mod unat N) = snd (m_alloc s ! g))) \<and>
     (\<forall>c < unat N. (\<forall>g. lo s \<le> g \<and> g < hi s \<longrightarrow> g mod unat N \<noteq> c) \<longrightarrow> \<not> q_valid (m_q s) ! c)"

text \<open>What the consumer has read is the object of the first unconsumed ticket.\<close>

fun consumer_ok :: "nat \<Rightarrow> 'a msys \<Rightarrow> 'a cpc \<Rightarrow> bool" where
  "consumer_ok np s CIdle = True"
| "consumer_ok np s CUsed = True"
| "consumer_ok np s CValid = (length (m_out s) < hi s \<and> \<not> pending np (m_pcs s) (length (m_out s)))"
| "consumer_ok np s (CMoved x) = (length (m_out s) < hi s \<and> \<not> pending np (m_pcs s) (length (m_out s)) \<and>
     snd (m_alloc s ! length (m_out s)) = x)"
| "consumer_ok np s (CInvalidated x) = (length (m_out s) < hi s \<and> \<not> pending np (m_pcs s) (length (m_out s)) \<and>
     snd (m_alloc s ! length (m_out s)) = x)"
| "consumer_ok np s (CReleased x) = (length (m_out s) < hi s \<and>
     snd (m_alloc s ! length (m_out s)) = x)"

definition minv :: "u64 \<Rightarrow> nat \<Rightarrow> 'a msys \<Rightarrow> bool" where
  "minv N np s \<longleftrightarrow> counters_ok N np s \<and> tickets_ok N np s \<and> slots_ok N np s \<and>
     consumer_ok np s (m_cpc s) \<and>
     m_out s = map snd (take (length (m_out s)) (m_alloc s))"

subsection \<open>Every step keeps the invariant\<close>

text \<open>
  The capacity is a power of two (the \<open>static_assert\<close> of the code; it would also admit zero),
  and there are few enough producers for the use count not to wrap around.
\<close>

definition mpsc_cfg :: "u64 \<Rightarrow> nat \<Rightarrow> bool" where
  "mpsc_cfg N np \<longleftrightarrow> (\<exists>k < 64. N = 2 ^ k) \<and> np + unat N < 2 ^ 64"

lemma mpsc_cfg_pos: "mpsc_cfg N np \<Longrightarrow> 0 < unat N"
  by (auto simp: mpsc_cfg_def)

lemma mpsc_index:
  assumes "mpsc_cfg N np"
  shows "unat (word_of_nat n AND (N - 1)) = n mod unat N"
proof -
  obtain k where k: "k < 64" "N = 2 ^ k"
    using assms by (auto simp: mpsc_cfg_def)
  have "unat (word_of_nat n AND (N - 1)) = n mod 2 ^ 64 mod 2 ^ k"
    using k by (simp add: unat_and_mask_u64 unat_of_nat)
  also have "\<dots> = n mod 2 ^ k"
    using k(1) by (intro mod_mod_cancel le_imp_power_dvd) simp
  finally show ?thesis
    using k by simp
qed

lemma has_slot_ticket: "has_slot g c \<Longrightarrow> has_ticket g c"
  by (cases c) auto

lemma in_slot_pending: "in_slot np f g \<Longrightarrow> pending np f g"
  by (auto simp: in_slot_def pending_def dest: has_slot_ticket)

lemma in_slot_upd:
  "p < np \<Longrightarrow> \<not> has_slot g (f p) \<Longrightarrow> in_slot np (f(p := c)) g \<longleftrightarrow> has_slot g c \<or> in_slot np f g"
  by (auto simp: in_slot_def)

lemma pending_upd:
  "p < np \<Longrightarrow> \<not> has_ticket g (f p) \<Longrightarrow> pending np (f(p := c)) g \<longleftrightarrow> has_ticket g c \<or> pending np f g"
  by (auto simp: pending_def)

text \<open>Two tickets in use are in different slots.\<close>

lemma slots_distinct:
  assumes "counters_ok N np s" "lo s \<le> g" "g < hi s" "lo s \<le> h" "h < hi s" "g \<noteq> h"
  shows "g mod unat N \<noteq> h mod unat N"
proof
  assume eq: "g mod unat N = h mod unat N"
  have "hi s - lo s \<le> unat N"
    using assms(1) by (auto simp: counters_ok_def in_use_def)
  then show False
    using mod_eq_near [OF eq] mod_eq_near [OF eq [symmetric]] assms by linarith
qed

lemma uses_bound:
  assumes "mpsc_cfg N np" "counters_ok N np s"
  shows "uses np (in_use s) (m_pcs s) \<le> unat N + np" "unat N + np < 2 ^ 64"
  using assms cnt_le [of np is_Full "m_pcs s"]
  by (auto simp: mpsc_cfg_def counters_ok_def uses_def)

lemma used_unat:
  assumes "mpsc_cfg N np" "counters_ok N np s"
  shows "unat (q_used (m_q s)) = uses np (in_use s) (m_pcs s)"
proof -
  have "unat (word_of_nat (uses np (in_use s) (m_pcs s)) :: u64) = uses np (in_use s) (m_pcs s)"
    using uses_bound [OF assms] by (intro unat_word_of_nat_u64) linarith
  then show ?thesis
    using assms(2) by (simp only: counters_ok_def)
qed

text \<open>Only one producer holds a ticket.\<close>

lemma ticket_unique:
  assumes "tickets_ok N np s" "p < np" "q < np" "has_ticket g (m_pcs s p)" "has_ticket g (m_pcs s q)"
  shows "p = q"
proof -
  have "fst (m_alloc s ! g) = r" if "r < np" "has_ticket g (m_pcs s r)" for r
    using assms(1) that by (cases "m_pcs s r") (auto simp: tickets_ok_def ticket_at_def dest: spec [of _ r])
  with assms show ?thesis by metis
qed

lemma ticket_range:
  assumes "tickets_ok N np s" "pending np (m_pcs s) g"
  shows "lo s \<le> g \<and> g < hi s"
proof -
  obtain p where p: "p < np" "has_ticket g (m_pcs s p)"
    using assms(2) by (auto simp: pending_def)
  with assms(1) show ?thesis
    by (cases "m_pcs s p") (auto simp: tickets_ok_def ticket_at_def dest: spec [of _ p])
qed

lemmas minv_defs = minv_def counters_ok_def tickets_ok_def slots_ok_def

text \<open>The steps that move a producer between states without a ticket.\<close>

lemma minv_no_ticket:
  assumes inv: "minv N np s" and p: "p < np"
    and nt: "\<And>g. \<not> has_ticket g (m_pcs s p)" "\<And>g. \<not> has_ticket g c"
    and cnt: "in_use s + cnt np is_Alloc ((m_pcs s)(p := c)) \<le> unat N"
    and used: "u = word_of_nat (uses np (in_use s) ((m_pcs s)(p := c)))"
  shows "minv N np (s\<lparr>m_q := (m_q s)\<lparr>q_used := u, q_lost := l\<rparr>, m_pcs := (m_pcs s)(p := c)\<rparr>)"
proof -
  let ?t = "s\<lparr>m_q := (m_q s)\<lparr>q_used := u, q_lost := l\<rparr>, m_pcs := (m_pcs s)(p := c)\<rparr>"
  have pend: "pending np ((m_pcs s)(p := c)) g = pending np (m_pcs s) g" for g
    using pending_upd [where f = "m_pcs s" and c = c, OF p nt(1)] nt(2) by simp
  have slot: "in_slot np ((m_pcs s)(p := c)) g = in_slot np (m_pcs s) g" for g
    using in_slot_upd [where f = "m_pcs s" and c = c and g = g, OF p] nt has_slot_ticket by metis
  have "consumer_ok np ?t (m_cpc s)"
    using inv by (cases "m_cpc s") (auto simp: minv_def pend)
  moreover have "tickets_ok N np ?t"
  proof -
    have "ticket_ok N ?t q d = ticket_ok N s q d" for q d
      by (cases d) (simp_all add: ticket_at_def)
    moreover have "ticket_ok N s p c"
      using nt(2) by (cases c) auto
    ultimately show ?thesis
      using inv by (auto simp: minv_def tickets_ok_def)
  qed
  moreover have "counters_ok N np ?t"
    using inv cnt used by (simp add: minv_def counters_ok_def)
  moreover have "slots_ok N np ?t"
    using inv by (simp add: minv_def slots_ok_def pend slot)
  ultimately show ?thesis
    using inv by (simp add: minv_def)
qed

lemma minv_push_used:
  assumes "mpsc_cfg N np" "minv N np s" "p < np" "m_pcs s p = Idle" "\<not> N \<le> q_used (m_q s)"
  shows "minv N np (s\<lparr>m_q := (m_q s)\<lparr>q_used := q_used (m_q s) + 1\<rparr>,
    m_pcs := (m_pcs s)(p := Alloc x)\<rparr>)"
proof -
  have c: "counters_ok N np s" using assms(2) by (simp add: minv_def)
  let ?f = "(m_pcs s)(p := Alloc x)"
  have f: "cnt np is_Alloc ?f = cnt np is_Alloc (m_pcs s) + 1" "cnt np is_Full ?f = cnt np is_Full (m_pcs s)"
    using cnt_upd [OF assms(3), of is_Alloc "m_pcs s" "Alloc x"]
      cnt_upd [OF assms(3), of is_Full "m_pcs s" "Alloc x"] assms(4) by simp_all
  then have u: "uses np (in_use s) ?f = uses np (in_use s) (m_pcs s) + 1"
    by (simp add: uses_def)
  have "uses np (in_use s) (m_pcs s) < unat N"
    using assms(5) used_unat [OF assms(1) c] by (simp add: word_le_nat_alt)
  then have "in_use s + cnt np is_Alloc ?f \<le> unat N"
    by (simp add: f uses_def)
  moreover have "q_used (m_q s) + 1 = word_of_nat (uses np (in_use s) ?f)"
    using c by (simp add: counters_ok_def u)
  ultimately show ?thesis
    using minv_no_ticket [OF assms(2,3), of "Alloc x" "q_used (m_q s) + 1" "q_lost (m_q s)"] assms(4)
    by simp
qed

lemma minv_push_full:
  assumes "mpsc_cfg N np" "minv N np s" "p < np" "m_pcs s p = Idle"
  shows "minv N np (s\<lparr>m_q := (m_q s)\<lparr>q_used := q_used (m_q s) + 1\<rparr>,
    m_pcs := (m_pcs s)(p := Full)\<rparr>)"
proof -
  have c: "counters_ok N np s" using assms(2) by (simp add: minv_def)
  let ?f = "(m_pcs s)(p := Full)"
  have f: "cnt np is_Alloc ?f = cnt np is_Alloc (m_pcs s)" "cnt np is_Full ?f = cnt np is_Full (m_pcs s) + 1"
    using cnt_upd [OF assms(3), of is_Alloc "m_pcs s" Full]
      cnt_upd [OF assms(3), of is_Full "m_pcs s" Full] assms(4) by simp_all
  then have "q_used (m_q s) + 1 = word_of_nat (uses np (in_use s) ?f)"
    using c by (simp add: counters_ok_def uses_def)
  moreover have "in_use s + cnt np is_Alloc ?f \<le> unat N"
    using c by (simp add: counters_ok_def f)
  ultimately show ?thesis
    using minv_no_ticket [OF assms(2,3), of Full "q_used (m_q s) + 1" "q_lost (m_q s)"] assms(4)
    by simp
qed

lemma minv_push_undo:
  assumes "minv N np s" "p < np" "m_pcs s p = Full"
  shows "minv N np (s\<lparr>m_q := (m_q s)\<lparr>q_used := q_used (m_q s) - 1\<rparr>,
    m_pcs := (m_pcs s)(p := Undone)\<rparr>)"
proof -
  have c: "counters_ok N np s" using assms(1) by (simp add: minv_def)
  let ?f = "(m_pcs s)(p := Undone)"
  have f: "cnt np is_Alloc ?f = cnt np is_Alloc (m_pcs s)" "cnt np is_Full ?f + 1 = cnt np is_Full (m_pcs s)"
    using cnt_upd [OF assms(2), of is_Alloc "m_pcs s" Undone]
      cnt_upd [OF assms(2), of is_Full "m_pcs s" Undone] assms(3) by simp_all
  then have u: "uses np (in_use s) (m_pcs s) = uses np (in_use s) ?f + 1"
    by (simp add: uses_def)
  have "q_used (m_q s) - 1 = word_of_nat (uses np (in_use s) ?f)"
    using c by (simp add: counters_ok_def u)
  moreover have "in_use s + cnt np is_Alloc ?f \<le> unat N"
    using c by (simp add: counters_ok_def f)
  ultimately show ?thesis
    using minv_no_ticket [OF assms(1,2), of Undone "q_used (m_q s) - 1" "q_lost (m_q s)"] assms(3)
    by simp
qed

lemma minv_push_lost:
  assumes "minv N np s" "p < np" "m_pcs s p = Undone"
  shows "minv N np (s\<lparr>m_q := (m_q s)\<lparr>q_lost := q_lost (m_q s) + 1\<rparr>,
    m_pcs := (m_pcs s)(p := Idle)\<rparr>)"
proof -
  have c: "counters_ok N np s" using assms(1) by (simp add: minv_def)
  let ?f = "(m_pcs s)(p := Idle)"
  have f: "cnt np is_Alloc ?f = cnt np is_Alloc (m_pcs s)" "cnt np is_Full ?f = cnt np is_Full (m_pcs s)"
    using cnt_upd [OF assms(2), of is_Alloc "m_pcs s" Idle]
      cnt_upd [OF assms(2), of is_Full "m_pcs s" Idle] assms(3) by simp_all
  then have u: "q_used (m_q s) = word_of_nat (uses np (in_use s) ?f)"
    using c by (simp add: counters_ok_def uses_def)
  have "in_use s + cnt np is_Alloc ?f \<le> unat N"
    using c by (simp add: counters_ok_def f)
  then have "minv N np (s\<lparr>m_q := (m_q s)\<lparr>q_used := q_used (m_q s), q_lost := q_lost (m_q s) + 1\<rparr>,
      m_pcs := ?f\<rparr>)"
    using assms(3) by (intro minv_no_ticket [OF assms(1,2)] u) simp_all
  then show ?thesis by simp
qed

text \<open>Fetching a ticket: the new slot is free, so it is not valid.\<close>

lemma minv_push_head:
  assumes cfg: "mpsc_cfg N np" and inv: "minv N np s" and p: "p < np" and pc: "m_pcs s p = Alloc x"
  shows "minv N np (s\<lparr>m_q := (m_q s)\<lparr>q_head := q_head (m_q s) + 1\<rparr>,
      m_pcs := (m_pcs s)(p := Slot x (q_head (m_q s) AND (N - 1)) (length (m_alloc s))),
      m_alloc := m_alloc s @ [(p, x)]\<rparr>)" (is "minv N np ?t")
proof -
  let ?c = "Slot x (q_head (m_q s) AND (N - 1)) (hi s)"
  let ?f = "(m_pcs s)(p := ?c)"
  have C: "counters_ok N np s" and T: "tickets_ok N np s" and S: "slots_ok N np s"
    using inv by (simp_all add: minv_def)
  have nt: "\<not> has_ticket g (m_pcs s p)" "\<not> has_slot g (m_pcs s p)" for g
    by (simp_all add: pc)
  have pend: "pending np ?f g \<longleftrightarrow> g = hi s \<or> pending np (m_pcs s) g"
    and slot: "in_slot np ?f g \<longleftrightarrow> g = hi s \<or> in_slot np (m_pcs s) g" for g
    using pending_upd [where f = "m_pcs s" and c = ?c, OF p nt(1)]
      in_slot_upd [where f = "m_pcs s" and c = ?c, OF p nt(2)] by auto
  have f: "cnt np is_Alloc ?f + 1 = cnt np is_Alloc (m_pcs s)"
    "cnt np is_Full ?f = cnt np is_Full (m_pcs s)"
    using cnt_upd [OF p, of is_Alloc "m_pcs s" ?c] cnt_upd [OF p, of is_Full "m_pcs s" ?c]
    by (simp_all add: pc)
  have lo: "lo s \<le> hi s" and head: "q_head (m_q s) = word_of_nat (hi s)"
    using C by (simp_all add: counters_ok_def)
  have use: "Suc (hi s) - lo s = Suc (in_use s)"
    using lo by (simp add: in_use_def Suc_diff_le)
  have room: "in_use s < unat N"
    using C f(1) by (simp add: counters_ok_def)
  have U: "uses np (Suc (in_use s)) ?f = uses np (in_use s) (m_pcs s)"
    using f by (simp add: uses_def)
  have "in_use s + cnt np is_Alloc (m_pcs s) \<le> unat N"
    "q_used (m_q s) = word_of_nat (uses np (in_use s) (m_pcs s))"
    "q_tail (m_q s) = word_of_nat (length (m_out s))"
    using C by (simp_all add: counters_ok_def)
  then have "counters_ok N np ?t"
    using f(1) lo U by (simp add: counters_ok_def use head)
  moreover have "tickets_ok N np ?t"
  proof -
    have "ticket_ok N ?t q d" if "ticket_ok N s q d" for q d
      using that by (cases d) (auto simp: ticket_at_def nth_append)
    moreover have "ticket_ok N ?t p ?c"
      using lo by (simp add: ticket_at_def head mpsc_index [OF cfg] del: of_nat_mod)
    ultimately show ?thesis
      using T by (auto simp: tickets_ok_def)
  qed
  moreover have "slots_ok N np ?t"
  proof -
    have free: "g mod unat N \<noteq> hi s mod unat N" if "lo s \<le> g" "g < hi s" for g
    proof
      assume "g mod unat N = hi s mod unat N"
      moreover have "hi s < g + unat N"
        using that room unfolding in_use_def by linarith
      ultimately show False
        using mod_eq_near [of g "unat N" "hi s"] that(2) by linarith
    qed
    then have "\<not> q_valid (m_q s) ! (hi s mod unat N)"
      using S mpsc_cfg_pos [OF cfg] by (simp add: slots_ok_def)
    with S free show ?thesis
      by (auto simp: slots_ok_def pend slot nth_append less_Suc_eq)
  qed
  moreover have "consumer_ok np ?t (m_cpc s)"
    using inv by (cases "m_cpc s") (auto simp: minv_def pend nth_append)
  moreover have "length (m_out s) \<le> hi s"
    using lo by (simp add: lo_def split: if_splits)
  ultimately show ?thesis
    using inv by (simp add: minv_def)
qed

text \<open>Moving the object into the slot.\<close>

lemma minv_push_data:
  assumes cfg: "mpsc_cfg N np" and inv: "minv N np s" and p: "p < np" and pc: "m_pcs s p = Slot x i g"
  shows "minv N np (s\<lparr>m_q := (m_q s)\<lparr>q_data := (q_data (m_q s))[unat i := x]\<rparr>,
      m_pcs := (m_pcs s)(p := Written x i g)\<rparr>)" (is "minv N np ?t")
proof -
  let ?f = "(m_pcs s)(p := Written x i g)"
  have C: "counters_ok N np s" and T: "tickets_ok N np s" and S: "slots_ok N np s"
    using inv by (simp_all add: minv_def)
  have own: "lo s \<le> g" "g < hi s" "unat i = g mod unat N" "m_alloc s ! g = (p, x)"
    using T p pc by (auto simp: tickets_ok_def ticket_at_def dest: spec [of _ p])
  have pend: "pending np ?f h \<longleftrightarrow> pending np (m_pcs s) h" for h
  proof (cases "h = g")
    case True
    have "has_ticket g (?f p)" "has_ticket g (m_pcs s p)"
      by (simp_all add: pc)
    with True p show ?thesis unfolding pending_def by blast
  next
    case False
    then show ?thesis
      using pending_upd [where f = "m_pcs s" and c = "Written x i g" and g = h, OF p] by (simp add: pc)
  qed
  have slot: "in_slot np ?f h \<longleftrightarrow> h \<noteq> g \<and> in_slot np (m_pcs s) h" for h
  proof (cases "h = g")
    case True
    have "\<not> has_slot g (?f q)" if q: "q < np" for q
    proof (cases "q = p")
      case False
      have "has_ticket g (m_pcs s p)" by (simp add: pc)
      then have "\<not> has_ticket g (m_pcs s q)"
        using ticket_unique [OF T p q] False by blast
      with False show ?thesis using has_slot_ticket by fastforce
    qed simp
    with True show ?thesis by (simp add: in_slot_def)
  next
    case False
    then show ?thesis
      using in_slot_upd [where f = "m_pcs s" and c = "Written x i g" and g = h, OF p] by (simp add: pc)
  qed
  have f: "cnt np is_Alloc ?f = cnt np is_Alloc (m_pcs s)" "cnt np is_Full ?f = cnt np is_Full (m_pcs s)"
    using cnt_upd [OF p, of is_Alloc "m_pcs s" "Written x i g"]
      cnt_upd [OF p, of is_Full "m_pcs s" "Written x i g"] by (simp_all add: pc)
  have "counters_ok N np ?t"
    using C by (simp add: counters_ok_def f uses_def)
  moreover have "tickets_ok N np ?t"
  proof -
    have "ticket_ok N ?t q d = ticket_ok N s q d" for q d
      by (cases d) (simp_all add: ticket_at_def)
    with T own show ?thesis by (auto simp: tickets_ok_def ticket_at_def)
  qed
  moreover have "slots_ok N np ?t"
  proof -
    have "(q_data (m_q s))[g mod unat N := x] ! (h mod unat N) = snd (m_alloc s ! h)"
      if "lo s \<le> h" "h < hi s" "\<not> in_slot np ?f h" for h
    proof (cases "h = g")
      case True
      have "g mod unat N < length (q_data (m_q s))"
        using S mpsc_cfg_pos [OF cfg] by (simp add: slots_ok_def)
      with True own(4) show ?thesis by simp
    next
      case False
      with slots_distinct [OF C own(1,2) that(1,2)] S that show ?thesis
        by (simp add: slots_ok_def slot)
    qed
    with S own(3) show ?thesis
      by (simp add: slots_ok_def pend)
  qed
  moreover have "consumer_ok np ?t (m_cpc s)"
    using inv by (cases "m_cpc s") (auto simp: minv_def pend)
  ultimately show ?thesis
    using inv by (simp add: minv_def)
qed

text \<open>Publishing the slot: its ticket stops being pending.\<close>

lemma minv_push_valid:
  assumes cfg: "mpsc_cfg N np" and inv: "minv N np s" and p: "p < np" and pc: "m_pcs s p = Written x i g"
  shows "minv N np (s\<lparr>m_q := (m_q s)\<lparr>q_valid := (q_valid (m_q s))[unat i := True]\<rparr>,
      m_pcs := (m_pcs s)(p := Idle)\<rparr>)" (is "minv N np ?t")
proof -
  let ?f = "(m_pcs s)(p := Idle)"
  have C: "counters_ok N np s" and T: "tickets_ok N np s" and S: "slots_ok N np s"
    using inv by (simp_all add: minv_def)
  have own: "lo s \<le> g" "g < hi s" "unat i = g mod unat N" "m_alloc s ! g = (p, x)"
    using T p pc by (auto simp: tickets_ok_def ticket_at_def dest: spec [of _ p])
  have pg: "has_ticket g (m_pcs s p)" by (simp add: pc)
  have pend: "pending np ?f h \<longleftrightarrow> h \<noteq> g \<and> pending np (m_pcs s) h" for h
  proof (cases "h = g")
    case True
    have "\<not> has_ticket g (?f q)" if q: "q < np" for q
      using ticket_unique [OF T p q pg] by auto
    with True show ?thesis by (simp add: pending_def)
  next
    case False
    then show ?thesis
      using pending_upd [where f = "m_pcs s" and c = Idle and g = h, OF p] by (simp add: pc)
  qed
  have slot: "in_slot np ?f h \<longleftrightarrow> in_slot np (m_pcs s) h" for h
    using in_slot_upd [where f = "m_pcs s" and c = Idle and g = h, OF p] by (simp add: pc)
  have f: "cnt np is_Alloc ?f = cnt np is_Alloc (m_pcs s)" "cnt np is_Full ?f = cnt np is_Full (m_pcs s)"
    using cnt_upd [OF p, of is_Alloc "m_pcs s" Idle] cnt_upd [OF p, of is_Full "m_pcs s" Idle]
    by (simp_all add: pc)
  have "pending np (m_pcs s) g"
    using p pg by (auto simp: pending_def)
  then have live: "\<not> (g = length (m_out s) \<and> is_CInvalidated (m_cpc s))"
    using inv by (cases "m_cpc s") (auto simp: minv_def)
  have "counters_ok N np ?t"
    using C by (simp add: counters_ok_def f uses_def)
  moreover have "tickets_ok N np ?t"
  proof -
    have "ticket_ok N ?t q d = ticket_ok N s q d" for q d
      by (cases d) (simp_all add: ticket_at_def)
    with T show ?thesis by (auto simp: tickets_ok_def)
  qed
  moreover have "slots_ok N np ?t"
  proof -
    have "(q_valid (m_q s))[g mod unat N := True] ! (h mod unat N) \<longleftrightarrow>
        \<not> pending np ?f h \<and> \<not> (h = length (m_out s) \<and> is_CInvalidated (m_cpc s))"
      if "lo s \<le> h" "h < hi s" for h
    proof (cases "h = g")
      case True
      have "g mod unat N < length (q_valid (m_q s))"
        using S mpsc_cfg_pos [OF cfg] by (simp add: slots_ok_def)
      with True live show ?thesis by (simp add: pend)
    next
      case False
      with slots_distinct [OF C own(1,2) that] S that show ?thesis
        by (simp add: slots_ok_def pend)
    qed
    moreover have "\<not> (q_valid (m_q s))[g mod unat N := True] ! c"
      if "c < unat N" "\<forall>h. lo s \<le> h \<and> h < hi s \<longrightarrow> h mod unat N \<noteq> c" for c
    proof -
      have "g mod unat N \<noteq> c" using that(2) own(1,2) by blast
      with S that show ?thesis by (simp add: slots_ok_def)
    qed
    ultimately show ?thesis
      using S own(3) by (simp add: slots_ok_def slot)
  qed
  moreover have "consumer_ok np ?t (m_cpc s)"
    using inv by (cases "m_cpc s") (auto simp: minv_def pend)
  ultimately show ?thesis
    using inv by (simp add: minv_def)
qed

text \<open>The slot the consumer looks at is that of the first unconsumed ticket.\<close>

lemma tail_slot:
  assumes "mpsc_cfg N np" "minv N np s"
  shows "unat (q_tail (m_q s) AND (N - 1)) = length (m_out s) mod unat N"
  using assms by (simp add: minv_def counters_ok_def mpsc_index)

lemma tail_valid:
  assumes cfg: "mpsc_cfg N np" and inv: "minv N np s" and c: "m_cpc s = CUsed"
    and v: "q_valid (m_q s) ! unat (q_tail (m_q s) AND (N - 1))"
  shows "length (m_out s) < hi s \<and> \<not> pending np (m_pcs s) (length (m_out s))"
proof -
  let ?T = "length (m_out s)"
  have lo: "lo s = ?T" by (simp add: lo_def c)
  have S: "slots_ok N np s" and le: "?T \<le> hi s"
    using inv lo by (simp_all add: minv_def counters_ok_def)
  have v': "q_valid (m_q s) ! (?T mod unat N)"
    using v by (simp add: tail_slot [OF cfg inv])
  have "?T \<noteq> hi s"
  proof
    assume "?T = hi s"
    then have "\<not> q_valid (m_q s) ! (?T mod unat N)"
      using S lo mpsc_cfg_pos [OF cfg] by (simp add: slots_ok_def)
    with v' show False by simp
  qed
  with le have "?T < hi s" by simp
  with S v' lo show ?thesis by (simp add: slots_ok_def)
qed

text \<open>Steps of the consumer that touch neither the queue nor the ghosts.\<close>

lemma minv_consumer_local:
  assumes "minv N np s" "\<not> is_CReleased (m_cpc s)" "\<not> is_CInvalidated (m_cpc s)"
    and "\<not> is_CReleased c" "\<not> is_CInvalidated c" "consumer_ok np s c"
  shows "minv N np (s\<lparr>m_cpc := c\<rparr>)"
proof -
  let ?t = "s\<lparr>m_cpc := c\<rparr>"
  have lo: "lo ?t = lo s" "in_use ?t = in_use s"
    using assms by (simp_all add: lo_def in_use_def)
  have "ticket_ok N ?t q d = ticket_ok N s q d" for q d
    by (cases d) (simp_all add: ticket_at_def lo)
  then have "tickets_ok N np ?t"
    using assms(1) by (simp add: minv_def tickets_ok_def)
  moreover have "consumer_ok np ?t c"
    using assms(6) by (cases c) simp_all
  ultimately show ?thesis
    using assms lo by (simp add: minv_def counters_ok_def slots_ok_def)
qed

lemma minv_pop_invalidate:
  assumes cfg: "mpsc_cfg N np" and inv: "minv N np s" and c: "m_cpc s = CMoved x"
  shows "minv N np (s\<lparr>m_q := (m_q s)\<lparr>q_valid :=
        (q_valid (m_q s))[unat (q_tail (m_q s) AND (N - 1)) := False]\<rparr>,
      m_cpc := CInvalidated x\<rparr>)" (is "minv N np ?t")
proof -
  let ?T = "length (m_out s)"
  have C: "counters_ok N np s" and S: "slots_ok N np s" and T: "tickets_ok N np s"
    and K: "?T < hi s" "\<not> pending np (m_pcs s) ?T" "snd (m_alloc s ! ?T) = x"
    using inv c by (simp_all add: minv_def)
  have lo: "lo s = ?T" "lo ?t = ?T" "in_use ?t = in_use s"
    by (simp_all add: lo_def in_use_def c)
  have "ticket_ok N ?t q d = ticket_ok N s q d" for q d
    by (cases d) (simp_all add: ticket_at_def lo)
  then have "tickets_ok N np ?t"
    using T by (simp add: tickets_ok_def)
  moreover have "slots_ok N np ?t"
  proof -
    have "(q_valid (m_q s))[?T mod unat N := False] ! (h mod unat N) \<longleftrightarrow>
        \<not> pending np (m_pcs s) h \<and> h \<noteq> ?T"
      if "?T \<le> h" "h < hi s" for h
    proof (cases "h = ?T")
      case True
      have "?T mod unat N < length (q_valid (m_q s))"
        using S mpsc_cfg_pos [OF cfg] by (simp add: slots_ok_def)
      with True show ?thesis by simp
    next
      case False
      with slots_distinct [OF C, of ?T h] S K(1) lo(1) c that show ?thesis
        by (simp add: slots_ok_def)
    qed
    moreover have "\<not> (q_valid (m_q s))[?T mod unat N := False] ! d"
      if "d < unat N" "\<forall>h. ?T \<le> h \<and> h < hi s \<longrightarrow> h mod unat N \<noteq> d" for d
    proof -
      have "?T mod unat N \<noteq> d" using that(2) K(1) by blast
      with S that lo(1) show ?thesis by (simp add: slots_ok_def)
    qed
    ultimately show ?thesis
      using S lo tail_slot [OF cfg inv] by (simp add: slots_ok_def)
  qed
  ultimately show ?thesis
    using inv lo K by (simp add: minv_def counters_ok_def)
qed

lemma minv_pop_release:
  assumes cfg: "mpsc_cfg N np" and inv: "minv N np s" and c: "m_cpc s = CInvalidated x"
  shows "minv N np (s\<lparr>m_q := (m_q s)\<lparr>q_used := q_used (m_q s) - 1\<rparr>, m_cpc := CReleased x\<rparr>)"
    (is "minv N np ?t")
proof -
  let ?T = "length (m_out s)"
  have C: "counters_ok N np s" and S: "slots_ok N np s" and T: "tickets_ok N np s"
    and K: "?T < hi s" "\<not> pending np (m_pcs s) ?T" "snd (m_alloc s ! ?T) = x"
    using inv c by (simp_all add: minv_def)
  have lo: "lo s = ?T" "lo ?t = Suc ?T" and use: "in_use s = Suc (in_use ?t)"
    using K(1) by (simp_all add: lo_def in_use_def c)
  have U: "uses np (in_use s) (m_pcs s) = Suc (uses np (in_use ?t) (m_pcs s))"
    by (simp add: uses_def use)
  have D: "q_used (m_q s) - 1 = word_of_nat (uses np (in_use ?t) (m_pcs s))"
  proof -
    have "q_used (m_q s) = word_of_nat (uses np (in_use s) (m_pcs s))"
      using C by (simp only: counters_ok_def)
    also have "\<dots> = 1 + word_of_nat (uses np (in_use ?t) (m_pcs s))"
      by (simp only: U of_nat_Suc)
    finally have "q_used (m_q s) = 1 + word_of_nat (uses np (in_use ?t) (m_pcs s))" .
    then show ?thesis
      by (rule ssubst) (rule add_diff_cancel_left')
  qed
  have "lo ?t \<le> hi s" "in_use ?t + cnt np is_Alloc (m_pcs s) \<le> unat N"
    using C K(1) lo(2) use by (simp_all add: counters_ok_def)
  with C D have "counters_ok N np ?t"
    by (simp add: counters_ok_def)
  moreover have "tickets_ok N np ?t"
  proof -
    have "ticket_ok N ?t q (m_pcs s q)" if q: "q < np" for q
    proof -
      have "\<not> has_ticket ?T (m_pcs s q)"
        using K(2) q by (auto simp: pending_def)
      moreover have "ticket_ok N s q (m_pcs s q)"
        using T q by (simp add: tickets_ok_def)
      ultimately show ?thesis
        using lo by (cases "m_pcs s q") (auto simp: ticket_at_def)
    qed
    then show ?thesis by (simp add: tickets_ok_def)
  qed
  moreover have "slots_ok N np ?t"
  proof -
    have gone: "\<not> q_valid (m_q s) ! (?T mod unat N)"
      using S K(1) lo(1) c by (simp add: slots_ok_def)
    have "\<not> q_valid (m_q s) ! d"
      if "d < unat N" "\<forall>h. Suc ?T \<le> h \<and> h < hi s \<longrightarrow> h mod unat N \<noteq> d" for d
    proof (cases "?T mod unat N = d")
      case False
      then have "\<forall>h. ?T \<le> h \<and> h < hi s \<longrightarrow> h mod unat N \<noteq> d"
        using that(2) by (metis Suc_leI le_neq_implies_less)
      with S that(1) lo(1) show ?thesis by (simp add: slots_ok_def)
    qed (use gone in simp)
    then show ?thesis
      using S lo c by (simp add: slots_ok_def)
  qed
  ultimately show ?thesis
    using inv K by (simp add: minv_def)
qed

lemma minv_pop_tail:
  assumes inv: "minv N np s" and c: "m_cpc s = CReleased x"
  shows "minv N np (s\<lparr>m_q := (m_q s)\<lparr>q_tail := q_tail (m_q s) + 1\<rparr>, m_cpc := CIdle,
      m_out := m_out s @ [x]\<rparr>)" (is "minv N np ?t")
proof -
  let ?T = "length (m_out s)"
  have C: "counters_ok N np s" and S: "slots_ok N np s" and T: "tickets_ok N np s"
    and K: "?T < hi s" "snd (m_alloc s ! ?T) = x" "m_out s = map snd (take ?T (m_alloc s))"
    using inv c by (simp_all add: minv_def)
  have lo: "lo s = Suc ?T" "lo ?t = Suc ?T" "in_use ?t = in_use s"
    by (simp_all add: lo_def in_use_def c)
  have "ticket_ok N ?t q d = ticket_ok N s q d" for q d
    by (cases d) (simp_all add: ticket_at_def lo)
  then have "tickets_ok N np ?t"
    using T by (simp add: tickets_ok_def)
  moreover have "counters_ok N np ?t"
    using C lo by (simp add: counters_ok_def)
  moreover have "slots_ok N np ?t"
    using S lo c by (auto simp: slots_ok_def)
  moreover have "m_out s @ [x] = map snd (take (Suc ?T) (m_alloc s))"
    using K by (simp add: take_Suc_conv_app_nth)
  ultimately show ?thesis
    using K by (simp add: minv_def)
qed

lemma mstep_inv:
  assumes "mstep N np s t" "mpsc_cfg N np" "minv N np s"
  shows "minv N np t"
  using assms
proof (induction rule: mstep.induct)
  case (pop_valid s)
  then show ?case
    using tail_valid [of N np s] by (intro minv_consumer_local) simp_all
next
  case (pop_move s)
  let ?T = "length (m_out s)"
  have K: "?T < hi s" "\<not> pending np (m_pcs s) ?T" and S: "slots_ok N np s"
    using pop_move by (simp_all add: minv_def)
  then have "q_data (m_q s) ! (?T mod unat N) = snd (m_alloc s ! ?T)"
    using in_slot_pending [of np "m_pcs s" ?T] pop_move.hyps by (auto simp: slots_ok_def lo_def)
  with pop_move K show ?case
    by (intro minv_consumer_local) (simp_all add: tail_slot)
next
  case (pop_used s)
  then show ?case by (intro minv_consumer_local) simp_all
next
  case (pop_invalid s)
  then show ?case by (intro minv_consumer_local) simp_all
qed (auto intro: minv_push_used minv_push_full minv_push_undo minv_push_lost minv_push_head
    minv_push_data minv_push_valid minv_pop_invalidate minv_pop_release minv_pop_tail)

lemma minv_init: "mpsc_cfg N np \<Longrightarrow> minv N np (msys_init N dflt)"
proof -
  assume cfg: "mpsc_cfg N np"
  have "cnt np Q (\<lambda>_. c) = (if Q c then np else 0)" for Q and c :: "'a ppc"
    by (simp add: cnt_def)
  with cfg show ?thesis
    by (simp add: minv_def counters_ok_def tickets_ok_def slots_ok_def msys_init_def mpsc_new_def
        lo_def in_use_def uses_def)
qed

lemma mreach_inv: "mreach N np dflt s \<Longrightarrow> mpsc_cfg N np \<Longrightarrow> minv N np s"
  by (induction rule: mreach.induct) (auto intro: minv_init mstep_inv)

subsection \<open>The queue as a bounded FIFO\<close>

text \<open>Popping until the queue is empty, with what was popped; fuel bounds the number of calls.\<close>

fun get_all :: "('q \<Rightarrow> 'a option \<times> 'q) \<Rightarrow> nat \<Rightarrow> 'q \<Rightarrow> ('a list \<times> 'q) option" where
  "get_all get 0 q = None"
| "get_all get (Suc n) q = (case get q of
     (None, q') \<Rightarrow> Some ([], q')
   | (Some x, q') \<Rightarrow> map_option (\<lambda>(xs, q''). (x # xs, q'')) (get_all get n q'))"

text \<open>
  The contract the clients of the queue rely on: a store that holds a list of at most \<open>cap\<close>
  objects, \<open>put\<close> that appends or refuses, \<open>get\<close> that removes the first one.
\<close>

locale bounded_fifo =
  fixes repr :: "'q \<Rightarrow> 'a list \<Rightarrow> bool"
    and cap :: nat
    and put :: "'a \<Rightarrow> 'q \<Rightarrow> 'q"
    and get :: "'q \<Rightarrow> 'a option \<times> 'q"
  assumes put_room: "repr q xs \<Longrightarrow> length xs < cap \<Longrightarrow> repr (put x q) (xs @ [x])"
    and put_full: "repr q xs \<Longrightarrow> length xs = cap \<Longrightarrow> repr (put x q) xs"
    and repr_cap: "repr q xs \<Longrightarrow> length xs \<le> cap"
    and get_none: "repr q [] \<Longrightarrow> get q = (None, q)"
    and get_some: "repr q (x # xs) \<Longrightarrow> \<exists>q'. get q = (Some x, q') \<and> repr q' xs"
begin

lemma put_all: "repr q xs \<Longrightarrow> repr (fold put ys q) (xs @ take (cap - length xs) ys)"
proof (induction ys arbitrary: q xs)
  case (Cons y ys)
  show ?case
  proof (cases "length xs < cap")
    case True
    then have "repr (put y q) (xs @ [y])"
      by (rule put_room [OF Cons.prems])
    moreover have "cap - length xs = Suc (cap - Suc (length xs))"
      using True by simp
    ultimately show ?thesis
      using Cons.IH by fastforce
  next
    case False
    then have "length xs = cap"
      using repr_cap [OF Cons.prems] by simp
    with Cons.IH [OF put_full [OF Cons.prems]] show ?thesis
      by simp
  qed
qed simp

lemma get_all_repr:
  "repr q xs \<Longrightarrow> length xs < n \<Longrightarrow> \<exists>q'. get_all get n q = Some (xs, q') \<and> repr q' []"
proof (induction n arbitrary: q xs)
  case (Suc n)
  show ?case
  proof (cases xs)
    case Nil
    with get_none Suc.prems show ?thesis by auto
  next
    case (Cons x xs')
    with Suc.prems obtain q' where q': "get q = (Some x, q')" "repr q' xs'"
      using get_some by blast
    with Suc.IH [OF q'(2)] Suc.prems Cons show ?thesis by auto
  qed
qed simp

end

text \<open>The index of the slot \<open>i\<close> places behind the tail, and the queue holding a list.\<close>

definition mpsc_slot :: "u64 \<Rightarrow> 'a mpsc \<Rightarrow> nat \<Rightarrow> nat" where
  "mpsc_slot N q i = (unat (q_tail q) + i) mod unat N"

definition mpsc_repr :: "u64 \<Rightarrow> 'a mpsc \<Rightarrow> 'a list \<Rightarrow> bool" where
  "mpsc_repr N q xs \<longleftrightarrow>
     length (q_valid q) = unat N \<and> length (q_data q) = unat N \<and> length xs \<le> unat N \<and>
     q_used q = word_of_nat (length xs) \<and> q_head q = q_tail q + word_of_nat (length xs) \<and>
     (\<forall>i < unat N. q_valid q ! mpsc_slot N q i \<longleftrightarrow> i < length xs) \<and>
     (\<forall>i < length xs. q_data q ! mpsc_slot N q i = xs ! i)"

definition mpsc_size_ok :: "u64 \<Rightarrow> bool" where
  "mpsc_size_ok N \<longleftrightarrow> (\<exists>k < 64. N = 2 ^ k)"

lemma mpsc_size_cfg: "mpsc_size_ok N \<Longrightarrow> mpsc_cfg N 0"
  by (simp add: mpsc_size_ok_def mpsc_cfg_def del: u64_lt) (rule less_le_trans [OF u64_lt], simp)

lemma mpsc_size_pos: "mpsc_size_ok N \<Longrightarrow> 0 < unat N"
  by (rule mpsc_cfg_pos [OF mpsc_size_cfg])

lemma mpsc_index_add:
  assumes "mpsc_size_ok N"
  shows "unat (w + word_of_nat n AND (N - 1)) = (unat w + n) mod unat N"
proof -
  have "w + word_of_nat n = word_of_nat (unat w + n)"
    by simp
  then show ?thesis
    by (simp only: mpsc_index [OF mpsc_size_cfg [OF assms]])
qed

lemma mpsc_slot_lt: "mpsc_size_ok N \<Longrightarrow> mpsc_slot N q i < unat N"
  by (simp add: mpsc_slot_def mpsc_size_pos)

lemma mpsc_slot_inj:
  assumes "mpsc_slot N q i = mpsc_slot N q j" "i < unat N" "j < unat N"
  shows "i = j"
proof (cases "i \<le> j")
  case True
  with mod_eq_near [of "unat (q_tail q) + i" "unat N" "unat (q_tail q) + j"] assms show ?thesis
    by (simp add: mpsc_slot_def)
next
  case False
  with mod_eq_near [of "unat (q_tail q) + j" "unat N" "unat (q_tail q) + i"] assms show ?thesis
    by (simp add: mpsc_slot_def)
qed

lemma mpsc_repr_new: "mpsc_size_ok N \<Longrightarrow> mpsc_repr N (mpsc_new N dflt) []"
  by (simp add: mpsc_repr_def mpsc_new_def mpsc_slot_lt)

lemma mpsc_push_full:
  assumes "mpsc_size_ok N" "mpsc_repr N q xs" "length xs = unat N"
  shows "fst (mpsc_push N x q) = N" "mpsc_repr N (snd (mpsc_push N x q)) xs"
    "q_lost (snd (mpsc_push N x q)) = q_lost q + 1"
proof -
  have "q_used q = N"
    using assms by (simp add: mpsc_repr_def)
  then show "fst (mpsc_push N x q) = N" "mpsc_repr N (snd (mpsc_push N x q)) xs"
    "q_lost (snd (mpsc_push N x q)) = q_lost q + 1"
    using assms by (simp_all add: mpsc_push_def mpsc_repr_def mpsc_slot_def)
qed

lemma mpsc_used_unat: "mpsc_repr N q xs \<Longrightarrow> unat (q_used q) = length xs"
proof -
  assume r: "mpsc_repr N q xs"
  then have "length xs < 2 ^ 64"
    using u64_lt [of N] by (simp add: mpsc_repr_def del: u64_lt)
  with r show ?thesis
    by (simp add: mpsc_repr_def unat_word_of_nat_u64)
qed

lemma mpsc_push_room:
  assumes cfg: "mpsc_size_ok N" and r: "mpsc_repr N q xs" and room: "length xs < unat N"
  shows "fst (mpsc_push N x q) = word_of_nat (length xs)"
    "mpsc_repr N (snd (mpsc_push N x q)) (xs @ [x])"
    "q_lost (snd (mpsc_push N x q)) = q_lost q"
proof -
  have used: "\<not> N \<le> q_used q"
    using mpsc_used_unat [OF r] room by (simp add: word_le_nat_alt)
  have h: "unat (q_head q AND (N - 1)) = mpsc_slot N q (length xs)"
    using r by (simp add: mpsc_repr_def mpsc_slot_def mpsc_index_add [OF cfg])
  let ?q = "snd (mpsc_push N x q)"
  have q: "?q = q\<lparr>q_used := q_used q + 1, q_head := q_head q + 1,
      q_data := (q_data q)[mpsc_slot N q (length xs) := x],
      q_valid := (q_valid q)[mpsc_slot N q (length xs) := True]\<rparr>"
    using used by (simp add: mpsc_push_def h Let_def)
  have slot: "mpsc_slot N ?q i = mpsc_slot N q i" for i
    by (simp add: q mpsc_slot_def)
  have inj: "mpsc_slot N q i = mpsc_slot N q (length xs) \<longleftrightarrow> i = length xs" if "i < unat N" for i
    using mpsc_slot_inj [OF _ that room] by auto
  have "q_valid ?q ! mpsc_slot N q i \<longleftrightarrow> i < Suc (length xs)" if "i < unat N" for i
    using r inj [OF that] mpsc_slot_lt [OF cfg, of q i] that
    by (auto simp: q mpsc_repr_def nth_list_update)
  moreover have "q_data ?q ! mpsc_slot N q i = (xs @ [x]) ! i" if "i < Suc (length xs)" for i
  proof -
    have "i < unat N" using that room by simp
    with r inj [of i] mpsc_slot_lt [OF cfg, of q i] that show ?thesis
      by (auto simp: q mpsc_repr_def nth_list_update nth_append)
  qed
  moreover have "q_used ?q = word_of_nat (Suc (length xs))"
    "q_head ?q = q_tail ?q + word_of_nat (Suc (length xs))"
    using r by (simp_all add: q mpsc_repr_def)
  ultimately show "mpsc_repr N ?q (xs @ [x])"
    using r room by (simp add: mpsc_repr_def slot del: of_nat_Suc) (simp add: q)
  show "fst (mpsc_push N x q) = word_of_nat (length xs)"
    using r used by (simp add: mpsc_push_def mpsc_repr_def Let_def)
  show "q_lost ?q = q_lost q"
    by (simp add: q)
qed

lemma mpsc_pop_none: "mpsc_repr N q [] \<Longrightarrow> mpsc_pop N q = (None, q)"
  by (simp add: mpsc_pop_def mpsc_repr_def)

lemma mpsc_pop_some:
  assumes cfg: "mpsc_size_ok N" and r: "mpsc_repr N q (x # xs)"
  shows "\<exists>q'. mpsc_pop N q = (Some x, q') \<and> mpsc_repr N q' xs"
proof -
  let ?t = "mpsc_slot N q 0"
  let ?q = "q\<lparr>q_valid := (q_valid q)[?t := False], q_used := q_used q - 1,
      q_tail := q_tail q + 1\<rparr>"
  have "unat (q_used q) \<noteq> 0"
    using mpsc_used_unat [OF r] by simp
  then have used: "q_used q \<noteq> 0"
    by auto
  have t: "unat (q_tail q AND (N - 1)) = ?t"
    using mpsc_index_add [OF cfg, of "q_tail q" 0] by (simp add: mpsc_slot_def)
  have pos: "0 < unat N"
    by (rule mpsc_size_pos [OF cfg])
  have "q_valid q ! ?t" "q_data q ! ?t = x"
    using r pos by (auto simp: mpsc_repr_def)
  then have pop: "mpsc_pop N q = (Some x, ?q)"
    using used by (simp add: mpsc_pop_def t)
  have tail: "unat (q_tail q + 1) mod unat N = (unat (q_tail q) + 1) mod unat N"
    using mpsc_index_add [OF cfg, of "q_tail q" 1] mpsc_index_add [OF cfg, of "q_tail q + 1" 0]
    by simp
  have slot: "mpsc_slot N ?q i = mpsc_slot N q (Suc i)" for i
    using mod_add_left_eq [of "unat (q_tail q + 1)" "unat N" i]
      mod_add_left_eq [of "unat (q_tail q) + 1" "unat N" i] tail
    by (simp add: mpsc_slot_def)
  have last: "mpsc_slot N q (unat N) = ?t"
    by (simp add: mpsc_slot_def)
  have "q_valid ?q ! mpsc_slot N q (Suc i) \<longleftrightarrow> i < length xs" if "i < unat N" for i
  proof (cases "Suc i = unat N")
    case True
    have "?t < length (q_valid q)" "length xs \<le> i"
      using r mpsc_slot_lt [OF cfg, of q 0] True by (simp_all add: mpsc_repr_def)
    with True last show ?thesis by simp
  next
    case False
    then have "Suc i < unat N" using that by simp
    moreover from this have "mpsc_slot N q (Suc i) \<noteq> ?t"
      using mpsc_slot_inj [of N q "Suc i" 0] pos by auto
    ultimately show ?thesis
      using r by (simp add: mpsc_repr_def)
  qed
  moreover have "q_data ?q ! mpsc_slot N q (Suc i) = xs ! i" if "i < length xs" for i
    using r that by (auto simp: mpsc_repr_def)
  moreover have "q_used ?q = word_of_nat (length xs)" "q_head ?q = q_tail ?q + word_of_nat (length xs)"
    using r by (simp_all add: mpsc_repr_def)
  moreover have "length (q_valid ?q) = unat N" "length (q_data ?q) = unat N" "length xs \<le> unat N"
    using r by (simp_all add: mpsc_repr_def)
  ultimately have "mpsc_repr N ?q xs"
    unfolding mpsc_repr_def slot by blast
  with pop show ?thesis by blast
qed

text \<open>The interface, for the queue of 1024 entries that \<^verbatim>\<open>src/logging.hpp\<close> declares.\<close>

definition log_capacity :: u64 where
  "log_capacity = 1024"

lemma log_capacity_ok: "mpsc_size_ok log_capacity"
  unfolding mpsc_size_ok_def log_capacity_def by (rule exI [of _ 10]) simp

interpretation log_fifo: bounded_fifo "mpsc_repr log_capacity" "unat log_capacity"
  "\<lambda>x q. snd (mpsc_push log_capacity x q)" "mpsc_pop log_capacity"
proof unfold_locales
  fix q and xs :: "'a list" and x
  assume r: "mpsc_repr log_capacity q xs"
  show "mpsc_repr log_capacity (snd (mpsc_push log_capacity x q)) (xs @ [x])"
    if "length xs < unat log_capacity"
    by (rule mpsc_push_room (2) [OF log_capacity_ok r that])
  show "mpsc_repr log_capacity (snd (mpsc_push log_capacity x q)) xs"
    if "length xs = unat log_capacity"
    by (rule mpsc_push_full (2) [OF log_capacity_ok r that])
  show "length xs \<le> unat log_capacity"
    using r by (simp add: mpsc_repr_def)
qed (auto intro: mpsc_pop_none mpsc_pop_some log_capacity_ok)

subsection \<open>The calls are sequences of the steps\<close>

text \<open>A call of \<open>push\<close> that nothing interrupts runs the producer's steps one after the other.\<close>

lemma mstep_trans: "mreach N np d s \<Longrightarrow> mstep N np s t \<Longrightarrow> mreach N np d t"
  by (rule mreach.step)

definition push_effect :: "u64 \<Rightarrow> nat \<Rightarrow> 'a \<Rightarrow> 'a msys \<Rightarrow> 'a msys" where
  "push_effect N p x s = s\<lparr>m_q := snd (mpsc_push N x (m_q s)),
     m_alloc := m_alloc s @ (if N \<le> q_used (m_q s) then [] else [(p, x)])\<rparr>"

lemma push_runs_full:
  assumes "p < np" "m_pcs s p = Idle" "N \<le> q_used (m_q s)"
  shows "(mstep N np)\<^sup>*\<^sup>* s (push_effect N p x s)"
proof -
  let ?s1 = "s\<lparr>m_q := (m_q s)\<lparr>q_used := q_used (m_q s) + 1\<rparr>, m_pcs := (m_pcs s)(p := Full)\<rparr>"
  let ?s2 = "?s1\<lparr>m_q := (m_q ?s1)\<lparr>q_used := q_used (m_q ?s1) - 1\<rparr>,
      m_pcs := (m_pcs ?s1)(p := Undone)\<rparr>"
  let ?s3 = "?s2\<lparr>m_q := (m_q ?s2)\<lparr>q_lost := q_lost (m_q ?s2) + 1\<rparr>,
      m_pcs := (m_pcs ?s2)(p := Idle)\<rparr>"
  have "mstep N np s ?s1"
    by (rule push_full) fact+
  moreover have "mstep N np ?s1 ?s2"
    by (rule push_undo) (use assms(1) in simp_all)
  moreover have "mstep N np ?s2 ?s3"
    by (rule push_lost) (use assms(1) in simp_all)
  moreover have "?s3 = push_effect N p x s"
    using assms by (auto simp: push_effect_def mpsc_push_def Let_def fun_upd_idem)
  ultimately show ?thesis
    by (rule steps3)
qed

lemma push_runs_room:
  assumes "p < np" "m_pcs s p = Idle" "\<not> N \<le> q_used (m_q s)"
  shows "(mstep N np)\<^sup>*\<^sup>* s (push_effect N p x s)"
proof -
  let ?i = "q_head (m_q s) AND (N - 1)" and ?g = "length (m_alloc s)"
  let ?s1 = "s\<lparr>m_q := (m_q s)\<lparr>q_used := q_used (m_q s) + 1\<rparr>, m_pcs := (m_pcs s)(p := Alloc x)\<rparr>"
  let ?s2 = "?s1\<lparr>m_q := (m_q ?s1)\<lparr>q_head := q_head (m_q ?s1) + 1\<rparr>,
      m_pcs := (m_pcs ?s1)(p := Slot x (q_head (m_q ?s1) AND (N - 1)) (length (m_alloc ?s1))),
      m_alloc := m_alloc ?s1 @ [(p, x)]\<rparr>"
  let ?s3 = "?s2\<lparr>m_q := (m_q ?s2)\<lparr>q_data := (q_data (m_q ?s2))[unat ?i := x]\<rparr>,
      m_pcs := (m_pcs ?s2)(p := Written x ?i ?g)\<rparr>"
  let ?s4 = "?s3\<lparr>m_q := (m_q ?s3)\<lparr>q_valid := (q_valid (m_q ?s3))[unat ?i := True]\<rparr>,
      m_pcs := (m_pcs ?s3)(p := Idle)\<rparr>"
  have "mstep N np s ?s1"
    by (rule push_used) fact+
  moreover have "mstep N np ?s1 ?s2"
    by (rule push_head) (use assms(1) in simp_all)
  moreover have "mstep N np ?s2 ?s3"
    by (rule push_data) (use assms(1) in simp_all)
  moreover have "mstep N np ?s3 ?s4"
    by (rule push_valid) (use assms(1) in simp_all)
  moreover have "?s4 = push_effect N p x s"
    using assms by (auto simp: push_effect_def mpsc_push_def Let_def fun_upd_idem)
  ultimately show ?thesis
    by (rule steps4)
qed

text \<open>Likewise a call of \<open>pop\<close>.\<close>

definition pop_effect :: "u64 \<Rightarrow> 'a msys \<Rightarrow> 'a msys" where
  "pop_effect N s = s\<lparr>m_q := snd (mpsc_pop N (m_q s)),
     m_out := m_out s @ (case fst (mpsc_pop N (m_q s)) of None \<Rightarrow> [] | Some x \<Rightarrow> [x])\<rparr>"

lemma pop_runs_none:
  assumes "m_cpc s = CIdle" "fst (mpsc_pop N (m_q s)) = None"
  shows "(mstep N np)\<^sup>*\<^sup>* s (pop_effect N s)"
proof (cases "q_used (m_q s) = 0")
  case True
  then have "pop_effect N s = s"
    by (simp add: pop_effect_def mpsc_pop_def)
  then show ?thesis by simp
next
  case False
  let ?s1 = "s\<lparr>m_cpc := CUsed\<rparr>"
  have inv: "\<not> q_valid (m_q s) ! unat (q_tail (m_q s) AND (N - 1))"
    using assms(2) False by (auto simp: mpsc_pop_def Let_def split: if_splits)
  have "mstep N np s ?s1"
    by (rule pop_used) fact+
  moreover have "mstep N np ?s1 (?s1\<lparr>m_cpc := CIdle\<rparr>)"
    by (rule pop_invalid) (use inv in simp_all)
  moreover have "?s1\<lparr>m_cpc := CIdle\<rparr> = pop_effect N s"
    using assms(1) inv False by (simp add: pop_effect_def mpsc_pop_def Let_def)
  ultimately show ?thesis
    by (rule steps2)
qed

lemma pop_runs_some:
  assumes "m_cpc s = CIdle" "fst (mpsc_pop N (m_q s)) = Some x"
  shows "(mstep N np)\<^sup>*\<^sup>* s (pop_effect N s)"
proof -
  let ?i = "unat (q_tail (m_q s) AND (N - 1))"
  have pop: "q_used (m_q s) \<noteq> 0" "q_valid (m_q s) ! ?i" "q_data (m_q s) ! ?i = x"
    using assms(2) by (auto simp: mpsc_pop_def Let_def split: if_splits)
  let ?s1 = "s\<lparr>m_cpc := CUsed\<rparr>"
  let ?s2 = "?s1\<lparr>m_cpc := CValid\<rparr>"
  let ?s3 = "?s2\<lparr>m_cpc := CMoved (q_data (m_q ?s2) ! ?i)\<rparr>"
  let ?s4 = "?s3\<lparr>m_q := (m_q ?s3)\<lparr>q_valid := (q_valid (m_q ?s3))[?i := False]\<rparr>,
      m_cpc := CInvalidated x\<rparr>"
  let ?s5 = "?s4\<lparr>m_q := (m_q ?s4)\<lparr>q_used := q_used (m_q ?s4) - 1\<rparr>, m_cpc := CReleased x\<rparr>"
  let ?s6 = "?s5\<lparr>m_q := (m_q ?s5)\<lparr>q_tail := q_tail (m_q ?s5) + 1\<rparr>, m_cpc := CIdle,
      m_out := m_out ?s5 @ [x]\<rparr>"
  have "mstep N np s ?s1"
    by (rule pop_used) fact+
  moreover have "mstep N np ?s1 ?s2"
    by (rule pop_valid) (use pop in simp_all)
  moreover have "mstep N np ?s2 ?s3"
    using pop_move [of ?s2 N np] by simp
  moreover have "mstep N np ?s3 ?s4"
    using pop_invalidate [of ?s3 x N np] pop by simp
  moreover have "mstep N np ?s4 ?s5"
    by (rule pop_release) simp
  moreover have "mstep N np ?s5 ?s6"
    by (rule pop_tail) simp
  moreover have "?s6 = pop_effect N s"
    using assms pop by (simp add: pop_effect_def mpsc_pop_def Let_def)
  ultimately show ?thesis
    by (rule steps6)
qed

lemma mreach_steps: "(mstep N np)\<^sup>*\<^sup>* s t \<Longrightarrow> mreach N np d s \<Longrightarrow> mreach N np d t"
  by (induction rule: rtranclp_induct) (auto intro: mreach.step)

lemma push_runs:
  "p < np \<Longrightarrow> m_pcs s p = Idle \<Longrightarrow> (mstep N np)\<^sup>*\<^sup>* s (push_effect N p x s)"
  by (cases "N \<le> q_used (m_q s)") (auto intro: push_runs_full push_runs_room)

lemma pop_runs: "m_cpc s = CIdle \<Longrightarrow> (mstep N np)\<^sup>*\<^sup>* s (pop_effect N s)"
  by (cases "fst (mpsc_pop N (m_q s))") (auto intro: pop_runs_none pop_runs_some)

subsection \<open>Nothing runs\<close>

definition quiescent :: "nat \<Rightarrow> 'a msys \<Rightarrow> bool" where
  "quiescent np s \<longleftrightarrow> (\<forall>p < np. m_pcs s p = Idle) \<and> m_cpc s = CIdle"

lemma quiescent_cnt: "quiescent np s \<Longrightarrow> \<not> Q Idle \<Longrightarrow> cnt np Q (m_pcs s) = 0"
  by (simp add: quiescent_def cnt_def)

lemma minv_quiescent:
  assumes cfg: "mpsc_size_ok N" "mpsc_cfg N np" and inv: "minv N np s" and q: "quiescent np s"
  shows "mpsc_repr N (m_q s) (map snd (drop (length (m_out s)) (m_alloc s)))"
proof -
  let ?T = "length (m_out s)" and ?xs = "map snd (drop (length (m_out s)) (m_alloc s))"
  have C: "counters_ok N np s" and S: "slots_ok N np s"
    using inv by (simp_all add: minv_def)
  have lo: "lo s = ?T" "in_use s = length ?xs" "?T \<le> hi s"
    using q C by (simp_all add: quiescent_def lo_def in_use_def counters_ok_def)
  have free: "cnt np is_Alloc (m_pcs s) = 0" "cnt np is_Full (m_pcs s) = 0"
    by (rule quiescent_cnt [OF q], simp)+
  have pend: "\<not> pending np (m_pcs s) g" "\<not> in_slot np (m_pcs s) g" "\<not> is_CInvalidated (m_cpc s)" for g
    using q by (auto simp: quiescent_def pending_def in_slot_def)
  have slot: "mpsc_slot N (m_q s) i = (?T + i) mod unat N" for i
  proof -
    have "mpsc_slot N (m_q s) i = unat (q_tail (m_q s) + word_of_nat i AND (N - 1))"
      by (simp add: mpsc_slot_def mpsc_index_add [OF cfg(1)])
    also have "q_tail (m_q s) + word_of_nat i = word_of_nat (?T + i)"
      using C by (simp add: counters_ok_def)
    finally show ?thesis
      by (simp only: mpsc_index [OF cfg(2)])
  qed
  have "q_valid (m_q s) ! mpsc_slot N (m_q s) i \<longleftrightarrow> i < length ?xs" if i: "i < unat N" for i
  proof (cases "i < length ?xs")
    case True
    with S lo pend show ?thesis by (simp add: slots_ok_def slot)
  next
    case False
    have "g mod unat N \<noteq> (?T + i) mod unat N" if "?T \<le> g" "g < hi s" for g
    proof
      assume eq: "g mod unat N = (?T + i) mod unat N"
      have "hi s \<le> ?T + i"
        using False by simp
      with mod_eq_near [OF eq] i that show False by linarith
    qed
    moreover have "(?T + i) mod unat N < unat N"
      using mpsc_size_pos [OF cfg(1)] by simp
    ultimately show ?thesis
      using S lo False by (auto simp: slots_ok_def slot)
  qed
  moreover have "q_data (m_q s) ! mpsc_slot N (m_q s) i = ?xs ! i" if "i < length ?xs" for i
    using S lo pend that by (simp add: slots_ok_def slot)
  moreover have "q_used (m_q s) = word_of_nat (length ?xs)" "length ?xs \<le> unat N"
    using C free lo(2) unfolding counters_ok_def uses_def by simp_all
  moreover have "q_head (m_q s) = q_tail (m_q s) + word_of_nat (length ?xs)"
  proof -
    have "q_head (m_q s) = word_of_nat (?T + length ?xs)"
      using C lo(3) by (simp add: counters_ok_def)
    then show ?thesis
      using C by (simp add: counters_ok_def)
  qed
  ultimately show ?thesis
    using S unfolding mpsc_repr_def slots_ok_def by blast
qed

subsection \<open>A small run\<close>

text \<open>Two slots, two producers: each pushes one object and one is popped.\<close>

definition demo_pushed :: "nat msys" where
  "demo_pushed = push_effect 2 1 6 (push_effect 2 0 5 (msys_init 2 0))"

definition demo_popped :: "nat msys" where
  "demo_popped = pop_effect 2 demo_pushed"

text \<open>And a state in which producer 1 is about to write its slot.\<close>

definition demo_slot :: "nat msys" where
  "demo_slot = (let s = push_effect 2 0 5 (msys_init 2 0);
     t = s\<lparr>m_q := (m_q s)\<lparr>q_used := q_used (m_q s) + 1\<rparr>, m_pcs := (m_pcs s)(1 := Alloc 6)\<rparr>
   in t\<lparr>m_q := (m_q t)\<lparr>q_head := q_head (m_q t) + 1\<rparr>,
      m_pcs := (m_pcs t)(1 := Slot 6 (q_head (m_q t) AND (2 - 1)) (length (m_alloc t))),
      m_alloc := m_alloc t @ [(1, 6)]\<rparr>)"

lemma demo_cfg: "mpsc_cfg 2 2"
  by (auto simp: mpsc_cfg_def intro: exI [of _ "1 :: nat"])

lemma replicate_two: "replicate 2 x = [x, x]"
  by (simp add: numeral_2_eq_2)

lemmas demo_defs = demo_pushed_def demo_popped_def demo_slot_def push_effect_def pop_effect_def
  msys_init_def mpsc_new_def mpsc_push_def mpsc_pop_def Let_def replicate_two word_le_nat_alt

lemma demo_push0: "mreach 2 2 0 (push_effect 2 0 5 (msys_init 2 (0 :: nat)))"
  by (rule mreach_steps [OF push_runs mreach.start]) (simp_all add: msys_init_def)

lemma demo_reach: "mreach 2 2 0 demo_pushed" "mreach 2 2 0 demo_popped" "mreach 2 2 0 demo_slot"
proof -
  show 1: "mreach 2 2 0 demo_pushed"
    unfolding demo_pushed_def
    by (rule mreach_steps [OF push_runs demo_push0]) (simp_all add: push_effect_def msys_init_def)
  show "mreach 2 2 0 demo_popped"
    unfolding demo_popped_def
    by (rule mreach_steps [OF pop_runs 1]) (simp add: demo_pushed_def push_effect_def msys_init_def)
  show "mreach 2 2 0 demo_slot"
    unfolding demo_slot_def Let_def
    by (rule mreach.step [OF mreach.step [OF demo_push0 push_used] push_head])
      (simp_all add: push_effect_def msys_init_def mpsc_new_def mpsc_push_def Let_def word_le_nat_alt)
qed

lemma demo_quiet: "quiescent 2 demo_popped" "m_cpc demo_slot = CIdle" "m_pcs demo_slot 1 = Slot 6 1 1"
  "m_cpc demo_pushed = CIdle" "m_pcs demo_pushed 0 = Idle" "m_alloc demo_popped = [(0, 5), (1, 6)]"
  "m_out demo_popped = [5]" "q_used (m_q demo_pushed) = 2"
  by (simp_all add: demo_defs quiescent_def)

subsection \<open>The properties\<close>

text \<open>
  C5. In every interleaving of any number of producers with the consumer, the consumer obtains
  the objects in the order of their accepted pushes, none lost, duplicated or invented; so it
  sees, of every producer, a prefix of what that producer pushed, in order.
\<close>

theorem mpsc_fifo:
  fixes dflt :: 'a
  assumes "mpsc_cfg N np" "mreach N np dflt s"
  shows "\<exists>k \<le> length (m_alloc s). m_out s = map snd (take k (m_alloc s)) \<and>
    (\<forall>p. filter (\<lambda>e. fst e = p) (take k (m_alloc s)) =
       take (length (filter (\<lambda>e. fst e = p) (take k (m_alloc s))))
         (filter (\<lambda>e. fst e = p) (m_alloc s)))"
proof (intro exI [of _ "length (m_out s)"] conjI allI)
  have inv: "minv N np s"
    using assms by (rule_tac mreach_inv)
  then show "length (m_out s) \<le> hi s"
    by (auto simp: minv_def counters_ok_def lo_def split: if_splits)
  show "m_out s = map snd (take (length (m_out s)) (m_alloc s))"
    using inv by (simp add: minv_def)
  fix p
  let ?k = "length (m_out s)" and ?f = "filter (\<lambda>e :: nat \<times> 'a. fst e = p)"
  have "?f (m_alloc s) = ?f (take ?k (m_alloc s)) @ ?f (drop ?k (m_alloc s))"
    by (simp flip: filter_append)
  then show "?f (take ?k (m_alloc s)) = take (length (?f (take ?k (m_alloc s)))) (?f (m_alloc s))"
    by simp
qed

text \<open>
  C12. The slot a producer is about to fill is never valid, never the slot of another producer
  and never one the consumer is reading: the test's \<^verbatim>\<open>"producer got valid slot"\<close> is unreachable.
\<close>

theorem mpsc_slot_exclusive:
  assumes "mpsc_cfg N np" "mreach N np dflt s" "p < np" "m_pcs s p = Slot x i g"
  shows "unat i < unat N \<and> \<not> q_valid (m_q s) ! unat i \<and>
    (\<forall>q < np. \<forall>y h. m_pcs s q = Slot y i h \<or> m_pcs s q = Written y i h \<longrightarrow> q = p) \<and>
    (m_cpc s = CValid \<longrightarrow> unat (q_tail (m_q s) AND (N - 1)) \<noteq> unat i)"
proof -
  have inv: "minv N np s"
    using assms by (rule_tac mreach_inv)
  then have C: "counters_ok N np s" and S: "slots_ok N np s" and T: "tickets_ok N np s"
    by (simp_all add: minv_def)
  have g: "lo s \<le> g" "g < hi s" "unat i = g mod unat N"
    using T assms(3,4) by (auto simp: tickets_ok_def ticket_at_def)
  have pend: "pending np (m_pcs s) g"
    using assms(3,4) by (auto simp: pending_def)
  have "q = p" if q: "q < np" "m_pcs s q = Slot y i h \<or> m_pcs s q = Written y i h" for q y h
  proof -
    have "lo s \<le> h" "h < hi s" "unat i = h mod unat N"
      using T q by (auto simp: tickets_ok_def ticket_at_def)
    with slots_distinct [OF C g(1,2)] g(3) have "h = g" by metis
    with q assms(3,4) show ?thesis
      by (intro ticket_unique [OF T q(1) assms(3)]) auto
  qed
  moreover have "unat (q_tail (m_q s) AND (N - 1)) \<noteq> unat i" if c: "m_cpc s = CValid"
  proof -
    have "length (m_out s) < hi s" "\<not> pending np (m_pcs s) (length (m_out s))" "lo s = length (m_out s)"
      using inv c by (simp_all add: minv_def lo_def)
    with pend slots_distinct [OF C g(1,2)] show ?thesis
      by (metis assms(1) g(3) inv le_refl tail_slot)
  qed
  moreover have "\<not> q_valid (m_q s) ! unat i"
    using S g pend by (simp add: slots_ok_def)
  ultimately show ?thesis
    using g(3) mpsc_cfg_pos [OF assms(1)] by auto
qed

text \<open>
  The use count never wraps below zero and exceeds the capacity by at most the number of
  producers that are just being refused; the objects in the ring are at most its capacity.
\<close>

theorem mpsc_used_bound:
  assumes "mpsc_cfg N np" "mreach N np dflt s"
  shows "unat (q_used (m_q s)) \<le> unat N + cnt np is_Full (m_pcs s) \<and>
    length (m_alloc s) - lo s + cnt np is_Alloc (m_pcs s) \<le> unat N \<and>
    length (m_alloc s) - lo s \<le> unat (q_used (m_q s))"
proof -
  have C: "counters_ok N np s"
    using mreach_inv [OF assms(2,1)] by (simp add: minv_def)
  then have "in_use s + cnt np is_Alloc (m_pcs s) \<le> unat N"
    by (simp add: counters_ok_def)
  with used_unat [OF assms(1) C] show ?thesis
    by (simp add: uses_def in_use_def)
qed

text \<open>
  The functions \<open>mpsc_push\<close> and \<open>mpsc_pop\<close> are the step relation run without interruption:
  from any state, an idle producer or consumer reaches exactly the state the function returns.
\<close>

theorem mpsc_calls_are_steps:
  assumes "p < np" "m_pcs s p = Idle" "m_cpc s = CIdle"
  shows "(mstep N np)\<^sup>*\<^sup>* s (s\<lparr>m_q := snd (mpsc_push N x (m_q s)),
       m_alloc := m_alloc s @ (if N \<le> q_used (m_q s) then [] else [(p, x)])\<rparr>) \<and>
    (mstep N np)\<^sup>*\<^sup>* s (s\<lparr>m_q := snd (mpsc_pop N (m_q s)),
       m_out := m_out s @ (case fst (mpsc_pop N (m_q s)) of None \<Rightarrow> [] | Some y \<Rightarrow> [y])\<rparr>)"
  using push_runs [OF assms(1,2)] pop_runs [OF assms(3)]
  by (simp add: push_effect_def pop_effect_def)

text \<open>
  C15. Once no call is in progress, the ring holds exactly the accepted objects that were not
  popped yet: the next \<open>pop\<close> returns the oldest of them, so nothing accepted is ever stuck.
\<close>

theorem mpsc_pop_next:
  assumes "mpsc_cfg N np" "mreach N np dflt s" "quiescent np s" "length (m_out s) < length (m_alloc s)"
  shows "fst (mpsc_pop N (m_q s)) = Some (snd (m_alloc s ! length (m_out s)))"
proof -
  have ok: "mpsc_size_ok N"
    using assms(1) by (simp add: mpsc_size_ok_def mpsc_cfg_def)
  have "mpsc_repr N (m_q s) (map snd (drop (length (m_out s)) (m_alloc s)))"
    by (rule minv_quiescent [OF ok assms(1) mreach_inv [OF assms(2,1)] assms(3)])
  then have "mpsc_repr N (m_q s) (snd (m_alloc s ! length (m_out s)) #
      map snd (drop (Suc (length (m_out s))) (m_alloc s)))"
    using assms(4) by (simp flip: Cons_nth_drop_Suc)
  with mpsc_pop_some [OF ok] show ?thesis by fastforce
qed

text \<open>
  C17. The log queue of 1024 entries keeps the first 1024 messages pushed into it and refuses the
  others; draining it, as \<^verbatim>\<open>Logger::serialize_messages\<close> does, ends after at most 1025 pops and
  yields those messages in order, and leaves the queue empty.
\<close>

theorem log_queue_drains:
  assumes "1025 \<le> fuel"
  shows "\<exists>q. get_all (mpsc_pop log_capacity) fuel
      (fold (\<lambda>x q. snd (mpsc_push log_capacity x q)) msgs (mpsc_new log_capacity dflt)) =
    Some (take 1024 msgs, q) \<and> mpsc_repr log_capacity q []"
proof -
  have "mpsc_repr log_capacity (fold (\<lambda>x q. snd (mpsc_push log_capacity x q)) msgs
      (mpsc_new log_capacity dflt)) (take 1024 msgs)"
    using log_fifo.put_all [OF mpsc_repr_new [OF log_capacity_ok, of dflt], of msgs]
    by (simp add: log_capacity_def)
  then show ?thesis
    using assms by (intro log_fifo.get_all_repr) simp_all
qed

theorem mpsc_fifo_witness:
  "\<exists>k \<le> length (m_alloc demo_popped). [5] = map snd (take k (m_alloc demo_popped))"
  using mpsc_fifo [OF demo_cfg demo_reach(2)] by (auto simp: demo_quiet)

theorem mpsc_slot_exclusive_witness: "\<not> q_valid (m_q demo_slot) ! 1"
  using mpsc_slot_exclusive [OF demo_cfg demo_reach(3) _ demo_quiet(3)] by simp

theorem mpsc_used_bound_witness: "unat (q_used (m_q demo_pushed)) \<le> 2 + cnt 2 is_Full (m_pcs demo_pushed)"
  using mpsc_used_bound [OF demo_cfg demo_reach(1)] by simp

theorem mpsc_calls_are_steps_witness:
  "(mstep 2 2)\<^sup>*\<^sup>* demo_pushed (demo_pushed\<lparr>m_q := snd (mpsc_push 2 7 (m_q demo_pushed))\<rparr>)"
  using mpsc_calls_are_steps [of 0 2 demo_pushed 2 7] by (simp add: demo_quiet)

theorem mpsc_pop_next_witness: "fst (mpsc_pop 2 (m_q demo_popped)) = Some 6"
  using mpsc_pop_next [OF demo_cfg demo_reach(2) demo_quiet(1)] by (simp add: demo_quiet)

theorem log_queue_drains_witness:
  "\<exists>q. get_all (mpsc_pop log_capacity) 2000
      (fold (\<lambda>x q. snd (mpsc_push log_capacity x q)) [1, 2, 3 :: nat] (mpsc_new log_capacity 0)) =
    Some ([1, 2, 3], q)"
  using log_queue_drains [of 2000 "[1, 2, 3 :: nat]" 0] by auto

end
