(* ===== verification/Rx.thy ===== *)
theory Rx
  imports Ringbuf Text
begin

text \<open>
  The receive thread of \<^verbatim>\<open>src/rx.cpp\<close> and \<^verbatim>\<open>src/rx.hpp\<close>: it receives packets of all channels from
  the radio and places their samples in the ring buffers so that the index of a sample is its
  time stamp minus the start time, padding lost samples with zeros. The radio is a parameter:
  what a call of \<open>recv\<close> returns is a function of the number of samples asked for, and a run of
  the thread is given by the list of these functions, up to the moment \<open>run\<close> is cleared from
  outside. \<open>rx_inv\<close> is the alignment invariant of the loop.
\<close>

subsection \<open>Data\<close>

text \<open>\<open>std::complex<int16_t>\<close>.\<close>

type_synonym sample = "16 word \<times> 16 word"

abbreviation zero_sample :: sample where
  "zero_sample \<equiv> (0, 0)"

text \<open>The error codes of \<open>uhd::rx_metadata_t\<close> the thread tells apart.\<close>

datatype rx_error =
    ERROR_CODE_NONE
  | ERROR_CODE_OVERFLOW
  | ERROR_CODE_ALIGNMENT
  | ERROR_CODE_BAD_PACKET
  | ERROR_CODE_BROKEN_CHAIN
  | ERROR_CODE_LATE_COMMAND
  | ERROR_CODE_TIMEOUT
  | ERROR_CODE_OTHER

text \<open>
  What one \<open>recv\<close> yields: the sample count, the samples of every channel, and of the metadata
  the error code, the burst flags and the time stamp in ticks of the sample rate.
\<close>

record rx_packet =
  pk_samples :: u64
  pk_data :: "sample list list"
  pk_error :: rx_error
  pk_sob :: bool
  pk_eob :: bool
  pk_ticks :: u64

datatype rx_log =
    Rx_metadata rx_error bool bool
  | Rx_zeropad u64 u64
  | Rx_start_cmd int
  | Rx_stop_cmd
  | Rx_fatal string
  | Rx_exception exc

text \<open>
  The thread's variables and members: \<open>run\<close>, the latch the constructor waits on, the rings, the
  temporary buffers, the expected time of the next packet, the receive timeout in tenths of a
  second, the contiguous sample count, its published copy, and what was logged.
\<close>

record rx_state =
  rx_run :: bool
  rx_ready :: bool
  rx_rings :: "sample ringbuf list"
  rx_tmp :: "sample list list"
  rx_next :: u64
  rx_timeout :: nat
  rx_contiguous :: u64
  rx_continuous :: u64
  rx_logs :: "rx_log list"

definition rx_say :: "rx_log \<Rightarrow> rx_state \<Rightarrow> rx_state" where
  "rx_say l s = s\<lparr>rx_logs := rx_logs s @ [l]\<rparr>"

subsection \<open>Before the loop\<close>

text \<open>A \<open>uhd::time_spec_t\<close> is given by its getters, the full seconds and the fraction.\<close>

definition timespec_to_nsec :: "int \<Rightarrow> dbl \<Rightarrow> u64 option" where
  "timespec_to_nsec full fr =
     (case (to_u64 (dmul (of_integer full) (mkd 1000000000)), to_u64 (dmul fr (mkd 1000000000))) of
        (Some a, Some b) \<Rightarrow> Some (a + b)
      | _ \<Rightarrow> None)"

definition rx_start_secs :: "int \<Rightarrow> dbl \<Rightarrow> int" where
  "rx_start_secs full fr = (if dless fr (mkd (1 / 2)) then full + 1 else full + 2)"

text \<open>
  The set-up before the loop: start time, descriptors, latch, start command. \<open>ticks\<close> is
  \<open>time_spec_t::to_ticks\<close> of the start time; no value where a conversion is undefined.
\<close>

definition rx_begin :: "dbl \<Rightarrow> (int \<Rightarrow> u64) \<Rightarrow> u64 \<Rightarrow> int \<Rightarrow> dbl \<Rightarrow> rx_state \<Rightarrow> rx_state option" where
  "rx_begin rate ticks max_num_samps now_full now_frac s =
     (let s = s\<lparr>rx_tmp := map (\<lambda>_. replicate (unat max_num_samps) zero_sample) (rx_rings s)\<rparr>;
          start = rx_start_secs now_full now_frac
      in case timespec_to_nsec start (Fin 0) of
           None \<Rightarrow> None
         | Some start_nsec \<Rightarrow>
             let s = s\<lparr>rx_rings := map (set_descriptor_info start_nsec rate) (rx_rings s)\<rparr>;
                 s = s\<lparr>rx_ready := True\<rparr>;
                 s = rx_say (Rx_start_cmd start) s
             in Some (s\<lparr>rx_next := ticks start, rx_timeout := 20, rx_contiguous := 0\<rparr>))"

subsection \<open>One turn of the loop\<close>

text \<open>The buffers for the next \<open>recv\<close>: the rings' spans in contiguous operation.\<close>

definition rx_claims :: "u64 \<Rightarrow> rx_state \<Rightarrow> (span \<times> sample ringbuf) list" where
  "rx_claims max_num_samps s = map (get_producer_span max_num_samps) (rx_rings s)"

definition rx_buffers :: "u64 \<Rightarrow> rx_state \<Rightarrow> span list \<times> u64 \<times> rx_state" where
  "rx_buffers max_num_samps s =
     (if rx_contiguous s \<noteq> 0
      then let cl = rx_claims max_num_samps s
           in (map fst cl, foldl (\<lambda>m sp. min m (sp_size sp)) max_num_samps (map fst cl),
               s\<lparr>rx_rings := map snd cl\<rparr>)
      else ([], max_num_samps, s))"

text \<open>What \<open>recv\<close> writes through the buffer pointers.\<close>

definition rx_deliver :: "span list \<Rightarrow> rx_packet \<Rightarrow> rx_state \<Rightarrow> rx_state" where
  "rx_deliver spans pk s =
     (if rx_contiguous s \<noteq> 0
      then s\<lparr>rx_rings := map (\<lambda>n. span_write (spans ! n) (pk_data pk ! n) (rx_rings s ! n))
                [0..<length (rx_rings s)]\<rparr>
      else s\<lparr>rx_tmp := map (\<lambda>n. overwrite 0 (pk_data pk ! n) (rx_tmp s ! n)) [0..<length (rx_tmp s)]\<rparr>)"

text \<open>The \<open>switch\<close> on the error code when no samples came.\<close>

definition rx_on_error :: "rx_packet \<Rightarrow> rx_state \<Rightarrow> rx_state" where
  "rx_on_error pk s =
     (let s = rx_say (Rx_metadata (pk_error pk) (pk_sob pk) (pk_eob pk)) s in
      case pk_error pk of
        ERROR_CODE_NONE \<Rightarrow> s
      | ERROR_CODE_OVERFLOW \<Rightarrow> s\<lparr>rx_contiguous := 0\<rparr>
      | _ \<Rightarrow> (rx_say (Rx_fatal ''Rx thread encountered irrecoverable error. Terminating.'') s)
               \<lparr>rx_run := False\<rparr>)"

text \<open>
  The two copy loops for one ring: the lost samples as zeros, then the packet, for every ring
  from the first temporary buffer.
\<close>

definition rx_fill_ring :: "u64 \<Rightarrow> u64 \<Rightarrow> sample list \<Rightarrow> sample ringbuf \<Rightarrow> sample ringbuf option" where
  "rx_fill_ring lost rcvd tmp0 rb =
     Option.bind (fill ring_claim ring_append (\<lambda>_ k. replicate (unat k) zero_sample) lost 0 rb)
       (\<lambda>rb. fill ring_claim ring_append (\<lambda>j k. block (unat j) (unat k) tmp0) rcvd 0 rb)"

text \<open>
  A packet with samples: \<open>None\<close> if a loop does not end or \<open>(uint64_t) sample_rate_hz\<close> is
  undefined; the flag is false where the code breaks out of its loop.
\<close>

definition rx_place :: "dbl \<Rightarrow> rx_packet \<Rightarrow> rx_state \<Rightarrow> (bool \<times> rx_state) option" where
  "rx_place rate pk s =
     (if rx_contiguous s \<noteq> 0
      then Some (True, s\<lparr>rx_rings := map (produce (pk_samples pk)) (rx_rings s)\<rparr>)
      else case to_u64 rate of
        None \<Rightarrow> None
      | Some limit \<Rightarrow>
          let lost = pk_ticks pk - rx_next s in
          if limit < lost
          then Some (False, (rx_say (Rx_fatal (''Rx lost too many samples for zero-padding: '' @
                 show_nat (unat lost) @ ''. Terminating.'')) s)\<lparr>rx_run := False\<rparr>)
          else let s = (if lost \<noteq> 0 then rx_say (Rx_zeropad (rb_head (rx_rings s ! 0)) lost) s else s) in
            map_option (\<lambda>rbs. (True, s\<lparr>rx_rings := rbs, rx_next := pk_ticks pk\<rparr>))
              (those (map (rx_fill_ring lost (pk_samples pk) (rx_tmp s ! 0)) (rx_rings s))))"

text \<open>Before it is placed the metadata is logged and the timeout reduced; afterwards the counts advance.\<close>

definition rx_noted :: "rx_packet \<Rightarrow> rx_state \<Rightarrow> rx_state" where
  "rx_noted pk s =
     (if pk_sob pk \<or> rx_contiguous s = 0
      then rx_say (Rx_metadata (pk_error pk) (pk_sob pk) (pk_eob pk)) s else s)\<lparr>rx_timeout := 1\<rparr>"

definition rx_advance :: "rx_packet \<Rightarrow> rx_state \<Rightarrow> rx_state" where
  "rx_advance pk s =
     (let s = s\<lparr>rx_next := rx_next s + pk_samples pk\<rparr>;
          s = s\<lparr>rx_contiguous := rx_contiguous s + pk_samples pk\<rparr>
      in s\<lparr>rx_continuous := rx_contiguous s\<rparr>)"

definition rx_accept :: "dbl \<Rightarrow> rx_packet \<Rightarrow> rx_state \<Rightarrow> rx_state option" where
  "rx_accept rate pk s =
     map_option (\<lambda>(go, s). if go then rx_advance pk s else s) (rx_place rate pk (rx_noted pk s))"

definition rx_turn :: "dbl \<Rightarrow> u64 \<Rightarrow> (u64 \<Rightarrow> rx_packet) \<Rightarrow> rx_state \<Rightarrow> rx_state option" where
  "rx_turn rate max_num_samps recv s =
     (let (spans, recv_max, s) = rx_buffers max_num_samps s;
          pk = recv recv_max;
          s = rx_deliver spans pk s
      in if pk_samples pk = 0 then Some (rx_on_error pk s) else rx_accept rate pk s)"

fun rx_loop :: "dbl \<Rightarrow> u64 \<Rightarrow> (u64 \<Rightarrow> rx_packet) list \<Rightarrow> rx_state \<Rightarrow> rx_state option" where
  "rx_loop rate mx [] s = Some s"
| "rx_loop rate mx (recv # rest) s =
     (if rx_run s then Option.bind (rx_turn rate mx recv s) (rx_loop rate mx rest) else Some s)"

text \<open>After the loop: stop streaming and receive until the end of the burst or an error.\<close>

fun rx_discard :: "rx_packet list \<Rightarrow> rx_state \<Rightarrow> rx_state" where
  "rx_discard [] s = s"
| "rx_discard (pk # pks) s =
     (if pk_eob pk \<or> pk_samples pk = 0
      then rx_say (Rx_metadata (pk_error pk) (pk_sob pk) (pk_eob pk)) s
      else rx_discard pks s)"

definition rx_end :: "rx_packet list \<Rightarrow> rx_state \<Rightarrow> rx_state" where
  "rx_end rest s = (rx_discard rest (rx_say Rx_stop_cmd s))\<lparr>rx_run := False\<rparr>"

text \<open>The handler of the thread.\<close>

definition rx_failed :: "exc \<Rightarrow> rx_state \<Rightarrow> rx_state" where
  "rx_failed e s =
     (rx_say (Rx_fatal ''Unrecoverable exception occurred in Rx thread. Thread terminated.'')
        (rx_say (Rx_exception e) s))\<lparr>rx_run := False\<rparr>"

text \<open>
  The whole thread. \<open>sched\<close> is the error of \<open>sched_setscheduler\<close>, if any; its exception is
  caught, logged and ends the thread before the latch is counted down.
\<close>

definition rx_worker :: "int option \<Rightarrow> dbl \<Rightarrow> (int \<Rightarrow> u64) \<Rightarrow> u64 \<Rightarrow> int \<Rightarrow> dbl \<Rightarrow>
    (u64 \<Rightarrow> rx_packet) list \<Rightarrow> rx_packet list \<Rightarrow> rx_state \<Rightarrow> rx_state option" where
  "rx_worker sched rate ticks mx now_full now_frac recvs rest s =
     (case sched of
        Some errno \<Rightarrow>
          Some (rx_failed (Syscall_error ''sched_setscheduler() failed'' errno) s)
      | None \<Rightarrow> Option.bind (rx_begin rate ticks mx now_full now_frac s) (\<lambda>s.
          Option.bind (rx_loop rate mx recvs s) (\<lambda>s.
            Some (rx_end rest s))))"

text \<open>The members other threads call.\<close>

definition get_rx_seconds :: "dbl \<Rightarrow> rx_state \<Rightarrow> dbl" where
  "get_rx_seconds rate s = ddiv (of_u64 (rx_continuous s)) rate"

subsection \<open>The loop keeps the rings aligned with the time stamps\<close>

text \<open>What \<open>recv\<close> is documented to return: at most what was asked for, for every channel.\<close>

definition recv_ok :: "nat \<Rightarrow> u64 \<Rightarrow> (u64 \<Rightarrow> rx_packet) \<Rightarrow> bool" where
  "recv_ok nch mx recv \<longleftrightarrow> (\<forall>m \<le> mx. pk_samples (recv m) \<le> m \<and> length (pk_data (recv m)) = nch \<and>
     (\<forall>n < nch. length (pk_data (recv m) ! n) = unat (pk_samples (recv m))))"

text \<open>
  The invariant, for the rings \<open>rbs\<close> at the start and the time stamp \<open>ts0\<close> of index 0: every
  ring holds its history, the histories have the same length, and the expected time stamp of
  the next packet is \<open>ts0\<close> plus this length.
\<close>

definition rx_inv :: "u64 \<Rightarrow> u64 \<Rightarrow> sample ringbuf list \<Rightarrow> nat \<Rightarrow> sample list list \<Rightarrow> rx_state \<Rightarrow> bool" where
  "rx_inv mx ts0 rbs H hs s \<longleftrightarrow>
     length (rx_rings s) = length rbs \<and> length (rx_tmp s) = length rbs \<and> length hs = length rbs \<and>
     (\<forall>n < length rbs. ring_holds (rbs ! n) (rx_rings s ! n) (hs ! n) \<and> length (hs ! n) = H \<and>
        length (rx_tmp s ! n) = unat mx) \<and>
     rx_next s = ts0 + word_of_nat H"

text \<open>What a turn does to the histories, given the packet and the limit on lost samples.\<close>

definition rx_lost :: "rx_packet \<Rightarrow> rx_state \<Rightarrow> u64" where
  "rx_lost pk s = pk_ticks pk - rx_next s"

definition rx_appended :: "u64 \<Rightarrow> rx_packet \<Rightarrow> rx_state \<Rightarrow> nat \<Rightarrow> sample list" where
  "rx_appended limit pk s n =
     (if pk_samples pk = 0 then []
      else if rx_contiguous s \<noteq> 0 then pk_data pk ! n
      else if limit < rx_lost pk s then []
      else replicate (unat (rx_lost pk s)) zero_sample @ pk_data pk ! 0)"

definition rx_histories :: "u64 \<Rightarrow> rx_packet \<Rightarrow> rx_state \<Rightarrow> sample list list \<Rightarrow> sample list list" where
  "rx_histories limit pk s hs = map (\<lambda>n. hs ! n @ rx_appended limit pk s n) [0..<length hs]"

text \<open>The number of samples \<open>recv\<close> is asked for, and the packets a run of the loop gets.\<close>

definition rx_request :: "u64 \<Rightarrow> rx_state \<Rightarrow> u64" where
  "rx_request mx s = fst (snd (rx_buffers mx s))"

fun rx_packets :: "dbl \<Rightarrow> u64 \<Rightarrow> (u64 \<Rightarrow> rx_packet) list \<Rightarrow> rx_state \<Rightarrow> rx_packet list" where
  "rx_packets rate mx [] s = []"
| "rx_packets rate mx (recv # recvs) s =
     (if rx_run s
      then recv (rx_request mx s) #
        (case rx_turn rate mx recv s of None \<Rightarrow> [] | Some s' \<Rightarrow> rx_packets rate mx recvs s')
      else [])"

text \<open>
  The ideal receiver: a function of the packets alone, without rings, spans or counters. \<open>h\<close> is
  the history of channel \<open>c\<close> so far, and \<open>ct\<close> says that nothing is missing since the last packet.
  It has two traits of the code: while nothing is missing it appends without looking at the time
  stamp, and after a gap it gives every channel the samples of channel 0.
\<close>

fun rx_ideal :: "u64 \<Rightarrow> u64 \<Rightarrow> nat \<Rightarrow> bool \<Rightarrow> sample list \<Rightarrow> rx_packet list \<Rightarrow> sample list" where
  "rx_ideal limit ts0 c ct h [] = h"
| "rx_ideal limit ts0 c ct h (pk # pks) =
     (let lost = pk_ticks pk - (ts0 + word_of_nat (length h)) in
      if pk_samples pk = 0 then rx_ideal limit ts0 c (ct \<and> pk_error pk \<noteq> ERROR_CODE_OVERFLOW) h pks
      else if ct then rx_ideal limit ts0 c True (h @ pk_data pk ! c) pks
      else if limit < lost then h
      else rx_ideal limit ts0 c True (h @ replicate (unat lost) zero_sample @ pk_data pk ! 0) pks)"

lemma foldl_min_le_init: "foldl (\<lambda>m x. min m (f x)) (a :: 'b :: linorder) xs \<le> a"
  by (induction xs arbitrary: a) (auto intro: order_trans [OF _ min.cobounded1])

lemma foldl_min_le:
  "x \<in> set xs \<Longrightarrow> foldl (\<lambda>m x. min m (f x)) (a :: 'b :: linorder) xs \<le> f x"
proof (induction xs arbitrary: a)
  case (Cons y ys)
  have "foldl (\<lambda>m x. min m (f x)) (min a (f y)) ys \<le> f y"
    by (rule order_trans [OF foldl_min_le_init min.cobounded2])
  with Cons show ?case
    by (cases "x = y") auto
qed simp

lemma rx_request_le:
  "rx_request mx s \<le> mx"
  "rx_contiguous s \<noteq> 0 \<Longrightarrow> n < length (rx_rings s) \<Longrightarrow>
    rx_request mx s \<le> ring_claim mx (rx_rings s ! n)"
proof -
  show "rx_request mx s \<le> mx"
    by (simp add: rx_request_def rx_buffers_def Let_def foldl_min_le_init)
  show "rx_request mx s \<le> ring_claim mx (rx_rings s ! n)"
    if "rx_contiguous s \<noteq> 0" "n < length (rx_rings s)"
    using that foldl_min_le [of "fst (get_producer_span mx (rx_rings s ! n))" "map fst (rx_claims mx s)" sp_size mx]
    by (simp add: rx_request_def rx_buffers_def Let_def ring_claim_def rx_claims_def)
qed

text \<open>In contiguous operation, claiming, receiving and producing is one append per ring.\<close>

lemma rx_contiguous_rings:
  assumes "rx_contiguous s \<noteq> 0" "recv_ok (length (rx_rings s)) mx recv"
    and "rx_buffers mx s = (spans, m, s1)" "s2 = rx_deliver spans (recv m) s1"
  shows "rx_rings s2 = map (\<lambda>n. span_write (fst (get_producer_span mx (rx_rings s ! n))) (pk_data (recv m) ! n)
      (snd (get_producer_span mx (rx_rings s ! n)))) [0..<length (rx_rings s)]"
    and "map (produce (pk_samples (recv m))) (rx_rings s2) =
      map (\<lambda>n. ring_append mx (pk_data (recv m) ! n) (rx_rings s ! n)) [0..<length (rx_rings s)]"
proof -
  show eq: "rx_rings s2 = map (\<lambda>n. span_write (fst (get_producer_span mx (rx_rings s ! n))) (pk_data (recv m) ! n)
      (snd (get_producer_span mx (rx_rings s ! n)))) [0..<length (rx_rings s)]"
    using assms by (auto simp: rx_buffers_def rx_deliver_def rx_claims_def Let_def)
  have "m \<le> mx"
    using rx_request_le(1) [of mx s] assms(3) by (simp add: rx_request_def)
  then have "word_of_nat (length (pk_data (recv m) ! n)) = pk_samples (recv m)"
    if "n < length (rx_rings s)" for n
    using assms(2) that by (simp add: recv_ok_def)
  then show "map (produce (pk_samples (recv m))) (rx_rings s2) =
      map (\<lambda>n. ring_append mx (pk_data (recv m) ! n) (rx_rings s ! n)) [0..<length (rx_rings s)]"
    by (simp add: eq ring_append_def case_prod_unfold Let_def)
qed

lemma those_map_Some: "(\<And>x. x \<in> set xs \<Longrightarrow> f x = Some (g x)) \<Longrightarrow> those (map f xs) = Some (map g xs)"
  by (induction xs) auto

lemma those_map_ex:
  assumes "\<And>n. n < length xs \<Longrightarrow> \<exists>y. f (xs ! n) = Some y \<and> P n y"
  shows "\<exists>ys. those (map f xs) = Some ys \<and> length ys = length xs \<and> (\<forall>n < length xs. P n (ys ! n))"
proof -
  have "f x = Some (the (f x))" if "x \<in> set xs" for x
    using that assms by (metis in_set_conv_nth option.sel)
  then have "those (map f xs) = Some (map (\<lambda>x. the (f x)) xs)"
    by (rule those_map_Some)
  then show ?thesis
    using assms by fastforce
qed

text \<open>One ring in non-contiguous operation.\<close>

lemma rx_fill_ring_holds:
  assumes "ring_holds rb0 rb h" "unat lost < 2 ^ 61" "unat rcvd < 2 ^ 61" "length h < 2 ^ 62"
    and "unat rcvd \<le> length tmp0"
  shows "\<exists>rb'. rx_fill_ring lost rcvd tmp0 rb = Some rb' \<and>
    ring_holds rb0 rb' (h @ replicate (unat lost) zero_sample @ take (unat rcvd) tmp0)"
proof -
  have "length h + unat lost < 2 ^ 63"
    using assms(2,4) by simp
  then obtain rb1 where 1: "fill ring_claim ring_append (\<lambda>_ k. replicate (unat k) zero_sample) lost 0 rb = Some rb1"
    "ring_holds rb0 rb1 (h @ replicate (unat lost) zero_sample)"
    using ring_sink.fill_holds [OF assms(1), of "replicate (unat lost) zero_sample" lost
        "\<lambda>_ k. replicate (unat k) zero_sample"] assms(2) by (auto simp: block_def)
  have "\<exists>rb2. fill ring_claim ring_append (\<lambda>j k. block (unat j) (unat k) tmp0) rcvd 0 rb1 = Some rb2 \<and>
      ring_holds rb0 rb2 ((h @ replicate (unat lost) zero_sample) @ take (unat rcvd) tmp0)"
  proof (rule ring_sink.fill_holds [OF 1(2)])
    show "length (h @ replicate (unat lost) zero_sample) + unat rcvd < 2 ^ 63"
      using assms(2-4) by simp
  qed (use assms in \<open>auto simp: block_def min_def take_drop\<close>)
  with 1(1) show ?thesis
    by (auto simp: rx_fill_ring_def)
qed

text \<open>A turn refines the appends, whatever the packet.\<close>

lemma rx_say_fields [simp]:
  "rx_rings (rx_say l s) = rx_rings s" "rx_tmp (rx_say l s) = rx_tmp s" "rx_next (rx_say l s) = rx_next s"
  "rx_contiguous (rx_say l s) = rx_contiguous s" "rx_run (rx_say l s) = rx_run s"
  by (simp_all add: rx_say_def)

lemma rx_inv_say [simp]: "rx_inv mx ts0 rbs H hs (rx_say l s) = rx_inv mx ts0 rbs H hs s"
  by (simp add: rx_inv_def)

lemma rx_inv_timeout [simp]: "rx_inv mx ts0 rbs H hs (s\<lparr>rx_timeout := t\<rparr>) = rx_inv mx ts0 rbs H hs s"
  by (simp add: rx_inv_def)

lemma rx_on_error_fields [simp]:
  "rx_rings (rx_on_error pk s) = rx_rings s" "rx_tmp (rx_on_error pk s) = rx_tmp s"
  "rx_next (rx_on_error pk s) = rx_next s"
  by (simp_all add: rx_on_error_def Let_def split: rx_error.split)

lemma rx_inv_cong:
  assumes "rx_rings t = rx_rings s" "rx_tmp t = rx_tmp s" "rx_next t = rx_next s"
  shows "rx_inv mx ts0 rbs H hs t = rx_inv mx ts0 rbs H hs s"
  using assms by (simp add: rx_inv_def)

text \<open>After the buffers are claimed and the packet delivered, the histories are the same.\<close>

lemma rx_deliver_inv:
  assumes inv: "rx_inv mx ts0 rbs H hs s" and ok: "recv_ok (length rbs) mx recv"
    and b: "unat mx < 2 ^ 61" "H < 2 ^ 62"
    and run: "rx_buffers mx s = (spans, m, s1)" "s2 = rx_deliver spans (recv m) s1"
    and free: "rx_contiguous s = 0 \<or> pk_samples (recv m) = 0"
  shows "rx_inv mx ts0 rbs H hs s2"
proof (cases "rx_contiguous s = 0")
  case True
  have m: "m = mx" "s1 = s"
    using run(1) True by (simp_all add: rx_buffers_def)
  have fits: "length (pk_data (recv mx) ! n) \<le> unat mx" if "n < length rbs" for n
    using ok that by (simp add: recv_ok_def word_le_nat_alt)
  have "length (rx_tmp s ! n) = unat mx" if "n < length rbs" for n
    using inv that by (simp add: rx_inv_def)
  then show ?thesis
    using inv fits by (simp add: rx_inv_def run(2) m rx_deliver_def True)
next
  case False
  have len: "length (rx_rings s) = length rbs"
    using inv by (simp add: rx_inv_def)
  with ok have ok': "recv_ok (length (rx_rings s)) mx recv"
    by simp
  have "m \<le> mx"
    using rx_request_le(1) [of mx s] run(1) by (simp add: rx_request_def)
  then have "length (pk_data (recv m) ! n) = 0" if "n < length rbs" for n
    using ok free False that by (auto simp: recv_ok_def)
  then have none: "pk_data (recv m) ! n = []" if "n < length rbs" for n
    using that by simp
  have "ring_holds (rbs ! n) (snd (get_producer_span mx (rx_rings s ! n))) (hs ! n)"
    if "n < length rbs" for n
    using inv b that by (intro ring_claim_holds) (auto simp: rx_inv_def)
  then have "ring_holds (rbs ! n) (rx_rings s2 ! n) (hs ! n)" if "n < length rbs" for n
    using rx_contiguous_rings(1) [OF False ok' run(1,2)] len none that by (simp add: span_write_def)
  moreover have "length (rx_rings s2) = length rbs"
    using rx_contiguous_rings(1) [OF False ok' run(1,2)] len by simp
  moreover have "rx_tmp s2 = rx_tmp s" "rx_next s2 = rx_next s"
    using run False by (auto simp: rx_deliver_def rx_buffers_def Let_def)
  ultimately show ?thesis
    using inv by (simp add: rx_inv_def)
qed

lemma rx_histories_same:
  "length hs = length rbs \<Longrightarrow> (\<And>n. rx_appended limit pk s n = []) \<Longrightarrow> rx_histories limit pk s hs = hs"
  using map_nth [of hs] by (simp add: rx_histories_def)

text \<open>Placing a packet with samples, contiguous case.\<close>

lemma rx_place_contiguous:
  assumes inv: "rx_inv mx ts0 rbs H hs s" and ok: "recv_ok (length rbs) mx recv"
    and b: "unat mx < 2 ^ 61" "H < 2 ^ 62"
    and run: "rx_buffers mx s = (spans, m, s1)" "s2 = rx_deliver spans (recv m) s1"
    and c: "rx_contiguous s \<noteq> 0" and k: "pk_samples (recv m) \<noteq> 0"
  shows "rx_inv mx ts0 rbs (H + unat (pk_samples (recv m))) (rx_histories limit (recv m) s hs)
    (s2\<lparr>rx_rings := map (produce (pk_samples (recv m))) (rx_rings s2),
       rx_next := rx_next s2 + pk_samples (recv m)\<rparr>)"
proof -
  have len: "length (rx_rings s) = length rbs"
    using inv by (simp add: rx_inv_def)
  with ok have ok': "recv_ok (length (rx_rings s)) mx recv"
    by simp
  have m: "m = rx_request mx s"
    using run(1) by (simp add: rx_request_def)
  have pk: "pk_samples (recv m) \<le> m" "\<And>n. n < length rbs \<Longrightarrow> length (pk_data (recv m) ! n) = unat (pk_samples (recv m))"
    using ok rx_request_le(1) [of mx s] m by (simp_all add: recv_ok_def)
  have room: "length (pk_data (recv m) ! n) \<le> unat (ring_claim mx (rx_rings s ! n))" if "n < length rbs" for n
  proof -
    have "pk_samples (recv m) \<le> ring_claim mx (rx_rings s ! n)"
      using order_trans [OF pk(1)] rx_request_le(2) [OF c] that len m by simp
    then show ?thesis
      using pk(2) [OF that] by (simp add: word_le_nat_alt)
  qed
  have "ring_holds (rbs ! n) (ring_append mx (pk_data (recv m) ! n) (rx_rings s ! n)) (hs ! n @ pk_data (recv m) ! n)"
    if "n < length rbs" for n
    using inv b room that by (intro ring_append_holds) (auto simp: rx_inv_def)
  moreover have "map (produce (pk_samples (recv m))) (rx_rings s2) =
      map (\<lambda>n. ring_append mx (pk_data (recv m) ! n) (rx_rings s ! n)) [0..<length rbs]"
    using rx_contiguous_rings(2) [OF c ok' run(1,2)] len by simp
  moreover have "rx_tmp s2 = rx_tmp s" "rx_next s2 = rx_next s"
    using run c by (auto simp: rx_deliver_def rx_buffers_def Let_def)
  moreover have "rx_appended limit (recv m) s n = pk_data (recv m) ! n" for n
    using c k by (simp add: rx_appended_def)
  ultimately show ?thesis
    using inv pk(2) by (simp add: rx_inv_def rx_histories_def)
qed

text \<open>Non-contiguous case, when not too much was lost.\<close>

lemma rx_fill_rings:
  assumes inv: "rx_inv mx ts0 rbs H hs s" and "recv_ok (length rbs) mx recv"
    and b: "unat mx < 2 ^ 61" "H < 2 ^ 62" "unat limit < 2 ^ 61"
    and t: "rx_tmp t = map (\<lambda>n. overwrite 0 (pk_data pk ! n) (rx_tmp s ! n)) [0..<length (rx_tmp s)]"
    and pk: "pk = recv mx" and c: "rx_contiguous s = 0" and k: "pk_samples pk \<noteq> 0"
    and lost: "\<not> limit < rx_lost pk s" and ch: "rbs \<noteq> []"
  shows "\<exists>rbs'. those (map (rx_fill_ring (rx_lost pk s) (pk_samples pk) (rx_tmp t ! 0)) (rx_rings s)) = Some rbs' \<and>
    length rbs' = length (rx_rings s) \<and>
    (\<forall>n < length (rx_rings s). ring_holds (rbs ! n) (rbs' ! n) (hs ! n @ rx_appended limit pk s n))"
proof (rule those_map_ex)
  fix n assume n: "n < length (rx_rings s)"
  have ch0: "0 < length rbs" using ch by simp
  have pk': "pk_samples pk \<le> mx" "length (pk_data pk ! 0) = unat (pk_samples pk)"
    using assms(2) ch0 by (simp_all add: recv_ok_def pk)
  then have le: "unat (pk_samples pk) \<le> unat mx"
    by (simp add: word_le_nat_alt)
  have tmp: "rx_tmp t ! 0 = overwrite 0 (pk_data pk ! 0) (rx_tmp s ! 0)" "length (rx_tmp s ! 0) = unat mx"
    using inv ch0 by (simp_all add: rx_inv_def t)
  have "take (unat (pk_samples pk)) (rx_tmp t ! 0) = pk_data pk ! 0"
    by (simp add: tmp(1) overwrite_def pk'(2))
  moreover have "unat (pk_samples pk) \<le> length (rx_tmp t ! 0)"
    using tmp pk'(2) le by simp
  moreover have "unat (rx_lost pk s) \<le> unat limit"
    using lost by (simp add: word_less_nat_alt)
  moreover have "ring_holds (rbs ! n) (rx_rings s ! n) (hs ! n)" "length (hs ! n) = H"
    using inv n by (simp_all add: rx_inv_def)
  ultimately show "\<exists>rb'. rx_fill_ring (rx_lost pk s) (pk_samples pk) (rx_tmp t ! 0) (rx_rings s ! n) = Some rb' \<and>
      ring_holds (rbs ! n) rb' (hs ! n @ rx_appended limit pk s n)"
    using rx_fill_ring_holds [of "rbs ! n" "rx_rings s ! n" "hs ! n" "rx_lost pk s" "pk_samples pk" "rx_tmp t ! 0"]
      le b c k lost by (simp add: rx_appended_def)
qed

text \<open>How much a turn appends, and the flags it leaves.\<close>

definition rx_grown :: "u64 \<Rightarrow> rx_packet \<Rightarrow> rx_state \<Rightarrow> nat" where
  "rx_grown limit pk s =
     (if pk_samples pk = 0 then 0
      else if rx_contiguous s \<noteq> 0 then unat (pk_samples pk)
      else if limit < rx_lost pk s then 0
      else unat (rx_lost pk s) + unat (pk_samples pk))"

definition rx_aborts :: "u64 \<Rightarrow> rx_packet \<Rightarrow> rx_state \<Rightarrow> bool" where
  "rx_aborts limit pk s \<longleftrightarrow>
     (if pk_samples pk = 0 then pk_error pk \<notin> {ERROR_CODE_NONE, ERROR_CODE_OVERFLOW}
      else rx_contiguous s = 0 \<and> limit < rx_lost pk s)"

definition rx_contiguous_after :: "u64 \<Rightarrow> rx_packet \<Rightarrow> rx_state \<Rightarrow> u64" where
  "rx_contiguous_after limit pk s =
     (if pk_samples pk = 0 then (if pk_error pk = ERROR_CODE_OVERFLOW then 0 else rx_contiguous s)
      else if rx_aborts limit pk s then rx_contiguous s
      else rx_contiguous s + pk_samples pk)"

definition rx_turn_post :: "u64 \<Rightarrow> u64 \<Rightarrow> sample ringbuf list \<Rightarrow> nat \<Rightarrow> sample list list \<Rightarrow>
    u64 \<Rightarrow> rx_packet \<Rightarrow> rx_state \<Rightarrow> rx_state \<Rightarrow> bool" where
  "rx_turn_post mx ts0 rbs H hs limit pk s s' \<longleftrightarrow>
     rx_inv mx ts0 rbs (H + rx_grown limit pk s) (rx_histories limit pk s hs) s' \<and>
     rx_contiguous s' = rx_contiguous_after limit pk s \<and>
     rx_run s' = (rx_run s \<and> \<not> rx_aborts limit pk s)"

lemma rx_buffers_fields:
  assumes "rx_buffers mx s = (spans, m, s1)"
  shows "rx_contiguous s1 = rx_contiguous s" "rx_next s1 = rx_next s" "rx_run s1 = rx_run s"
    "rx_contiguous s = 0 \<Longrightarrow> m = mx \<and> s1 = s"
  using assms by (auto simp: rx_buffers_def Let_def split: if_splits)

lemma rx_deliver_fields [simp]:
  "rx_contiguous (rx_deliver spans pk s) = rx_contiguous s"
  "rx_next (rx_deliver spans pk s) = rx_next s"
  "rx_run (rx_deliver spans pk s) = rx_run s"
  by (simp_all add: rx_deliver_def)

lemma rx_on_error_flags:
  "rx_contiguous (rx_on_error pk s) = (if pk_error pk = ERROR_CODE_OVERFLOW then 0 else rx_contiguous s)"
  "rx_run (rx_on_error pk s) \<longleftrightarrow> rx_run s \<and> pk_error pk \<in> {ERROR_CODE_NONE, ERROR_CODE_OVERFLOW}"
  by (auto simp: rx_on_error_def Let_def split: rx_error.split)

lemma rx_turn_ok:
  assumes inv: "rx_inv mx ts0 rbs H hs s" and ok: "recv_ok (length rbs) mx recv"
    and b: "unat mx < 2 ^ 61" "H < 2 ^ 62" "unat limit < 2 ^ 61"
    and lim: "to_u64 rate = Some limit" and ch: "rbs \<noteq> []"
    and pk: "pk = recv (rx_request mx s)"
  shows "\<exists>s'. rx_turn rate mx recv s = Some s' \<and> rx_turn_post mx ts0 rbs H hs limit pk s s'"
proof -
  obtain spans m s1 where run: "rx_buffers mx s = (spans, m, s1)"
    by (cases "rx_buffers mx s") auto
  define s2 where "s2 = rx_deliver spans (recv m) s1"
  have m: "pk = recv m"
    using run by (simp add: rx_request_def pk)
  note F = rx_buffers_fields [OF run]
  have hs: "length hs = length rbs"
    using inv by (simp add: rx_inv_def)
  have turn: "rx_turn rate mx recv s = (if pk_samples pk = 0 then Some (rx_on_error pk s2) else rx_accept rate pk s2)"
    by (simp add: rx_turn_def run s2_def m Let_def)
  have same: "rx_inv mx ts0 rbs H hs s2" if "rx_contiguous s = 0 \<or> pk_samples pk = 0"
    using rx_deliver_inv [OF inv ok b(1,2) run s2_def] that m by simp
  have s2: "rx_contiguous s2 = rx_contiguous s" "rx_run s2 = rx_run s" "rx_next s2 = rx_next s"
    by (simp_all add: s2_def F)
  define s3 where "s3 = rx_noted pk s2"
  have s3: "rx_contiguous s3 = rx_contiguous s" "rx_run s3 = rx_run s" "rx_next s3 = rx_next s"
    "rx_rings s3 = rx_rings s2" "rx_tmp s3 = rx_tmp s2"
    by (simp_all add: s3_def rx_noted_def s2)
  consider (err) "pk_samples pk = 0"
    | (cont) "pk_samples pk \<noteq> 0" "rx_contiguous s \<noteq> 0"
    | (abort) "pk_samples pk \<noteq> 0" "rx_contiguous s = 0" "limit < rx_lost pk s"
    | (pad) "pk_samples pk \<noteq> 0" "rx_contiguous s = 0" "\<not> limit < rx_lost pk s"
    by blast
  then show ?thesis
  proof cases
    case err
    have "rx_inv mx ts0 rbs H hs (rx_on_error pk s2)"
      using same err by (subst rx_inv_cong [of _ s2]) auto
    moreover have "rx_histories limit pk s hs = hs"
      using err by (intro rx_histories_same [OF hs]) (simp add: rx_appended_def)
    ultimately show ?thesis
      using turn err
      by (simp add: rx_turn_post_def rx_grown_def rx_contiguous_after_def rx_aborts_def rx_on_error_flags s2)
  next
    case cont
    have "rx_inv mx ts0 rbs (H + unat (pk_samples pk)) (rx_histories limit pk s hs)
        (s2\<lparr>rx_rings := map (produce (pk_samples pk)) (rx_rings s2), rx_next := rx_next s2 + pk_samples pk\<rparr>)"
      using rx_place_contiguous [OF inv ok b(1,2) run s2_def cont(2)] cont(1) by (simp add: m)
    moreover have "rx_accept rate pk s2 = Some (s3\<lparr>rx_rings := map (produce (pk_samples pk)) (rx_rings s3),
        rx_next := rx_next s3 + pk_samples pk, rx_contiguous := rx_contiguous s3 + pk_samples pk,
        rx_continuous := rx_contiguous s3 + pk_samples pk\<rparr>)"
      using cont(2) s3 by (simp add: rx_accept_def rx_place_def rx_advance_def Let_def flip: s3_def)
    moreover define s' where "s' = s3\<lparr>rx_rings := map (produce (pk_samples pk)) (rx_rings s3),
        rx_next := rx_next s3 + pk_samples pk, rx_contiguous := rx_contiguous s3 + pk_samples pk,
        rx_continuous := rx_contiguous s3 + pk_samples pk\<rparr>"
    ultimately have "rx_inv mx ts0 rbs (H + unat (pk_samples pk)) (rx_histories limit pk s hs) s'"
      and acc: "rx_accept rate pk s2 = Some s'"
      by (subst rx_inv_cong [of _ "s2\<lparr>rx_rings := map (produce (pk_samples pk)) (rx_rings s2),
          rx_next := rx_next s2 + pk_samples pk\<rparr>"], simp_all add: s3 s2)
    moreover have "rx_contiguous s' = rx_contiguous s + pk_samples pk" "rx_run s' = rx_run s"
      by (simp_all add: s'_def s3)
    ultimately show ?thesis
      using turn cont
      by (simp add: rx_turn_post_def rx_grown_def rx_contiguous_after_def rx_aborts_def)
  next
    case abort
    define s' where "s' = (rx_say (Rx_fatal (''Rx lost too many samples for zero-padding: '' @
        show_nat (unat (rx_lost pk s)) @ ''. Terminating.'')) s3)\<lparr>rx_run := False\<rparr>"
    have acc: "rx_accept rate pk s2 = Some s'"
      using abort s3 lim by (simp add: rx_accept_def rx_place_def rx_lost_def Let_def s'_def flip: s3_def)
    have s': "rx_contiguous s' = rx_contiguous s" "\<not> rx_run s'"
      "rx_rings s' = rx_rings s2" "rx_tmp s' = rx_tmp s2" "rx_next s' = rx_next s2"
      by (simp_all add: s'_def s3 s2)
    have "rx_histories limit pk s hs = hs"
      using abort by (intro rx_histories_same [OF hs]) (simp add: rx_appended_def)
    moreover have "rx_inv mx ts0 rbs H hs s'"
      using same abort(2) by (subst rx_inv_cong [OF s'(3-5)]) simp
    ultimately show ?thesis
      using turn abort acc s'
      by (simp add: rx_turn_post_def rx_grown_def rx_contiguous_after_def rx_aborts_def)
  next
    case pad
    have m': "pk = recv mx" "s1 = s"
      using F(4) [OF pad(2)] m by simp_all
    have tmp: "rx_tmp s2 = map (\<lambda>n. overwrite 0 (pk_data pk ! n) (rx_tmp s ! n)) [0..<length (rx_tmp s)]"
      "rx_rings s2 = rx_rings s"
      using pad(2) by (simp_all add: s2_def rx_deliver_def m' F(4) m)
    from rx_fill_rings [OF inv ok b tmp(1) m'(1) pad(2,1,3) ch] obtain rbs' where rbs':
      "those (map (rx_fill_ring (rx_lost pk s) (pk_samples pk) (rx_tmp s2 ! 0)) (rx_rings s)) = Some rbs'"
      "length rbs' = length (rx_rings s)"
      "\<forall>n < length (rx_rings s). ring_holds (rbs ! n) (rbs' ! n) (hs ! n @ rx_appended limit pk s n)"
      by blast
    define s4 where "s4 = (if rx_lost pk s \<noteq> 0 then rx_say (Rx_zeropad (rb_head (rx_rings s3 ! 0)) (rx_lost pk s)) s3 else s3)"
    have s4: "rx_contiguous s4 = rx_contiguous s" "rx_run s4 = rx_run s" "rx_rings s4 = rx_rings s"
      "rx_tmp s4 = rx_tmp s2"
      by (simp_all add: s4_def s3 tmp(2))
    have acc: "rx_accept rate pk s2 = Some (s4\<lparr>rx_rings := rbs', rx_next := pk_ticks pk + pk_samples pk,
        rx_contiguous := rx_contiguous s4 + pk_samples pk, rx_continuous := rx_contiguous s4 + pk_samples pk\<rparr>)"
    proof -
      have "pk_ticks pk - rx_next s3 = rx_lost pk s"
        by (simp add: s3 rx_lost_def)
      then have "rx_place rate pk s3 = Some (True, s4\<lparr>rx_rings := rbs', rx_next := pk_ticks pk\<rparr>)"
        using pad s3 lim rbs'(1) s4(3,4) by (simp add: rx_place_def flip: s4_def)
      then show ?thesis
        by (simp add: rx_accept_def rx_advance_def Let_def flip: s3_def)
    qed
    have "pk_ticks pk + pk_samples pk = ts0 + word_of_nat (H + rx_grown limit pk s)"
      using inv pad by (simp add: rx_grown_def rx_inv_def rx_lost_def)
    moreover have "length (hs ! n @ rx_appended limit pk s n) = H + rx_grown limit pk s" if "n < length rbs" for n
      using inv ok that pad ch m'(1) by (auto simp: rx_inv_def rx_appended_def rx_grown_def recv_ok_def)
    moreover have "length (rx_rings s) = length rbs"
      using inv by (simp add: rx_inv_def)
    ultimately show ?thesis
      using turn pad acc rbs' same s4
      by (simp add: rx_turn_post_def rx_contiguous_after_def rx_aborts_def rx_inv_def rx_histories_def)
  qed
qed

text \<open>Any number of turns; the histories only grow, and stay short of the range of the counters.\<close>

lemma rx_grown_le:
  assumes "recv_ok (length rbs) mx recv" "pk = recv (rx_request mx s)"
  shows "rx_grown limit pk s \<le> unat limit + unat mx"
proof -
  have "unat (pk_samples pk) \<le> unat mx"
    using assms rx_request_le(1) [of mx s] by (auto simp: recv_ok_def word_le_nat_alt intro: order_trans)
  moreover have "unat (rx_lost pk s) \<le> unat limit" if "\<not> limit < rx_lost pk s"
    using that by (simp add: word_less_nat_alt)
  ultimately show ?thesis
    by (auto simp: rx_grown_def)
qed

text \<open>One packet of the ideal receiver, in terms of a turn.\<close>

lemma rx_ideal_turn:
  assumes "length h = H" "rx_next s = ts0 + word_of_nat H" "unat (rx_contiguous s) \<le> H"
    and "H + unat (pk_samples pk) < 2 ^ 64"
    and "\<not> rx_aborts limit pk s"
  shows "rx_ideal limit ts0 c (rx_contiguous s \<noteq> 0) h (pk # pks) =
    rx_ideal limit ts0 c (rx_contiguous_after limit pk s \<noteq> 0) (h @ rx_appended limit pk s c) pks"
proof (cases "pk_samples pk = 0")
  case True
  then show ?thesis
    by (simp add: rx_contiguous_after_def rx_appended_def)
next
  case False
  have "unat (rx_contiguous s + pk_samples pk) = unat (rx_contiguous s) + unat (pk_samples pk)"
    using assms(3,4) by (intro unat_plus_u64) linarith
  moreover have "unat (pk_samples pk) \<noteq> 0"
    using False by (simp only: unat_eq_zero not_False_eq_True)
  ultimately have "rx_contiguous s + pk_samples pk \<noteq> 0"
    by (metis add_is_0 unat_0)
  with False assms show ?thesis
    by (auto simp: rx_contiguous_after_def rx_appended_def rx_aborts_def rx_lost_def)
qed

lemma rx_ideal_abort:
  assumes "length h = H" "rx_next s = ts0 + word_of_nat H" "rx_aborts limit pk s"
  shows "rx_appended limit pk s c = []"
    and "rx_ideal limit ts0 c (rx_contiguous s \<noteq> 0) h [pk] = h"
  using assms by (auto simp: rx_aborts_def rx_appended_def rx_lost_def split: if_splits)

lemma rx_contiguous_after_le:
  assumes "unat (rx_contiguous s) \<le> H" "H + unat (pk_samples pk) < 2 ^ 64"
  shows "unat (rx_contiguous_after limit pk s) \<le> H + rx_grown limit pk s"
proof -
  have "unat (rx_contiguous s + pk_samples pk) = unat (rx_contiguous s) + unat (pk_samples pk)"
    using assms by (intro unat_plus_u64) linarith
  with assms(1) show ?thesis
    by (auto simp: rx_contiguous_after_def rx_grown_def rx_aborts_def)
qed

lemma rx_packets_stopped: "\<not> rx_run s \<Longrightarrow> rx_packets rate mx recvs s = []"
  by (cases recvs) simp_all

lemma rx_loop_ok:
  assumes "rx_inv mx ts0 rbs H hs s" "\<forall>r \<in> set recvs. recv_ok (length rbs) mx r"
    and "unat mx < 2 ^ 61" "unat limit < 2 ^ 61" "H + length recvs * (unat limit + unat mx) < 2 ^ 62"
    and "to_u64 rate = Some limit" "rbs \<noteq> []" "unat (rx_contiguous s) \<le> H"
  shows "\<exists>s' H' hs'. rx_loop rate mx recvs s = Some s' \<and> rx_inv mx ts0 rbs H' hs' s' \<and>
    (\<forall>c < length rbs. hs' ! c =
       rx_ideal limit ts0 c (rx_contiguous s \<noteq> 0) (hs ! c) (rx_packets rate mx recvs s))"
  using assms(1,2,5,8)
proof (induction recvs arbitrary: s H hs)
  case Nil
  then show ?case
    by (intro exI [of _ s] exI [of _ H] exI [of _ hs]) simp
next
  case (Cons r recvs)
  show ?case
  proof (cases "rx_run s")
    case False
    with Cons.prems(1) show ?thesis
      by (intro exI [of _ s] exI [of _ H] exI [of _ hs]) simp
  next
    case True
    define pk where "pk = r (rx_request mx s)"
    have ok: "recv_ok (length rbs) mx r" "H < 2 ^ 62"
      using Cons.prems by auto
    from rx_turn_ok [OF Cons.prems(1) this(1) assms(3) this(2) assms(4,6,7) pk_def]
    obtain s1 where s1: "rx_turn rate mx r s = Some s1"
      "rx_inv mx ts0 rbs (H + rx_grown limit pk s) (rx_histories limit pk s hs) s1"
      "rx_contiguous s1 = rx_contiguous_after limit pk s" "rx_run s1 = (rx_run s \<and> \<not> rx_aborts limit pk s)"
      by (auto simp: rx_turn_post_def)
    have grown: "rx_grown limit pk s \<le> unat limit + unat mx"
      using Cons.prems(2) rx_grown_le [of rbs mx r pk s limit] by (simp add: pk_def)
    then have "H + rx_grown limit pk s + length recvs * (unat limit + unat mx) < 2 ^ 62"
      using Cons.prems(3) by simp
    moreover have "unat (pk_samples pk) \<le> unat mx"
      using ok(1) rx_request_le(1) [of mx s] by (auto simp: recv_ok_def pk_def word_le_nat_alt intro: order_trans)
    then have small: "H + unat (pk_samples pk) < 2 ^ 64"
      using ok(2) assms(3) by simp
    ultimately obtain s' H' hs' where s':
      "rx_loop rate mx recvs s1 = Some s'" "rx_inv mx ts0 rbs H' hs' s'"
      "\<forall>c < length rbs. hs' ! c = rx_ideal limit ts0 c (rx_contiguous s1 \<noteq> 0)
         (rx_histories limit pk s hs ! c) (rx_packets rate mx recvs s1)"
      using Cons.IH [OF s1(2)] Cons.prems(2) rx_contiguous_after_le [OF Cons.prems(4) small, of limit]
      by (auto simp: s1(3))
    have packets: "rx_packets rate mx (r # recvs) s = pk # rx_packets rate mx recvs s1"
      using True by (simp add: s1(1) pk_def)
    have "hs' ! c = rx_ideal limit ts0 c (rx_contiguous s \<noteq> 0) (hs ! c) (rx_packets rate mx (r # recvs) s)"
      if c: "c < length rbs" for c
    proof -
      have h: "rx_histories limit pk s hs ! c = hs ! c @ rx_appended limit pk s c" "length (hs ! c) = H"
        "rx_next s = ts0 + word_of_nat H"
        using c Cons.prems(1) by (simp_all add: rx_histories_def rx_inv_def)
      show ?thesis
      proof (cases "rx_aborts limit pk s")
        case False
        from rx_ideal_turn [OF h(2,3) Cons.prems(4) small False] show ?thesis
          using s'(3) c by (simp only: packets h(1) s1(3))
      next
        case abort: True
        then have "rx_packets rate mx recvs s1 = []"
          by (intro rx_packets_stopped) (simp add: s1(4))
        then show ?thesis
          using s'(3) c rx_ideal_abort [OF h(2,3) abort] by (simp only: packets h(1) rx_ideal.simps(1) append_Nil2)
      qed
    qed
    with s' s1(1) True show ?thesis by auto
  qed
qed

subsection \<open>The start time\<close>

lemma mkd_moderate_nat: "n < 2 ^ 53 \<Longrightarrow> mkd (of_nat n) = Fin (of_nat n)"
  by (rule mkd_small [OF rnd_nat]) (auto simp: p2_def intro: less_trans)

lemma nsec_exact:
  assumes "n < 2 ^ 32"
  shows "timespec_to_nsec (int n) (Fin 0) = Some (word_of_nat (n * 1000000000))"
proof -
  have giga: "mkd 1000000000 = Fin 1000000000"
    using mkd_moderate_nat [of 1000000000] by simp
  have n: "of_integer (int n) = Fin (of_nat n)"
    using assms mkd_moderate_nat [of n] by (simp add: of_integer_def)
  have "rnd (of_nat n * 1000000000) = of_nat n * 1000000000"
  proof (rule rnd_exact)
    show "of_nat n * 1000000000 = of_int (int n * 1953125) * p2 9"
      by (simp add: p2_def)
    show "\<bar>int n * 1953125\<bar> < 2 ^ 53"
      using assms by simp
  qed simp
  then have "mkd (of_nat n * 1000000000) = Fin (of_nat n * 1000000000)"
  proof (rule mkd_small)
    have "(of_nat n :: rat) < 2 ^ 32"
      using assms by (metis of_nat_less_iff of_nat_numeral of_nat_power)
    then show "\<bar>of_nat n * 1000000000 :: rat\<bar> < p2 1024"
      by (simp add: p2_def)
  qed
  moreover have "n * 1000000000 < 2 ^ 64"
    using assms by simp
  then have "to_u64 (Fin (of_nat (n * 1000000000))) = Some (word_of_nat (n * 1000000000))"
    by (rule to_u64_nat)
  moreover have "to_u64 (mkd 0) = Some 0"
    by (simp add: mkd_def not_le)
  ultimately show ?thesis
    by (simp add: timespec_to_nsec_def n giga)
qed

text \<open>The state after a successful set-up satisfies the invariant.\<close>

lemma set_descriptor_info_fields:
  "ring_wf (set_descriptor_info ns rate rb) = ring_wf rb"
  "ring_repr (set_descriptor_info ns rate rb) h = ring_repr rb h"
  by (simp_all add: set_descriptor_info_def ring_wf_def ring_repr_def ring_repr_upto_def)

lemma rx_begin_inv:
  assumes "rx_begin rate ticks mx full fr s = Some t"
    and "\<forall>rb \<in> set (rx_rings s). ring_wf rb \<and> ring_repr rb []"
  shows "rx_inv mx (ticks (rx_start_secs full fr)) (rx_rings t) 0 (map (\<lambda>_. []) (rx_rings t)) t"
    "length (rx_rings t) = length (rx_rings s)"
proof -
  obtain ns where ns: "timespec_to_nsec (rx_start_secs full fr) (Fin 0) = Some ns"
    using assms(1) by (auto simp: rx_begin_def Let_def split: option.splits)
  then have t: "rx_rings t = map (set_descriptor_info ns rate) (rx_rings s)"
    "rx_tmp t = map (\<lambda>_. replicate (unat mx) zero_sample) (rx_rings s)"
    "rx_next t = ticks (rx_start_secs full fr)"
    using assms(1) by (auto simp: rx_begin_def Let_def)
  have "ring_holds (rx_rings t ! n) (rx_rings t ! n) []" if "n < length (rx_rings t)" for n
    using assms(2) that by (simp add: t ring_holds_def set_descriptor_info_fields produced_refl)
  then show "rx_inv mx (ticks (rx_start_secs full fr)) (rx_rings t) 0 (map (\<lambda>_. []) (rx_rings t)) t"
    by (simp add: rx_inv_def t)
  show "length (rx_rings t) = length (rx_rings s)"
    by (simp add: t)
qed

lemma rx_discard_fields [simp]:
  "rx_rings (rx_discard pks s) = rx_rings s" "rx_next (rx_discard pks s) = rx_next s"
  "rx_ready (rx_discard pks s) = rx_ready s"
  by (induction pks s rule: rx_discard.induct) (simp_all add: rx_say_def)

lemma rx_turn_ready: "rx_turn rate mx recv s = Some t \<Longrightarrow> rx_ready t = rx_ready s"
  by (auto simp: rx_turn_def rx_buffers_def rx_deliver_def rx_on_error_def rx_accept_def rx_place_def
      rx_noted_def rx_advance_def rx_say_def Let_def
      split: prod.splits if_splits rx_error.splits option.splits)

lemma rx_loop_ready: "rx_loop rate mx recvs s = Some t \<Longrightarrow> rx_ready t = rx_ready s"
  by (induction rate mx recvs s rule: rx_loop.induct)
    (auto split: if_splits bind_splits dest: rx_turn_ready)

lemma rx_begin_ok:
  assumes "rx_start_secs full fr = int n" "n < 2 ^ 32"
  obtains t where "rx_begin rate ticks mx full fr s = Some t" "rx_ready t"
    "rx_rings t = map (set_descriptor_info (word_of_nat (n * 1000000000)) rate) (rx_rings s)"
    "rx_run t = rx_run s" "rx_contiguous t = 0"
  using nsec_exact [OF assms(2)] by (auto simp: rx_begin_def Let_def assms(1) rx_say_def)

subsection \<open>Properties of the receive thread\<close>

text \<open>The packets of a whole run.\<close>

definition rx_all_packets :: "dbl \<Rightarrow> (int \<Rightarrow> u64) \<Rightarrow> u64 \<Rightarrow> int \<Rightarrow> dbl \<Rightarrow> (u64 \<Rightarrow> rx_packet) list \<Rightarrow>
    rx_state \<Rightarrow> rx_packet list" where
  "rx_all_packets rate ticks mx full fr recvs s =
     (case rx_begin rate ticks mx full fr s of None \<Rightarrow> [] | Some t \<Rightarrow> rx_packets rate mx recvs t)"

text \<open>
  The thread against the ideal receiver: it terminates with every ring holding the ideal history of
  its channel, and every ring came about by the steps of a producer.
\<close>

lemma rx_worker_ok:
  assumes "\<forall>rb \<in> set (rx_rings s). ring_wf rb \<and> ring_repr rb []" "rx_rings s \<noteq> []"
    and "rx_start_secs full fr = int n" "n < 2 ^ 32" "to_u64 rate = Some limit"
    and "\<forall>r \<in> set recvs. recv_ok (length (rx_rings s)) mx r"
    and "unat mx < 2 ^ 61" "unat limit < 2 ^ 61" "length recvs * (unat limit + unat mx) < 2 ^ 62"
  obtains s' hs where "rx_worker None rate ticks mx full fr recvs rest s = Some s'"
    "\<not> rx_run s'" "rx_ready s'"
    "hs = (\<lambda>c. rx_ideal limit (ticks (int n)) c False [] (rx_all_packets rate ticks mx full fr recvs s))"
    "rx_next s' = ticks (int n) + word_of_nat (length (hs 0))" "length (rx_rings s') = length (rx_rings s)"
    "\<And>c. c < length (rx_rings s) \<Longrightarrow>
       ring_holds (set_descriptor_info (word_of_nat (n * 1000000000)) rate (rx_rings s ! c)) (rx_rings s' ! c) (hs c) \<and>
       length (hs c) = length (hs 0)"
proof -
  obtain t where t: "rx_begin rate ticks mx full fr s = Some t" "rx_ready t"
    "rx_rings t = map (set_descriptor_info (word_of_nat (n * 1000000000)) rate) (rx_rings s)"
    "rx_contiguous t = 0"
    by (rule rx_begin_ok [OF assms(3,4)])
  note B = rx_begin_inv [OF t(1) assms(1), unfolded assms(3)]
  define hs where "hs = (\<lambda>c. rx_ideal limit (ticks (int n)) c False [] (rx_all_packets rate ticks mx full fr recvs s))"
  obtain u H hl where u: "rx_loop rate mx recvs t = Some u" "rx_inv mx (ticks (int n)) (rx_rings t) H hl u"
    "\<forall>c < length (rx_rings s). hl ! c = hs c"
    using rx_loop_ok [OF B(1) _ assms(7,8) _ assms(5), of recvs] assms(2,6,9) B(2)
    by (auto simp: t(1,3,4) hs_def rx_all_packets_def)
  define s' where "s' = rx_end rest u"
  have s': "rx_rings s' = rx_rings u" "rx_next s' = rx_next u"
    by (simp_all add: s'_def rx_end_def)
  have H: "length (hs c) = H" if "c < length (rx_rings s)" for c
    using u(2,3) that by (auto simp: rx_inv_def B(2))
  then have H0: "length (hs 0) = H"
    using assms(2) by simp
  show ?thesis
  proof (rule that [OF _ _ _ hs_def])
    show "rx_worker None rate ticks mx full fr recvs rest s = Some s'"
      by (simp add: rx_worker_def t(1) u(1) s'_def)
    show "\<not> rx_run s'" "rx_ready s'"
      using rx_loop_ready [OF u(1)] t(2) by (simp_all add: s'_def rx_end_def rx_say_def)
    show "rx_next s' = ticks (int n) + word_of_nat (length (hs 0))" "length (rx_rings s') = length (rx_rings s)"
      using u(2) by (simp_all add: s' rx_inv_def B(2) H0)
    show "ring_holds (set_descriptor_info (word_of_nat (n * 1000000000)) rate (rx_rings s ! c)) (rx_rings s' ! c) (hs c) \<and>
        length (hs c) = length (hs 0)" if "c < length (rx_rings s)" for c
      using u(2,3) that H [OF that] H0 by (auto simp: s' rx_inv_def t(3))
  qed
qed

text \<open>
  What UHD documents of the time stamps: packets follow each other without a gap unless an overflow
  was reported between them. \<open>e\<close> is the time stamp that the next packet with samples has to have, if any.
\<close>

fun stamps_ok :: "u64 option \<Rightarrow> rx_packet list \<Rightarrow> bool" where
  "stamps_ok e [] \<longleftrightarrow> True"
| "stamps_ok e (pk # pks) \<longleftrightarrow>
     (if pk_samples pk = 0 then stamps_ok (if pk_error pk = ERROR_CODE_OVERFLOW then None else e) pks
      else (e = None \<or> e = Some (pk_ticks pk)) \<and> stamps_ok (Some (pk_ticks pk + pk_samples pk)) pks)"

text \<open>
  The packets with samples up to the first gap that is too long, each with the flag that tells if
  nothing was missing before it. \<open>next\<close> is the end of what was received.
\<close>

fun rx_taken :: "u64 \<Rightarrow> u64 \<Rightarrow> bool \<Rightarrow> rx_packet list \<Rightarrow> (bool \<times> rx_packet) list" where
  "rx_taken limit nxt ct [] = []"
| "rx_taken limit nxt ct (pk # pks) =
     (if pk_samples pk = 0 then rx_taken limit nxt (ct \<and> pk_error pk \<noteq> ERROR_CODE_OVERFLOW) pks
      else if \<not> ct \<and> limit < pk_ticks pk - nxt then []
      else (ct, pk) # rx_taken limit (pk_ticks pk + pk_samples pk) True pks)"

text \<open>
  A packet stands at the index that is its time stamp minus the one of index 0, with the samples of
  its channel, or of channel 0 after a gap; and a packet covers an index.
\<close>

definition placed :: "u64 \<Rightarrow> nat \<Rightarrow> sample list \<Rightarrow> bool \<times> rx_packet \<Rightarrow> bool" where
  "placed ts0 c h x = (case x of (ct, pk) \<Rightarrow>
     unat (pk_ticks pk - ts0) + unat (pk_samples pk) \<le> length h \<and>
     block (unat (pk_ticks pk - ts0)) (unat (pk_samples pk)) h = pk_data pk ! (if ct then c else 0))"

definition covers :: "u64 \<Rightarrow> nat \<Rightarrow> bool \<times> rx_packet \<Rightarrow> bool" where
  "covers ts0 i x = (case x of (ct, pk) \<Rightarrow>
     unat (pk_ticks pk - ts0) \<le> i \<and> i < unat (pk_ticks pk - ts0) + unat (pk_samples pk))"

definition on_time :: "u64 \<Rightarrow> u64 \<Rightarrow> nat \<Rightarrow> rx_packet list \<Rightarrow> sample list \<Rightarrow> bool" where
  "on_time limit ts0 c pks h \<longleftrightarrow>
     (\<forall>x \<in> set (rx_taken limit ts0 False pks). placed ts0 c h x) \<and>
     (\<forall>i < length h. h ! i = zero_sample \<or> (\<exists>x \<in> set (rx_taken limit ts0 False pks). covers ts0 i x))"

lemma placed_append: "placed ts0 c h x \<Longrightarrow> placed ts0 c (h @ t) x"
  by (auto simp: placed_def block_append_left)

lemma rx_ideal_extends: "\<exists>t. rx_ideal limit ts0 c ct h pks = h @ t"
  by (induction limit ts0 c ct h pks rule: rx_ideal.induct) (auto simp: Let_def)

lemma rx_ideal_length:
  "\<forall>pk \<in> set pks. length (pk_data pk ! c) \<le> mx \<and> length (pk_data pk ! 0) \<le> mx \<Longrightarrow>
   length (rx_ideal limit ts0 c ct h pks) \<le> length h + length pks * (unat limit + mx)"
proof (induction pks arbitrary: ct h)
  case (Cons pk pks)
  have d: "length (pk_data pk ! c) \<le> mx" "length (pk_data pk ! 0) \<le> mx"
    "\<forall>pk \<in> set pks. length (pk_data pk ! c) \<le> mx \<and> length (pk_data pk ! 0) \<le> mx"
    using Cons.prems by simp_all
  let ?lost = "pk_ticks pk - (ts0 + word_of_nat (length h))"
  have l: "unat ?lost \<le> unat limit" if "\<not> limit < ?lost"
    using that by (simp add: not_less word_le_nat_alt)
  note IH = Cons.IH [OF d(3), of "ct \<and> pk_error pk \<noteq> ERROR_CODE_OVERFLOW" h]
    Cons.IH [OF d(3), of True "h @ pk_data pk ! c"]
    Cons.IH [OF d(3), of True "h @ replicate (unat ?lost) zero_sample @ pk_data pk ! 0"]
  consider "pk_samples pk = 0" | "pk_samples pk \<noteq> 0" "ct"
    | "pk_samples pk \<noteq> 0" "\<not> ct" "limit < ?lost" | "pk_samples pk \<noteq> 0" "\<not> ct" "\<not> limit < ?lost"
    by blast
  then show ?case
  proof cases
    case 1
    then show ?thesis using IH(1) by (simp add: Let_def)
  next
    case 2
    then show ?thesis using IH(2) d(1) by (simp add: Let_def)
  next
    case 3
    then show ?thesis by (simp add: Let_def)
  next
    case 4
    then show ?thesis using IH(3) d(2) l by (simp add: Let_def)
  qed
qed simp

text \<open>Appending \<open>n\<close> zeros and the packet's samples to \<open>h\<close> puts the packet where its time stamp says.\<close>

lemma placed_after:
  assumes "pk_ticks pk = ts0 + word_of_nat (length h + n)" "length h + n < 2 ^ 64"
    and "d = pk_data pk ! (if ct then c else 0)" "length d = unat (pk_samples pk)"
  shows "placed ts0 c (h @ replicate n zero_sample @ d) (ct, pk)"
    and "length h \<le> i \<Longrightarrow> i < length (h @ replicate n zero_sample @ d) \<Longrightarrow>
      (h @ replicate n zero_sample @ d) ! i = zero_sample \<or> covers ts0 i (ct, pk)"
    and "ts0 + word_of_nat (length (h @ replicate n zero_sample @ d)) = pk_ticks pk + pk_samples pk"
proof -
  have "unat (pk_ticks pk - ts0) = length h + n"
    unfolding assms(1) add_diff_cancel_left' by (rule unat_word_of_nat_u64 [OF assms(2)])
  then show "placed ts0 c (h @ replicate n zero_sample @ d) (ct, pk)"
    and "length h \<le> i \<Longrightarrow> i < length (h @ replicate n zero_sample @ d) \<Longrightarrow>
      (h @ replicate n zero_sample @ d) ! i = zero_sample \<or> covers ts0 i (ct, pk)"
    using assms(3,4) by (auto simp: placed_def covers_def block_def nth_append)
  have "(word_of_nat (length (h @ replicate n zero_sample @ d)) :: u64) = word_of_nat (length h + n) + pk_samples pk"
    by (simp only: length_append length_replicate assms(4) add.assoc [symmetric] of_nat_add of_nat_unat ucast_id)
  then show "ts0 + word_of_nat (length (h @ replicate n zero_sample @ d)) = pk_ticks pk + pk_samples pk"
    by (simp only: assms(1) add.assoc)
qed

lemma rx_ideal_on_time:
  assumes "\<forall>pk \<in> set pks. length (pk_data pk ! c) = unat (pk_samples pk) \<and> length (pk_data pk ! 0) = unat (pk_samples pk)"
    and "stamps_ok (if ct then Some (ts0 + word_of_nat (length h)) else None) pks"
    and "length (rx_ideal limit ts0 c ct h pks) < 2 ^ 64"
  shows "(\<forall>x \<in> set (rx_taken limit (ts0 + word_of_nat (length h)) ct pks). placed ts0 c (rx_ideal limit ts0 c ct h pks) x) \<and>
    (\<forall>i. length h \<le> i \<and> i < length (rx_ideal limit ts0 c ct h pks) \<longrightarrow> rx_ideal limit ts0 c ct h pks ! i = zero_sample \<or>
      (\<exists>x \<in> set (rx_taken limit (ts0 + word_of_nat (length h)) ct pks). covers ts0 i x))"
  using assms
proof (induction pks arbitrary: ct h)
  case (Cons pk pks)
  let ?nxt = "ts0 + word_of_nat (length h)"
  let ?lost = "pk_ticks pk - ?nxt"
  have d: "length (pk_data pk ! c) = unat (pk_samples pk)" "length (pk_data pk ! 0) = unat (pk_samples pk)"
    "\<forall>pk \<in> set pks. length (pk_data pk ! c) = unat (pk_samples pk) \<and> length (pk_data pk ! 0) = unat (pk_samples pk)"
    using Cons.prems(1) by simp_all
  consider (none) "pk_samples pk = 0" | (stop) "pk_samples pk \<noteq> 0" "\<not> ct" "limit < ?lost"
    | (take) "pk_samples pk \<noteq> 0" "ct \<or> \<not> limit < ?lost" by blast
  then show ?case
  proof cases
    case none
    then show ?thesis
      using Cons.IH [OF d(3), of "ct \<and> pk_error pk \<noteq> ERROR_CODE_OVERFLOW" h] Cons.prems(2,3)
      by (auto simp: Let_def split: if_splits)
  next
    case stop
    then show ?thesis by (auto simp: Let_def)
  next
    case take
    define n where "n = (if ct then 0 else unat ?lost)"
    define h1 where "h1 = h @ replicate n zero_sample @ pk_data pk ! (if ct then c else 0)"
    have ideal: "rx_ideal limit ts0 c ct h (pk # pks) = rx_ideal limit ts0 c True h1 pks"
      using take by (auto simp: Let_def h1_def n_def)
    have taken: "rx_taken limit ?nxt ct (pk # pks) = (ct, pk) # rx_taken limit (pk_ticks pk + pk_samples pk) True pks"
      using take by auto
    obtain t where t: "rx_ideal limit ts0 c True h1 pks = h1 @ t"
      using rx_ideal_extends by blast
    have "length h + n \<le> length h1"
      by (simp add: h1_def)
    then have small: "length h + n < 2 ^ 64"
      using Cons.prems(3) unfolding ideal t by simp
    have "ct \<Longrightarrow> pk_ticks pk = ?nxt"
      using Cons.prems(2) take(1) by simp
    then have "pk_ticks pk = ?nxt + word_of_nat n"
      by (simp add: n_def)
    then have ticks: "pk_ticks pk = ts0 + word_of_nat (length h + n)"
      by (simp add: add.assoc)
    note P = placed_after [OF ticks small refl [of "pk_data pk ! (if ct then c else 0)"], folded h1_def]
    have len: "length (pk_data pk ! (if ct then c else 0)) = unat (pk_samples pk)"
      using d(1,2) by simp
    have rest: "stamps_ok (Some (ts0 + word_of_nat (length h1))) pks"
      using Cons.prems(2) take(1) by (simp add: P(3) [OF len])
    from Cons.IH [OF d(3), of True h1] rest Cons.prems(3) have IH:
      "\<forall>x \<in> set (rx_taken limit (pk_ticks pk + pk_samples pk) True pks). placed ts0 c (h1 @ t) x"
      "\<forall>i. length h1 \<le> i \<and> i < length (h1 @ t) \<longrightarrow> (h1 @ t) ! i = zero_sample \<or>
        (\<exists>x \<in> set (rx_taken limit (pk_ticks pk + pk_samples pk) True pks). covers ts0 i x)"
      unfolding ideal t P(3) [OF len] by simp_all
    have "placed ts0 c (h1 @ t) (ct, pk)"
      by (rule placed_append [OF P(1) [OF len]])
    moreover have "(h1 @ t) ! i = zero_sample \<or> covers ts0 i (ct, pk)" if "length h \<le> i" "i < length h1" for i
      using P(2) [OF len, of i] that by (simp add: nth_append)
    ultimately show ?thesis
      unfolding ideal taken t using IH by (auto simp: not_less) (meson not_less)
  qed
qed auto

text \<open>The packets of a run are what the radio may return.\<close>

lemma rx_packets_ok:
  "\<forall>r \<in> set recvs. recv_ok nch mx r \<Longrightarrow> pk \<in> set (rx_packets rate mx recvs s) \<Longrightarrow> c < nch \<Longrightarrow>
   length (pk_data pk ! c) = unat (pk_samples pk) \<and> unat (pk_samples pk) \<le> unat mx"
proof (induction recvs arbitrary: s)
  case (Cons r recvs)
  have "recv_ok nch mx r"
    using Cons.prems(1) by simp
  then have "length (pk_data (r m) ! c) = unat (pk_samples (r m)) \<and> unat (pk_samples (r m)) \<le> unat mx" if "m \<le> mx" for m
    using Cons.prems(3) that unfolding recv_ok_def by (meson order_trans word_le_nat_alt)
  then show ?case
    using Cons rx_request_le(1) by (fastforce split: if_splits option.splits)
qed simp

lemma length_rx_packets: "length (rx_packets rate mx recvs s) \<le> length recvs"
  by (induction recvs arbitrary: s) (auto split: option.split)

lemma rx_all_packets_ok:
  assumes "\<forall>r \<in> set recvs. recv_ok nch mx r" "pk \<in> set (rx_all_packets rate ticks mx full fr recvs s)" "c < nch"
  shows "length (pk_data pk ! c) = unat (pk_samples pk) \<and> unat (pk_samples pk) \<le> unat mx"
  using assms rx_packets_ok by (fastforce simp: rx_all_packets_def split: option.splits)

lemma length_rx_all_packets: "length (rx_all_packets rate ticks mx full fr recvs s) \<le> length recvs"
  using length_rx_packets by (auto simp: rx_all_packets_def split: option.split)

lemma rx_history_on_time:
  assumes "\<forall>r \<in> set recvs. recv_ok nch mx r" "length recvs * (unat limit + unat mx) < 2 ^ 62" "c < nch"
    and "pks = rx_all_packets rate ticks mx full fr recvs s" "stamps_ok None pks"
  shows "on_time limit start c pks (rx_ideal limit start c False [] pks)"
proof -
  have "0 < nch"
    using assms(3) by simp
  then have d: "\<forall>pk \<in> set pks. length (pk_data pk ! c) = unat (pk_samples pk) \<and> length (pk_data pk ! 0) = unat (pk_samples pk)"
    "\<forall>pk \<in> set pks. length (pk_data pk ! c) \<le> unat mx \<and> length (pk_data pk ! 0) \<le> unat mx"
    using rx_all_packets_ok [OF assms(1)] assms(3) unfolding assms(4) by metis+
  have "length pks * (unat limit + unat mx) \<le> length recvs * (unat limit + unat mx)"
    unfolding assms(4) by (intro mult_le_mono1 length_rx_all_packets)
  moreover have "length (rx_ideal limit start c False [] pks) \<le> length pks * (unat limit + unat mx)"
    using rx_ideal_length [OF d(2), of limit start False "[]"] by simp
  ultimately have "length (rx_ideal limit start c False [] pks) < 2 ^ 62"
    using assms(2) by linarith
  then have "length (rx_ideal limit start c False [] pks) < 2 ^ 64"
    by simp
  with rx_ideal_on_time [OF d(1), of False start "[]" limit] assms(5) show ?thesis
    by (simp add: on_time_def)
qed

text \<open>
  C4. Alignment of the rings, end to end: whatever the radio returns within its contract (overflows,
  errors, gaps, short packets), the thread terminates, and at its end all rings are well-formed
  and hold histories of the same length \<open>H\<close>, namely what the ideal receiver makes of the packets, the
  expected time stamp is the start time stamp plus \<open>H\<close>, and every descriptor holds the start second in
  nanoseconds. Since the code looks at the time stamp only after a gap, sample \<open>i\<close> belongs to time stamp
  start + \<open>i\<close> under one more assumption, which UHD documents: without an overflow in between, packets
  are contiguous. Then in every ring every packet that was taken stands at its time stamp minus the
  start time stamp, and everything between the packets is zero. After a gap the packet is channel 0's in
  all rings.
\<close>

theorem rx_worker_aligned:
  assumes "\<forall>rb \<in> set (rx_rings s). ring_wf rb \<and> ring_repr rb []" "rx_rings s \<noteq> []"
    and "rx_start_secs full fr = int n" "n < 2 ^ 32" "to_u64 rate = Some limit"
    and "\<forall>r \<in> set recvs. recv_ok (length (rx_rings s)) mx r"
    and "unat mx < 2 ^ 61" "unat limit < 2 ^ 61" "length recvs * (unat limit + unat mx) < 2 ^ 62"
  shows "\<exists>s' H hs. rx_worker None rate ticks mx full fr recvs rest s = Some s' \<and>
    \<not> rx_run s' \<and> rx_ready s' \<and> rx_next s' = ticks (int n) + word_of_nat H \<and>
    length (rx_rings s') = length (rx_rings s) \<and>
    (\<forall>c < length (rx_rings s). ring_wf (rx_rings s' ! c) \<and> ring_repr (rx_rings s' ! c) (hs ! c) \<and>
       length (hs ! c) = H \<and> rb_start_nsec (rx_rings s' ! c) = word_of_nat (n * 1000000000) \<and>
       hs ! c = rx_ideal limit (ticks (int n)) c False [] (rx_all_packets rate ticks mx full fr recvs s) \<and>
       (stamps_ok None (rx_all_packets rate ticks mx full fr recvs s) \<longrightarrow>
         on_time limit (ticks (int n)) c (rx_all_packets rate ticks mx full fr recvs s) (hs ! c)))"
proof -
  obtain s' hs where s': "rx_worker None rate ticks mx full fr recvs rest s = Some s'"
    "\<not> rx_run s'" "rx_ready s'"
    "hs = (\<lambda>c. rx_ideal limit (ticks (int n)) c False [] (rx_all_packets rate ticks mx full fr recvs s))"
    "rx_next s' = ticks (int n) + word_of_nat (length (hs 0))" "length (rx_rings s') = length (rx_rings s)"
    "\<And>c. c < length (rx_rings s) \<Longrightarrow>
       ring_holds (set_descriptor_info (word_of_nat (n * 1000000000)) rate (rx_rings s ! c)) (rx_rings s' ! c) (hs c) \<and>
       length (hs c) = length (hs 0)"
    using rx_worker_ok [OF assms, where ticks = ticks and rest = rest] by blast
  then show ?thesis
    using rx_history_on_time [OF assms(6,9) _ refl, where start = "ticks (int n)" and rate = rate and ticks = ticks
        and full = full and fr = fr and s = s]
    by (intro exI [of _ s'] exI [of _ "length (hs 0)"] exI [of _ "map hs [0..<length (rx_rings s)]"])
      (auto simp: ring_holds_def same_ring_def set_descriptor_info_def)
qed

text \<open>
  C11. Where a packet goes: unless more than a second is lost, a packet with samples is found in
  the history at the index that is its time stamp minus the start time stamp, and the gap before
  it is zeros, in contiguous operation under the documented assumption that the packet is the
  expected one. A packet after a gap is copied from the buffer of channel 0 into every ring:
  with several channels, the others get channel 0's samples.
\<close>

theorem rx_packet_position:
  assumes "rx_inv mx ts0 rbs H hs s" "recv_ok (length rbs) mx recv" "rbs \<noteq> []"
    and "unat mx < 2 ^ 61" "H < 2 ^ 62" "unat limit < 2 ^ 61" "to_u64 rate = Some limit"
    and "pk = recv (rx_request mx s)" "pk_samples pk \<noteq> 0"
    and "rx_contiguous s \<noteq> 0 \<Longrightarrow> pk_ticks pk = rx_next s" "pk_ticks pk - rx_next s \<le> limit"
  shows "\<exists>s' H' hs'. rx_turn rate mx recv s = Some s' \<and> rx_inv mx ts0 rbs H' hs' s' \<and>
    (\<forall>c < length rbs. take H (hs' ! c) = hs ! c \<and>
      drop (unat (pk_ticks pk - ts0)) (hs' ! c) = pk_data pk ! (if rx_contiguous s \<noteq> 0 then c else 0) \<and>
      (\<forall>i. H \<le> i \<and> i < unat (pk_ticks pk - ts0) \<longrightarrow> hs' ! c ! i = zero_sample))"
proof -
  obtain s' where s': "rx_turn rate mx recv s = Some s'"
    "rx_inv mx ts0 rbs (H + rx_grown limit pk s) (rx_histories limit pk s hs) s'"
    using rx_turn_ok [OF assms(1,2,4-7,3,8)] by (auto simp: rx_turn_post_def)
  have L: "\<not> limit < rx_lost pk s"
    using assms(11) by (simp add: rx_lost_def not_less)
  have L2: "unat (rx_lost pk s) \<le> unat limit"
    using assms(11) by (simp add: rx_lost_def word_le_nat_alt)
  have "pk_ticks pk - ts0 = word_of_nat H + rx_lost pk s"
    using assms(1) by (simp add: rx_lost_def rx_inv_def)
  also have "unat \<dots> = H + unat (rx_lost pk s)"
    using L2 assms(5,6) unat_plus_nat_u64 [of "rx_lost pk s" H] by (simp add: add.commute)
  finally have idx: "unat (pk_ticks pk - ts0) = H + unat (rx_lost pk s)" .
  have "take H (rx_histories limit pk s hs ! c) = hs ! c \<and>
      drop (unat (pk_ticks pk - ts0)) (rx_histories limit pk s hs ! c) =
        pk_data pk ! (if rx_contiguous s \<noteq> 0 then c else 0) \<and>
      (\<forall>i. H \<le> i \<and> i < unat (pk_ticks pk - ts0) \<longrightarrow> rx_histories limit pk s hs ! c ! i = zero_sample)"
    if c: "c < length rbs" for c
  proof -
    have "length (hs ! c) = H" "length hs = length rbs"
      using assms(1) c by (simp_all add: rx_inv_def)
    moreover have "rx_contiguous s \<noteq> 0 \<Longrightarrow> rx_lost pk s = 0"
      using assms(10) by (simp add: rx_lost_def)
    ultimately show ?thesis
      using L assms(9) c by (auto simp: rx_histories_def rx_appended_def idx nth_append)
  qed
  with s' show ?thesis by blast
qed

text \<open>
  C23. Giving up: if more samples were lost than fit in one second, or \<open>recv\<close> fails with anything
  but an overflow, the turn clears \<open>run\<close> and appends nothing to any ring; after an overflow the
  thread goes on, and the next packet is placed by its time stamp.
\<close>

theorem rx_gives_up:
  assumes "rx_inv mx ts0 rbs H hs s" "recv_ok (length rbs) mx recv" "rbs \<noteq> []"
    and "unat mx < 2 ^ 61" "H < 2 ^ 62" "unat limit < 2 ^ 61" "to_u64 rate = Some limit"
    and "pk = recv (rx_request mx s)"
    and "pk_samples pk = 0 \<or> rx_contiguous s = 0 \<and> limit < pk_ticks pk - rx_next s"
  shows "\<exists>s'. rx_turn rate mx recv s = Some s' \<and> rx_inv mx ts0 rbs H hs s' \<and>
    (rx_run s' \<longleftrightarrow> rx_run s \<and> pk_samples pk = 0 \<and> pk_error pk \<in> {ERROR_CODE_NONE, ERROR_CODE_OVERFLOW}) \<and>
    (pk_samples pk = 0 \<and> pk_error pk = ERROR_CODE_OVERFLOW \<longrightarrow> rx_contiguous s' = 0)"
proof -
  obtain s' where s': "rx_turn rate mx recv s = Some s'" "rx_turn_post mx ts0 rbs H hs limit pk s s'"
    using rx_turn_ok [OF assms(1,2,4-7,3,8)] by auto
  have "rx_histories limit pk s hs = hs"
  proof (rule rx_histories_same)
    show "length hs = length rbs"
      using assms(1) by (simp add: rx_inv_def)
    show "rx_appended limit pk s n = []" for n
      using assms(9) by (auto simp: rx_appended_def rx_lost_def)
  qed
  moreover have "rx_grown limit pk s = 0"
    using assms(9) by (auto simp: rx_grown_def rx_lost_def)
  ultimately have "rx_inv mx ts0 rbs H hs s'" and
    flags: "rx_contiguous s' = rx_contiguous_after limit pk s" "rx_run s' = (rx_run s \<and> \<not> rx_aborts limit pk s)"
    using s'(2) by (simp_all add: rx_turn_post_def)
  with s'(1) show ?thesis
    using assms(9) by (auto simp: rx_aborts_def rx_contiguous_after_def rx_lost_def)
qed

text \<open>
  C24. The start time is the full second that is more than half a second and at most one and a
  half seconds ahead of the radio's clock, and it is stored exactly, in nanoseconds, in the
  descriptor, in spite of the floating point, until the year 2106.
\<close>

theorem rx_start_time:
  assumes "0 \<le> f" "f < 1" "full + 2 < 2 ^ 32"
  shows "of_nat full + f + 1 / 2 < of_int (rx_start_secs (int full) (Fin f)) \<and>
    of_int (rx_start_secs (int full) (Fin f)) \<le> of_nat full + f + 3 / 2 \<and>
    map_option unat (timespec_to_nsec (rx_start_secs (int full) (Fin f)) (Fin 0)) =
      Some (nat (rx_start_secs (int full) (Fin f)) * 1000000000)"
proof -
  have half: "mkd (1 / 2) = Fin (1 / 2)"
    by (rule mkd_small, rule rnd_exact [where m = 1 and k = "- 1"]) (simp_all add: p2_def)
  define n where "n = (if f < 1 / 2 then full + 1 else full + 2)"
  have start: "rx_start_secs (int full) (Fin f) = int n"
    by (simp add: rx_start_secs_def half n_def)
  have n: "n < 2 ^ 32"
    using assms(3) by (simp add: n_def)
  then have "unat (word_of_nat (n * 1000000000) :: u64) = n * 1000000000"
    by (intro unat_word_of_nat_u64) simp
  with nsec_exact [OF n]
  have "map_option unat (timespec_to_nsec (int n) (Fin 0)) = Some (n * 1000000000)"
    by (simp only: option.map)
  then show ?thesis
    using assms(1,2) by (simp add: start n_def)
qed

text \<open>
  A start-up hang: the constructor waits on the latch, and the thread counts it down only
  after \<^verbatim>\<open>sched_setscheduler\<close> succeeded. If that call fails (the process may not use real-time
  priorities), the thread logs the error and ends, and the latch is never counted down.
\<close>

theorem rx_start_hang:
  "\<exists>s'. rx_worker (Some errno) rate ticks mx full fr recvs rest s = Some s' \<and>
    rx_ready s' = rx_ready s \<and> \<not> rx_run s' \<and>
    Rx_exception (Syscall_error ''sched_setscheduler() failed'' errno) \<in> set (rx_logs s')"
  by (simp add: rx_worker_def rx_failed_def rx_say_def)

subsection \<open>A concrete receiver\<close>

text \<open>One channel with a ring of four samples, packets of at most two samples, ten per second.\<close>

definition demo_rx :: rx_state where
  "demo_rx = \<lparr>rx_run = True, rx_ready = False, rx_rings = [ringbuf_new 16 4 zero_sample], rx_tmp = [],
     rx_next = 0, rx_timeout = 20, rx_contiguous = 0, rx_continuous = 0, rx_logs = []\<rparr>"

definition demo_recv :: "u64 \<Rightarrow> u64 \<Rightarrow> rx_packet" where
  "demo_recv ticks m = \<lparr>pk_samples = min m 2, pk_data = [take (unat (min m 2)) [(1, 2), (3, 4)]],
     pk_error = ERROR_CODE_NONE, pk_sob = False, pk_eob = False, pk_ticks = ticks\<rparr>"

definition demo_lost :: "u64 \<Rightarrow> rx_packet" where
  "demo_lost m = \<lparr>pk_samples = 0, pk_data = [[]], pk_error = ERROR_CODE_OVERFLOW, pk_sob = False,
     pk_eob = False, pk_ticks = 0\<rparr>"

lemma demo_recv_ok: "recv_ok (Suc 0) 2 (demo_recv t)" "recv_ok (Suc 0) 2 demo_lost"
proof -
  have "min (Suc (Suc 0)) (unat m) = unat m" if "m \<le> 2" for m :: u64
    using that by (simp add: word_le_nat_alt)
  then show "recv_ok (Suc 0) 2 (demo_recv t)" "recv_ok (Suc 0) 2 demo_lost"
    by (simp_all add: recv_ok_def demo_recv_def demo_lost_def)
qed

lemma demo_rx_rings: "\<forall>rb \<in> set (rx_rings demo_rx). ring_wf rb \<and> ring_repr rb []"
  using ringbuf_new_ok [of 2 16 4 zero_sample] by (simp add: demo_rx_def)

lemma demo_start: "rx_start_secs 5 (Fin (1 / 4)) = int 6"
proof -
  have "mkd (1 / 2) = Fin (1 / 2)"
    by (rule mkd_small, rule rnd_exact [where m = 1 and k = "- 1"]) (simp_all add: p2_def)
  then show ?thesis by (simp add: rx_start_secs_def)
qed

lemma demo_limit: "to_u64 (Fin 10) = Some 10"
  by simp

text \<open>The state after the set-up: the invariant holds with empty histories.\<close>

definition demo_begun :: rx_state where
  "demo_begun = the (rx_begin (Fin 10) (\<lambda>s. word_of_int (10 * s)) 2 5 (Fin (1 / 4)) demo_rx)"

lemma demo_begun_inv:
  "rx_inv 2 60 (rx_rings demo_begun) 0 [[]] demo_begun" "length (rx_rings demo_begun) = Suc 0" "rx_rings demo_begun \<noteq> []"
  "rx_contiguous demo_begun = 0" "rx_next demo_begun = 60"
proof -
  obtain t where t: "rx_begin (Fin 10) (\<lambda>s. word_of_int (10 * s)) 2 5 (Fin (1 / 4)) demo_rx = Some t"
    "rx_contiguous t = 0"
    by (rule rx_begin_ok [OF demo_start]) auto
  have "length (rx_rings t) = Suc 0"
    using rx_begin_inv(2) [OF t(1) demo_rx_rings] by (simp add: demo_rx_def)
  then obtain rb where "rx_rings t = [rb]"
    by (auto simp: length_Suc_conv)
  with t rx_begin_inv(1) [OF t(1) demo_rx_rings]
  show "rx_inv 2 60 (rx_rings demo_begun) 0 [[]] demo_begun" "length (rx_rings demo_begun) = Suc 0" "rx_rings demo_begun \<noteq> []"
    "rx_contiguous demo_begun = 0" "rx_next demo_begun = 60"
    by (simp_all add: demo_begun_def demo_start rx_inv_def)
qed

text \<open>The demo's run: a packet that comes three samples late, an overflow, and a packet after a gap of four.\<close>

lemma demo_packets:
  obtains m where "rx_all_packets (Fin 10) (\<lambda>s. word_of_int (10 * s)) 2 5 (Fin (1 / 4))
      [demo_recv 63, demo_lost, demo_recv 69] demo_rx = [demo_recv 63 2, demo_lost m, demo_recv 69 2]"
proof -
  let ?limit = "10 :: u64"
  obtain t where t: "rx_begin (Fin 10) (\<lambda>s. word_of_int (10 * s)) 2 5 (Fin (1 / 4)) demo_rx = Some t" "rx_run t"
    by (rule rx_begin_ok [OF demo_start, where ticks = "\<lambda>s. word_of_int (10 * s)" and rate = "Fin 10" and mx = 2 and s = demo_rx])
      (auto simp: demo_rx_def)
  have begun: "t = demo_begun"
    by (simp only: demo_begun_def t(1) option.sel)
  note B = demo_begun_inv
  have req: "rx_contiguous s = 0 \<Longrightarrow> rx_request 2 s = 2" for s
    by (simp add: rx_request_def rx_buffers_def)
  have ok: "recv_ok (length (rx_rings demo_begun)) 2 (demo_recv k)" "recv_ok (length (rx_rings demo_begun)) 2 demo_lost" for k
    using demo_recv_ok by (simp_all add: B(2))
  obtain s1 where s1: "rx_turn (Fin 10) 2 (demo_recv 63) demo_begun = Some s1"
    "rx_turn_post 2 60 (rx_rings demo_begun) 0 [[]] ?limit (demo_recv 63 2) demo_begun s1"
    using rx_turn_ok [OF B(1) ok(1) _ _ _ demo_limit B(3) refl, of 63] req [OF B(4)] by auto
  then have I1: "rx_inv 2 60 (rx_rings demo_begun) 5 (rx_histories ?limit (demo_recv 63 2) demo_begun [[]]) s1" "rx_run s1"
    using t(2) by (auto simp: rx_turn_post_def rx_grown_def rx_aborts_def rx_lost_def demo_recv_def B begun)
  obtain s2 where s2: "rx_turn (Fin 10) 2 demo_lost s1 = Some s2"
    "rx_turn_post 2 60 (rx_rings demo_begun) 5 (rx_histories ?limit (demo_recv 63 2) demo_begun [[]]) ?limit
      (demo_lost (rx_request 2 s1)) s1 s2"
    using rx_turn_ok [OF I1(1) ok(2) _ _ _ demo_limit B(3) refl] by auto
  then have I2: "rx_contiguous s2 = 0" "rx_run s2"
    using I1(2) by (auto simp: rx_turn_post_def rx_contiguous_after_def rx_aborts_def demo_lost_def)
  have "rx_packets (Fin 10) 2 [demo_recv 63, demo_lost, demo_recv 69] demo_begun =
      [demo_recv 63 2, demo_lost (rx_request 2 s1), demo_recv 69 2]"
    using t(2) I1(2) I2(2) req [OF I2(1)] req [OF B(4)] by (simp add: begun s1(1) s2(1) split: option.split)
  then show thesis
    using that t(1) by (simp add: rx_all_packets_def begun)
qed

theorem rx_worker_aligned_witness:
  "\<exists>s' h. rx_worker None (Fin 10) (\<lambda>s. word_of_int (10 * s)) 2 5 (Fin (1 / 4))
     [demo_recv 63, demo_lost, demo_recv 69] [] demo_rx = Some s' \<and>
     ring_repr (rx_rings s' ! 0) h \<and> rx_next s' = 60 + word_of_nat (length h) \<and>
     block 3 2 h = [(1, 2), (3, 4)] \<and> block 9 2 h = [(1, 2), (3, 4)] \<and>
     (\<forall>i < length h. i \<notin> {3, 4, 9, 10} \<longrightarrow> h ! i = zero_sample)"
proof -
  let ?ticks = "\<lambda>s. word_of_int (10 * s) :: u64"
  let ?recvs = "[demo_recv 63, demo_lost, demo_recv 69]"
  obtain m where pks: "rx_all_packets (Fin 10) ?ticks 2 5 (Fin (1 / 4)) ?recvs demo_rx =
      [demo_recv 63 2, demo_lost m, demo_recv 69 2]"
    by (rule demo_packets)
  have rings: "length (rx_rings demo_rx) = 1" "rx_rings demo_rx \<noteq> []"
    by (simp_all add: demo_rx_def)
  have recvs: "\<forall>r \<in> set ?recvs. recv_ok (length (rx_rings demo_rx)) 2 r"
    by (simp add: rings demo_recv_ok)
  have stamps: "stamps_ok None [demo_recv 63 2, demo_lost m, demo_recv 69 2]"
    by (simp add: demo_recv_def demo_lost_def)
  have "\<exists>s' H hs. rx_worker None (Fin 10) ?ticks 2 5 (Fin (1 / 4)) ?recvs [] demo_rx = Some s' \<and>
      \<not> rx_run s' \<and> rx_ready s' \<and> rx_next s' = ?ticks (int 6) + word_of_nat H \<and>
      length (rx_rings s') = length (rx_rings demo_rx) \<and>
      (\<forall>c < length (rx_rings demo_rx). ring_wf (rx_rings s' ! c) \<and> ring_repr (rx_rings s' ! c) (hs ! c) \<and>
         length (hs ! c) = H \<and> rb_start_nsec (rx_rings s' ! c) = word_of_nat (6 * 1000000000) \<and>
         hs ! c = rx_ideal 10 (?ticks (int 6)) c False [] (rx_all_packets (Fin 10) ?ticks 2 5 (Fin (1 / 4)) ?recvs demo_rx) \<and>
         (stamps_ok None (rx_all_packets (Fin 10) ?ticks 2 5 (Fin (1 / 4)) ?recvs demo_rx) \<longrightarrow>
           on_time 10 (?ticks (int 6)) c (rx_all_packets (Fin 10) ?ticks 2 5 (Fin (1 / 4)) ?recvs demo_rx) (hs ! c)))"
    by (rule rx_worker_aligned [OF demo_rx_rings rings(2) demo_start _ demo_limit recvs]) simp_all
  then obtain s' hs where s': "rx_worker None (Fin 10) ?ticks 2 5 (Fin (1 / 4)) ?recvs [] demo_rx = Some s'"
    "rx_next s' = 60 + word_of_nat (length (hs ! 0))" "ring_repr (rx_rings s' ! 0) (hs ! 0)"
    "on_time 10 60 0 [demo_recv 63 2, demo_lost m, demo_recv 69 2] (hs ! 0)"
    using stamps unfolding pks rings(1) by auto
  have taken: "rx_taken 10 60 False [demo_recv 63 2, demo_lost m, demo_recv 69 2] = [(False, demo_recv 63 2), (False, demo_recv 69 2)]"
    by (simp add: demo_recv_def demo_lost_def)
  have "placed 60 0 (hs ! 0) (False, demo_recv 63 2)" "placed 60 0 (hs ! 0) (False, demo_recv 69 2)"
    and zero: "\<forall>i < length (hs ! 0). hs ! 0 ! i = zero_sample \<or> covers 60 i (False, demo_recv 63 2) \<or> covers 60 i (False, demo_recv 69 2)"
    using s'(4) unfolding on_time_def taken by simp_all
  then have "block 3 2 (hs ! 0) = [(1, 2), (3, 4)]" "block 9 2 (hs ! 0) = [(1, 2), (3, 4)]"
    by (simp_all add: placed_def demo_recv_def)
  moreover have "\<forall>i < length (hs ! 0). i \<notin> {3, 4, 9, 10} \<longrightarrow> hs ! 0 ! i = zero_sample"
    using zero by (auto simp: covers_def demo_recv_def)
  ultimately show ?thesis
    using s'(1-3) by blast
qed

theorem rx_packet_position_witness:
  "\<exists>s' hs'. rx_turn (Fin 10) 2 (demo_recv 63) demo_begun = Some s' \<and>
     drop 3 (hs' ! 0) = pk_data (demo_recv 63 2) ! 0 \<and> hs' ! 0 ! 2 = zero_sample"
proof -
  have "rx_request 2 demo_begun = 2"
    by (simp add: rx_request_def rx_buffers_def demo_begun_inv)
  then show ?thesis
    using rx_packet_position [OF demo_begun_inv(1), of "demo_recv 63" 10 "Fin 10" "demo_recv 63 2"]
      demo_begun_inv demo_recv_ok(1) [of 63]
    by (auto simp: demo_recv_def)
qed

theorem rx_gives_up_witness:
  "\<exists>s'. rx_turn (Fin 10) 2 (demo_recv 99) demo_begun = Some s' \<and> \<not> rx_run s'"
proof -
  have "rx_request 2 demo_begun = 2"
    by (simp add: rx_request_def rx_buffers_def demo_begun_inv)
  then show ?thesis
    using rx_gives_up [OF demo_begun_inv(1), of "demo_recv 99" 10 "Fin 10" "demo_recv 99 2"]
      demo_begun_inv demo_recv_ok(1) [of 99]
    by (auto simp: demo_recv_def)
qed

theorem rx_start_time_witness: "of_int (rx_start_secs (int 5) (Fin (1 / 4))) \<le> (of_nat 5 + 1 / 4 + 3 / 2 :: rat)"
  using rx_start_time [of "1 / 4" 5] by simp

end
