(* ===== verification/Wr.thy ===== *)
theory Wr
  imports Ringbuf Rx
begin

text \<open>
  The recorder of \<^verbatim>\<open>src/wr.cpp\<close> and \<^verbatim>\<open>src/wr.hpp\<close>: its constructor opens one file per channel and
  its thread copies every ring buffer, from the sample of the start time on, to the file of its
  channel, without locking the producer. What the recorder sees of a ring is a parameter: every
  access reads a possibly later state of the producer, and the theorems assume only that these
  are states of one run of the producer, in this order.
\<close>

subsection \<open>Files\<close>

text \<open>The four bytes of a sample in memory (little endian), and of a run of samples.\<close>

definition sample_bytes :: "sample \<Rightarrow> 8 word list" where
  "sample_bytes x = [ucast (fst x), ucast (drop_bit 8 (fst x)), ucast (snd x), ucast (drop_bit 8 (snd x))]"

definition samples_bytes :: "sample list \<Rightarrow> 8 word list" where
  "samples_bytes xs = concat (map sample_bytes xs)"

text \<open>\<open>std::filesystem::resize_file\<close>: cut off, or fill up with zeros.\<close>

definition resize_file :: "nat \<Rightarrow> 8 word list \<Rightarrow> 8 word list" where
  "resize_file n f = take n f @ replicate (n - length f) 0"

definition WR_BLOCK_SAMPLES :: u64 where
  "WR_BLOCK_SAMPLES = 4 * 1024 * 1024 div 4"

subsection \<open>State\<close>

text \<open>
  The members and locals of the thread. \<open>wr_samples\<close> is the local count, \<open>wr_written\<close> and
  \<open>wr_backlog\<close> are what it publishes; a file is the bytes written so far.
\<close>

datatype wr_log = Wr_exception exc | Wr_fatal string

record wr_state =
  wr_run :: bool
  wr_tails :: "u64 list"
  wr_files :: "8 word list list"
  wr_samples :: u64
  wr_sleep :: u64
  wr_backlog :: u64
  wr_written :: u64
  wr_logs :: "wr_log list"

text \<open>
  What one turn for one channel meets: the ring when its span is taken, when the wait is
  computed, when cell \<open>i\<close> of the span is copied out, when the clobber distance is read, and when
  the backlog is read; and what \<open>fwrite\<close> returns, in bytes, with its error number.
\<close>

record wr_io =
  io_span_ring :: "sample ringbuf"
  io_wait_ring :: "sample ringbuf"
  io_read_ring :: "nat \<Rightarrow> sample ringbuf"
  io_ret :: u64
  io_errno :: int
  io_clob_ring :: "sample ringbuf"
  io_backlog_ring :: "sample ringbuf"

subsection \<open>The thread\<close>

definition wr_span :: "wr_io \<Rightarrow> u64 \<Rightarrow> span" where
  "wr_span io tail = get_consumer_span (io_span_ring io) tail WR_BLOCK_SAMPLES"

definition wr_cells :: "wr_io \<Rightarrow> span \<Rightarrow> sample list" where
  "wr_cells io sp = map (\<lambda>i. rb_mem (io_read_ring io i) ! (nat (sp_off sp) + i)) [0..<unat (sp_size sp)]"

definition wr_channel :: "nat \<Rightarrow> nat \<Rightarrow> wr_io \<Rightarrow> wr_state \<Rightarrow> exc option \<times> wr_state" where
  "wr_channel nch ch io s =
     (let tail = wr_tails s ! ch; sp = wr_span io tail in
      if sp_size sp = 0
      then case get_consumer_wait (io_wait_ring io) tail WR_BLOCK_SAMPLES of
             Inl e \<Rightarrow> (Some e, s)
           | Inr w \<Rightarrow> (None, s\<lparr>wr_sleep := min (wr_sleep s) w\<rparr>)
      else
        let s = s\<lparr>wr_sleep := 0\<rparr>;
            ret = io_ret io;
            bytes = take (unat ret) (samples_bytes (wr_cells io sp));
            s = s\<lparr>wr_files := (wr_files s)[ch := wr_files s ! ch @ bytes]\<rparr>
        in if ret = 0 then (Some (Syscall_error ''std::fwrite() failed'' (io_errno io)), s)
        else if get_clobber_distance (io_clob_ring io) tail < 0
        then (Some (Generic_error ''Filesystem writing too slow''),
              s\<lparr>wr_files := (wr_files s)[ch := resize_file (unat (4 * wr_samples s)) (wr_files s ! ch)]\<rparr>)
        else
          let s = s\<lparr>wr_tails := (wr_tails s)[ch := tail + ret div 4]\<rparr>
          in (None, if ch = nch - 1 then s\<lparr>wr_samples := wr_samples s + ret div 4\<rparr> else s))"

fun wr_channels :: "nat \<Rightarrow> nat \<Rightarrow> wr_io list \<Rightarrow> wr_state \<Rightarrow> exc option \<times> wr_state" where
  "wr_channels nch ch [] s = (None, s)"
| "wr_channels nch ch (io # ios) s =
     (case wr_channel nch ch io s of
        (None, s') \<Rightarrow> wr_channels nch (Suc ch) ios s'
      | (Some e, s') \<Rightarrow> (Some e, s'))"

definition wr_pass :: "wr_io list \<Rightarrow> wr_state \<Rightarrow> exc option \<times> wr_state" where
  "wr_pass ios s =
     (case wr_channels (length ios) 0 ios (s\<lparr>wr_sleep := 10000000\<rparr>) of
        (Some e, s) \<Rightarrow> (Some e, s)
      | (None, s) \<Rightarrow>
          (None, s\<lparr>wr_backlog := sum_list (map2 (\<lambda>io tail. get_backlog_samples (io_backlog_ring io) tail)
                     ios (wr_tails s)),
                   wr_written := wr_samples s\<rparr>))"

text \<open>The loop over the passes made until \<open>run\<close> is cleared; an exception ends the thread.\<close>

definition wr_failed :: "exc \<Rightarrow> wr_state \<Rightarrow> wr_state" where
  "wr_failed e s = s\<lparr>wr_run := False, wr_logs := wr_logs s @
     [Wr_exception e, Wr_fatal ''Unrecoverable exception occurred in Wr thread. Thread terminated.'']\<rparr>"

fun wr_worker :: "wr_io list list \<Rightarrow> wr_state \<Rightarrow> wr_state" where
  "wr_worker [] s = s\<lparr>wr_run := False\<rparr>"
| "wr_worker (ios # rest) s =
     (case wr_pass ios s of
        (None, s') \<Rightarrow> wr_worker rest s'
      | (Some e, s') \<Rightarrow> wr_failed e s')"

definition get_backlog_bytes :: "wr_state \<Rightarrow> u64" where
  "get_backlog_bytes s = wr_backlog s * 4"

definition get_wr_seconds :: "dbl \<Rightarrow> wr_state \<Rightarrow> dbl" where
  "get_wr_seconds rate s = ddiv (of_u64 (wr_written s)) rate"

subsection \<open>The constructor\<close>

text \<open>
  The calls on one file, in order: \<open>fopen\<close>, \<open>fileno\<close>, \<open>F_GETFL\<close>, \<open>F_SETFL\<close>, each with its
  error number if it fails. The state is the tails, the paths and the open handles.
\<close>

record wr_open_io =
  wo_fopen :: "int option"
  wo_fileno :: "int option"
  wo_getfl :: "int option"
  wo_setfl :: "int option"

record wr_setup =
  ws_tails :: "u64 list"
  ws_paths :: "string list"
  ws_files :: "nat list"
  ws_open :: "nat list"
  ws_logs :: "(string \<times> u64 \<times> u64) list"

definition wr_path :: "string \<Rightarrow> u64 \<Rightarrow> nat \<Rightarrow> string" where
  "wr_path prefix start_nsec ch =
     prefix @ ''_'' @ show_nat (unat start_nsec) @ ''_ch'' @ show_nat ch @ ''.cint16.bin''"

text \<open>One turn of the loop over the channels; the handle of channel \<open>ch\<close> is \<open>ch\<close>.\<close>

definition wr_open_channel :: "string \<Rightarrow> u64 \<Rightarrow> nat \<Rightarrow> sample ringbuf \<Rightarrow> wr_open_io \<Rightarrow> wr_setup \<Rightarrow>
    exc option \<times> wr_setup" where
  "wr_open_channel prefix start_nsec ch rb io w =
     (case get_tail rb start_nsec of
        Inl e \<Rightarrow> (Some e, w)
      | Inr tail \<Rightarrow>
          let w = w\<lparr>ws_tails := ws_tails w @ [tail]\<rparr>;
              path = wr_path prefix start_nsec ch;
              w = w\<lparr>ws_paths := ws_paths w @ [path]\<rparr>
          in case wo_fopen io of
            Some errno \<Rightarrow> (Some (Syscall_error (''std::fopen('' @ [CHR 0x22] @ path @ [CHR 0x22] @ '', ...) failed'') errno), w)
          | None \<Rightarrow>
              let w = w\<lparr>ws_files := ws_files w @ [ch], ws_open := ws_open w @ [ch]\<rparr>
              in case (wo_fileno io, wo_getfl io, wo_setfl io) of
                (Some errno, _, _) \<Rightarrow> (Some (Syscall_error ''fileno() failed'' errno), w)
              | (None, Some errno, _) \<Rightarrow> (Some (Syscall_error ''fcntl(fd, F_GETFL) failed'' errno), w)
              | (None, None, Some errno) \<Rightarrow> (Some (Syscall_error ''fcntl(fd, F_SETFL) failed'' errno), w)
              | (None, None, None) \<Rightarrow> (None, w\<lparr>ws_logs := ws_logs w @ [(path, start_nsec, tail)]\<rparr>))"

fun wr_open_all :: "string \<Rightarrow> u64 \<Rightarrow> nat \<Rightarrow> (sample ringbuf \<times> wr_open_io) list \<Rightarrow> wr_setup \<Rightarrow>
    exc option \<times> wr_setup" where
  "wr_open_all prefix start_nsec ch [] w = (None, w)"
| "wr_open_all prefix start_nsec ch ((rb, io) # rest) w =
     (case wr_open_channel prefix start_nsec ch rb io w of
        (None, w') \<Rightarrow> wr_open_all prefix start_nsec (Suc ch) rest w'
      | (Some e, w') \<Rightarrow> (Some e, w'))"

text \<open>The check that all rings are synchronous.\<close>

fun wr_sync_check :: "sample ringbuf \<Rightarrow> sample ringbuf list \<Rightarrow> exc option" where
  "wr_sync_check rb0 [] = None"
| "wr_sync_check rb0 (rb # rbs) =
     (if rb_start_nsec rb \<noteq> rb_start_nsec rb0 then Some (Generic_error ''ringbuf start times differ'')
      else if \<not> deq (rb_rate rb) (rb_rate rb0) then Some (Generic_error ''ringbuf sample rates differ'')
      else wr_sync_check rb0 rbs)"

text \<open>Closing all files, in the handler of the constructor and in the destructor.\<close>

definition wr_close_files :: "wr_setup \<Rightarrow> wr_setup" where
  "wr_close_files w = w\<lparr>ws_open := filter (\<lambda>f. f \<notin> set (ws_files w)) (ws_open w)\<rparr>"

definition wr_new :: "string \<Rightarrow> u64 \<Rightarrow> (sample ringbuf \<times> wr_open_io) list \<Rightarrow> exc option \<times> wr_setup" where
  "wr_new prefix start_nsec rings =
     (let w = \<lparr>ws_tails = [], ws_paths = [], ws_files = [], ws_open = [], ws_logs = []\<rparr> in
      case map fst rings of
        [] \<Rightarrow> (Some (Undefined ''ringbufs[0]''), w)
      | rb0 # rbs \<Rightarrow>
          (case wr_sync_check rb0 rbs of
             Some e \<Rightarrow> (Some e, w)
           | None \<Rightarrow>
               (case wr_open_all prefix start_nsec 0 rings w of
                  (Some e, w) \<Rightarrow> (Some e, wr_close_files w)
                | (None, w) \<Rightarrow> (None, w))))"

text \<open>The destructor: the thread finds \<open>run\<close> cleared at the head of its loop and ends, then the files are closed.\<close>

definition wr_delete :: "wr_setup \<Rightarrow> wr_state \<Rightarrow> wr_setup \<times> wr_state" where
  "wr_delete w s = (wr_close_files w, wr_worker [] (s\<lparr>wr_run := False\<rparr>))"

subsection \<open>Bytes and samples\<close>

lemma length_samples_bytes [simp]: "length (samples_bytes xs) = 4 * length xs"
  by (induction xs) (simp_all add: samples_bytes_def sample_bytes_def)

lemma samples_bytes_append [simp]: "samples_bytes (xs @ ys) = samples_bytes xs @ samples_bytes ys"
  by (simp add: samples_bytes_def)

lemma length_sample_bytes [simp]: "length (sample_bytes x) = 4"
  by (simp add: sample_bytes_def)

lemma samples_bytes_simps [simp]:
  "samples_bytes [] = []" "samples_bytes (x # xs) = sample_bytes x @ samples_bytes xs"
  by (simp_all add: samples_bytes_def)

lemma take_samples_bytes: "take (4 * k) (samples_bytes xs) = samples_bytes (take k xs)"
proof (induction xs arbitrary: k)
  case (Cons x xs)
  then show ?case
    by (cases k) simp_all
qed simp

text \<open>The bytes of a sample determine it.\<close>

lemma bytes_word16: "(ucast (drop_bit 8 (w :: 16 word)) :: 8 word) = ucast (drop_bit 8 v) \<Longrightarrow>
  (ucast w :: 8 word) = ucast v \<Longrightarrow> w = v" for v :: "16 word"
proof -
  assume hi: "(ucast (drop_bit 8 w) :: 8 word) = ucast (drop_bit 8 v)" and lo: "(ucast w :: 8 word) = ucast v"
  have "uint w = uint v"
  proof -
    have "uint (ucast w :: 8 word) = uint w mod 2 ^ 8" for w :: "16 word"
      by (simp add: unsigned_ucast_eq take_bit_eq_mod)
    moreover have "uint (ucast (drop_bit 8 w) :: 8 word) = uint w div 2 ^ 8" for w :: "16 word"
    proof -
      have "uint w div 2 ^ 8 < 2 ^ 8"
        using uint_lt2p [of w] by (simp add: div_less_iff_less_mult)
      moreover have "0 \<le> uint w div 2 ^ 8"
        by (intro pos_imp_zdiv_nonneg_iff [THEN iffD2]) simp_all
      moreover have "uint (ucast (drop_bit 8 w) :: 8 word) = (uint w div 2 ^ 8) mod 2 ^ 8"
        by (simp add: unsigned_ucast_eq take_bit_eq_mod drop_bit_eq_div uint_div_distrib)
      ultimately show ?thesis
        by (metis mod_pos_pos_trivial)
    qed
    ultimately have "uint w mod 2 ^ 8 = uint v mod 2 ^ 8" "uint w div 2 ^ 8 = uint v div 2 ^ 8"
      using hi lo by metis+
    then show ?thesis
      by (metis div_mult_mod_eq)
  qed
  then show "w = v"
    by (rule word_uint_eqI)
qed

lemma sample_bytes_inject: "sample_bytes x = sample_bytes y \<longleftrightarrow> x = y"
  using bytes_word16 [of "fst x" "fst y"] bytes_word16 [of "snd x" "snd y"]
  by (auto simp: sample_bytes_def prod_eq_iff)

lemma samples_bytes_inject: "samples_bytes xs = samples_bytes ys \<longleftrightarrow> xs = ys"
proof (induction xs arbitrary: ys)
  case Nil
  have "samples_bytes ys = [] \<Longrightarrow> ys = []"
    by (metis length_samples_bytes length_0_conv mult_is_0 numeral_eq_iff zero_neq_numeral)
  then show ?case by auto
next
  case (Cons x xs)
  show ?case
  proof (cases ys)
    case Nil
    then show ?thesis
      by (metis append_is_Nil_conv length_sample_bytes list.distinct(1) list.size(3) samples_bytes_simps zero_neq_numeral)
  qed (simp add: Cons sample_bytes_inject)
qed

subsection \<open>One turn for one channel\<close>

text \<open>The accesses of a turn are states of one run of the producer from \<open>s0\<close> to \<open>sf\<close>.\<close>

definition io_ok :: "sample pstate \<Rightarrow> wr_io \<Rightarrow> sample pstate \<Rightarrow> u64 \<Rightarrow> bool" where
  "io_ok s0 io sf tail \<longleftrightarrow>
     (\<exists>a c. pstep\<^sup>*\<^sup>* s0 a \<and> io_span_ring io = p_ring a \<and>
        (\<forall>i < unat (sp_size (wr_span io tail)). \<exists>r. pstep\<^sup>*\<^sup>* a r \<and> pstep\<^sup>*\<^sup>* r c \<and> io_read_ring io i = p_ring r) \<and>
        pstep\<^sup>*\<^sup>* a c \<and> io_clob_ring io = p_ring c \<and> pstep\<^sup>*\<^sup>* c sf) \<and>
     4 dvd unat (io_ret io) \<and> unat (io_ret io) \<le> 4 * unat (sp_size (wr_span io tail))"

text \<open>The file of a channel is the history from its first sample to its tail.\<close>

definition wr_file_ok :: "u64 \<Rightarrow> sample list \<Rightarrow> wr_state \<Rightarrow> nat \<Rightarrow> bool" where
  "wr_file_ok start hist s ch \<longleftrightarrow>
     unat start \<le> unat (wr_tails s ! ch) \<and>
     (wr_tails s ! ch = start \<or> unat (wr_tails s ! ch) \<le> length hist) \<and>
     wr_files s ! ch = samples_bytes (block (unat start) (unat (wr_tails s ! ch) - unat start) hist)"

lemma WR_BLOCK_unat: "unat WR_BLOCK_SAMPLES = 1048576"
  by (simp add: WR_BLOCK_SAMPLES_def)

lemma wr_cells_validated:
  assumes "pinv s0" "io_ok s0 io sf tail" "unat tail < 2 ^ 62"
    and "0 \<le> get_clobber_distance (io_clob_ring io) tail"
  shows "wr_cells io (wr_span io tail) = block (unat tail) (unat (sp_size (wr_span io tail))) (p_hist sf)"
    "sp_size (wr_span io tail) \<noteq> 0 \<Longrightarrow>
      unat tail + unat (sp_size (wr_span io tail)) \<le> length (p_hist sf)"
proof -
  let ?sp = "wr_span io tail"
  obtain a c where ac: "pstep\<^sup>*\<^sup>* s0 a" "io_span_ring io = p_ring a" "pstep\<^sup>*\<^sup>* c sf"
    "io_clob_ring io = p_ring c" "pstep\<^sup>*\<^sup>* a c"
    "\<forall>i < unat (sp_size ?sp). \<exists>r. pstep\<^sup>*\<^sup>* a r \<and> pstep\<^sup>*\<^sup>* r c \<and> io_read_ring io i = p_ring r"
    using assms(2) by (auto simp: io_ok_def)
  then obtain rd where rd: "\<And>i. i < unat (sp_size ?sp) \<Longrightarrow>
      pstep\<^sup>*\<^sup>* a (rd i) \<and> pstep\<^sup>*\<^sup>* (rd i) c \<and> io_read_ring io i = p_ring (rd i)"
    by metis
  have a: "pinv a"
    using psteps_inv [OF ac(1) assms(1)] by simp
  have c: "pinv c"
    using psteps_inv [OF ac(5) a] by simp
  obtain more where hist: "p_hist sf = p_hist c @ more"
    using psteps_inv [OF ac(3) c] by (auto simp: pgrows_def)
  have small: "unat WR_BLOCK_SAMPLES < 2 ^ 62"
    by (simp add: WR_BLOCK_unat)
  have sp: "get_consumer_span (p_ring a) tail WR_BLOCK_SAMPLES = ?sp"
    by (simp add: wr_span_def ac(2))
  have cell: "rb_mem (p_ring (rd i)) ! (nat (sp_off ?sp) + i) = p_hist c ! (unat tail + i) \<and>
      unat tail + i < length (p_hist c)" if "i < unat (sp_size ?sp)" for i
    using consumer_validated_cells [OF a sp small assms(3), of rd c] rd c assms(4) ac(4) that by simp
  have le: "unat tail + unat (sp_size ?sp) \<le> length (p_hist c)" if "sp_size ?sp \<noteq> 0"
    using cell [of "unat (sp_size ?sp) - 1"] that unat_gt_0 [of "sp_size ?sp"] by simp linarith
  show "unat tail + unat (sp_size ?sp) \<le> length (p_hist sf)" if "sp_size ?sp \<noteq> 0"
    using le [OF that] by (simp add: hist)
  show "wr_cells io ?sp = block (unat tail) (unat (sp_size ?sp)) (p_hist sf)"
  proof (cases "sp_size ?sp = 0")
    case True
    then show ?thesis by (simp add: wr_cells_def block_def)
  next
    case False
    have "block (unat tail) (unat (sp_size ?sp)) (p_hist sf) = wr_cells io ?sp"
      using le [OF False] cell rd
      by (intro block_eqI) (simp_all add: wr_cells_def hist nth_append)
    then show ?thesis by simp
  qed
qed

lemma ret_div4: "unat (w div 4 :: u64) = unat w div 4"
  by (simp add: unat_div)

lemma wr_file_ok_mono:
  assumes "wr_file_ok start hist s ch"
  shows "wr_file_ok start (hist @ ext) s ch"
proof (cases "wr_tails s ! ch = start")
  case True
  with assms show ?thesis by (simp add: wr_file_ok_def block_def)
next
  case False
  then have "unat start + (unat (wr_tails s ! ch) - unat start) \<le> length hist"
    using assms by (auto simp: wr_file_ok_def)
  with assms show ?thesis
    by (auto simp: wr_file_ok_def block_append_left)
qed

text \<open>A turn that does not fail keeps the file equal to the history up to the new tail.\<close>

lemma wr_channel_ok:
  assumes pinv: "pinv s0" and io: "io_ok s0 io sf (wr_tails s ! ch)"
    and len: "ch < length (wr_tails s)" "ch < length (wr_files s)"
    and ok: "wr_file_ok start (p_hist s0) s ch" and small: "unat (wr_tails s ! ch) < 2 ^ 61"
    and turn: "wr_channel nch ch io s = (None, s')"
  shows "wr_file_ok start (p_hist sf) s' ch"
    and "wr_tails s' = (wr_tails s)[ch := wr_tails s' ! ch]"
    and "wr_files s' = (wr_files s)[ch := wr_files s' ! ch]"
    and "wr_samples s' = wr_samples s + (if ch = nch - 1 then wr_tails s' ! ch - wr_tails s ! ch else 0)"
    and "unat (wr_tails s' ! ch) \<le> unat (wr_tails s ! ch) + 1048576"
proof -
  let ?tail = "wr_tails s ! ch"
  let ?sp = "wr_span io ?tail"
  obtain a c where "pstep\<^sup>*\<^sup>* s0 a" "pstep\<^sup>*\<^sup>* a c" "pstep\<^sup>*\<^sup>* c sf"
    using io by (auto simp: io_ok_def)
  then have "pstep\<^sup>*\<^sup>* s0 sf" by simp
  then obtain ext where ext: "p_hist sf = p_hist s0 @ ext"
    using psteps_inv [OF _ pinv] by (auto simp: pgrows_def)
  have ok': "wr_file_ok start (p_hist sf) s ch"
    unfolding ext by (rule wr_file_ok_mono [OF ok])
  have goal: "wr_file_ok start (p_hist sf) s' ch \<and> wr_tails s' = (wr_tails s)[ch := wr_tails s' ! ch] \<and>
      wr_files s' = (wr_files s)[ch := wr_files s' ! ch] \<and>
      wr_samples s' = wr_samples s + (if ch = nch - 1 then wr_tails s' ! ch - ?tail else 0) \<and>
      unat (wr_tails s' ! ch) \<le> unat ?tail + 1048576"
  proof (cases "sp_size ?sp = 0")
    case True
    then obtain w where "s' = s\<lparr>wr_sleep := min (wr_sleep s) w\<rparr>"
      using turn by (auto simp: wr_channel_def Let_def split: sum.splits)
    then have "wr_tails s' = wr_tails s" "wr_files s' = wr_files s" "wr_samples s' = wr_samples s"
      by simp_all
    moreover from this have "wr_file_ok start (p_hist sf) s' ch"
      using ok' unfolding wr_file_ok_def by simp
    ultimately show ?thesis by simp
  next
    case False
    obtain n where ret: "unat (io_ret io) = 4 * n" "n \<le> unat (sp_size ?sp)"
      using io by (auto simp: io_ok_def dvd_def)
    have clob: "0 \<le> get_clobber_distance (io_clob_ring io) ?tail"
      and s': "wr_tails s' = (wr_tails s)[ch := ?tail + io_ret io div 4]"
        "wr_files s' = (wr_files s)[ch := wr_files s ! ch @ take (unat (io_ret io)) (samples_bytes (wr_cells io ?sp))]"
        "wr_samples s' = wr_samples s + (if ch = nch - 1 then io_ret io div 4 else 0)"
      using turn False by (auto simp: wr_channel_def Let_def split: if_splits)
    have tail62: "unat ?tail < 2 ^ 62" using small by simp
    note V = wr_cells_validated [OF pinv io tail62 clob]
    have size: "unat (sp_size ?sp) \<le> 1048576"
    proof -
      have "sp_size ?sp \<le> WR_BLOCK_SAMPLES"
      proof -
        obtain aa where wf: "ring_wf (io_span_ring io)"
        proof -
          obtain a where "pstep\<^sup>*\<^sup>* s0 a" "io_span_ring io = p_ring a"
            using io by (auto simp: io_ok_def)
          with psteps_inv [OF _ pinv] that show thesis by (auto simp: pinv_def)
        qed
        have "unat WR_BLOCK_SAMPLES < 2 ^ 63" "unat ?tail + unat WR_BLOCK_SAMPLES < 2 ^ 64"
          using small by (simp_all add: WR_BLOCK_unat)
        with get_consumer_span_eq [OF wf this] show ?thesis
          by (simp add: wr_span_def word_le_nat_alt)
      qed
      then show ?thesis
        by (simp add: word_le_nat_alt WR_BLOCK_unat)
    qed
    have tail': "unat (?tail + io_ret io div 4) = unat ?tail + n"
      using small size ret(2) by (simp add: unat_plus_u64 ret_div4 ret(1))
    have "take (unat (io_ret io)) (samples_bytes (wr_cells io ?sp)) = samples_bytes (block (unat ?tail) n (p_hist sf))"
      using ret(2) by (simp only: ret(1) take_samples_bytes V(1)) (simp add: block_def min_def)
    moreover have "block (unat start) (unat ?tail - unat start) (p_hist sf) @ block (unat ?tail) n (p_hist sf) =
        block (unat start) (unat ?tail + n - unat start) (p_hist sf)"
    proof -
      have "unat start \<le> unat ?tail"
        using ok' by (simp add: wr_file_ok_def)
      then have st: "unat start + (unat ?tail - unat start) = unat ?tail"
        "unat ?tail + n - unat start = unat ?tail - unat start + n" by simp_all
      have "unat ?tail + n \<le> length (p_hist sf)"
        using V(2) [OF False] ret(2) by simp
      then show ?thesis
        using block_block_append [of "unat start" "unat ?tail - unat start" n "p_hist sf"]
        by (simp add: st)
    qed
    ultimately have "wr_file_ok start (p_hist sf) s' ch"
      using ok' V(2) [OF False] ret(2) len tail'
      by (simp add: wr_file_ok_def s') (simp flip: samples_bytes_append)
    then show ?thesis
      using len s' tail' size ret(2) by simp
  qed
  then show "wr_file_ok start (p_hist sf) s' ch"
    and "wr_tails s' = (wr_tails s)[ch := wr_tails s' ! ch]"
    and "wr_files s' = (wr_files s)[ch := wr_files s' ! ch]"
    and "wr_samples s' = wr_samples s + (if ch = nch - 1 then wr_tails s' ! ch - ?tail else 0)"
    and "unat (wr_tails s' ! ch) \<le> unat ?tail + 1048576"
    by blast+
qed

text \<open>A turn of the last channel that fails leaves its file as it was: the block is cut off again.\<close>

lemma resize_append: "length f = n \<Longrightarrow> resize_file n (f @ g) = f"
  by (simp add: resize_file_def)

lemma wr_channel_fails:
  assumes "wr_channel nch ch io s = (Some e, s')" "ch = nch - 1" "ch < length (wr_files s)"
    and "wr_file_ok start hist s ch" "wr_samples s = wr_tails s ! ch - start"
    and "unat (wr_tails s ! ch) < 2 ^ 61"
  shows "wr_files s' = wr_files s"
proof -
  let ?tail = "wr_tails s ! ch"
  have st: "unat start \<le> unat ?tail"
    using assms(4) by (simp add: wr_file_ok_def)
  then have "unat (wr_samples s) = unat ?tail - unat start"
    using assms(5) by (simp add: unat_sub word_le_nat_alt)
  moreover from this have "unat (4 * wr_samples s) = 4 * unat (wr_samples s)"
    using assms(6) by (simp add: unat_word_ariths)
  moreover have "length (wr_files s ! ch) = 4 * (unat ?tail - unat start)"
    using assms(4) st by (auto simp: wr_file_ok_def)
  ultimately have cut: "resize_file (unat (4 * wr_samples s)) (wr_files s ! ch @ bytes) = wr_files s ! ch" for bytes
    by (simp add: resize_append)
  show ?thesis
    using assms(1,3) cut
    by (auto simp: wr_channel_def Let_def split: if_splits sum.splits)
qed

subsection \<open>Passes over all channels\<close>

text \<open>
  The recording invariant, for the first sample of each channel's recording and the state of its
  producer; the thread's count is that of the last channel.
\<close>

definition wr_inv :: "u64 list \<Rightarrow> sample pstate list \<Rightarrow> wr_state \<Rightarrow> bool" where
  "wr_inv starts psts s \<longleftrightarrow>
     length psts = length starts \<and> length (wr_tails s) = length starts \<and>
     length (wr_files s) = length starts \<and> starts \<noteq> [] \<and>
     (\<forall>ch < length starts. pinv (psts ! ch) \<and> wr_file_ok (starts ! ch) (p_hist (psts ! ch)) s ch) \<and>
     wr_samples s = wr_tails s ! (length starts - 1) - starts ! (length starts - 1)"

text \<open>The accesses of a pass, channel by channel, from producer states to producer states.\<close>

fun ios_ok :: "u64 list \<Rightarrow> nat \<Rightarrow> sample pstate list \<Rightarrow> wr_io list \<Rightarrow> sample pstate list \<Rightarrow> bool" where
  "ios_ok tails ch psts [] psts' = (psts' = psts)"
| "ios_ok tails ch psts (io # ios) psts' =
     (\<exists>sf. io_ok (psts ! ch) io sf (tails ! ch) \<and> ios_ok tails (Suc ch) (psts[ch := sf]) ios psts')"

lemma io_ok_steps: "io_ok s0 io sf tail \<Longrightarrow> pstep\<^sup>*\<^sup>* s0 sf"
  unfolding io_ok_def by (meson rtranclp_trans)

lemma wr_channel_inv:
  assumes inv: "wr_inv starts psts s" and ch: "ch < length starts"
    and io: "io_ok (psts ! ch) io sf (wr_tails s ! ch)"
    and small: "unat (wr_tails s ! ch) < 2 ^ 61"
    and turn: "wr_channel (length starts) ch io s = (None, s')"
  shows "wr_inv starts (psts[ch := sf]) s'" "\<And>d. d \<noteq> ch \<Longrightarrow> wr_tails s' ! d = wr_tails s ! d"
proof -
  have I: "length psts = length starts" "length (wr_tails s) = length starts" "length (wr_files s) = length starts"
    "starts \<noteq> []" "\<And>d. d < length starts \<Longrightarrow> pinv (psts ! d) \<and> wr_file_ok (starts ! d) (p_hist (psts ! d)) s d"
    "wr_samples s = wr_tails s ! (length starts - 1) - starts ! (length starts - 1)"
    using inv by (simp_all add: wr_inv_def)
  note C = wr_channel_ok [OF _ io _ _ _ small turn, of "starts ! ch"]
  have pre: "pinv (psts ! ch)" "ch < length (wr_tails s)" "ch < length (wr_files s)"
    "wr_file_ok (starts ! ch) (p_hist (psts ! ch)) s ch"
    using I ch by simp_all
  note C = C(1-4) [OF pre]
  show other: "wr_tails s' ! d = wr_tails s ! d" if "d \<noteq> ch" for d
    using that by (subst C(2)) simp
  have otherf: "wr_files s' ! d = wr_files s ! d" if "d \<noteq> ch" for d
    using that by (subst C(3)) simp
  have len: "length (wr_tails s') = length starts" "length (wr_files s') = length starts"
    using I C(2,3) by (metis length_list_update)+
  have "pinv sf"
    using psteps_inv [OF io_ok_steps [OF io] pre(1)] by simp
  then have "pinv (psts[ch := sf] ! d) \<and> wr_file_ok (starts ! d) (p_hist (psts[ch := sf] ! d)) s' d"
    if "d < length starts" for d
    using that I(1,5) C(1) other [of d] otherf [of d] ch by (cases "d = ch") (auto simp: wr_file_ok_def)
  moreover have "wr_samples s' = wr_tails s' ! (length starts - 1) - starts ! (length starts - 1)"
    using C(4) I(6) other [of "length starts - 1"] by (cases "ch = length starts - 1") auto
  ultimately show "wr_inv starts (psts[ch := sf]) s'"
    using I len by (simp add: wr_inv_def)
qed

lemma wr_channels_inv:
  assumes "wr_inv starts psts s" "ch + length ios = length starts" "ios_ok tails ch psts ios psts'"
    and "\<forall>d. ch \<le> d \<and> d < length starts \<longrightarrow> wr_tails s ! d = tails ! d \<and> unat (tails ! d) < 2 ^ 61"
    and "wr_channels (length starts) ch ios s = (None, s')"
  shows "wr_inv starts psts' s'"
  using assms
proof (induction ios arbitrary: ch psts s)
  case Nil
  then show ?case by simp
next
  case (Cons io ios)
  from Cons.prems(5) obtain s1 where s1: "wr_channel (length starts) ch io s = (None, s1)"
    "wr_channels (length starts) (Suc ch) ios s1 = (None, s')"
    by (auto split: prod.splits option.splits)
  from Cons.prems(3) obtain sf where sf: "io_ok (psts ! ch) io sf (tails ! ch)"
    "ios_ok tails (Suc ch) (psts[ch := sf]) ios psts'"
    by auto
  have ch: "ch < length starts" "wr_tails s ! ch = tails ! ch" "unat (wr_tails s ! ch) < 2 ^ 61"
    using Cons.prems(2,4) by auto
  note I = wr_channel_inv [OF Cons.prems(1) ch(1) _ ch(3) s1(1), of sf, unfolded ch(2), OF sf(1)]
  have "\<forall>d. Suc ch \<le> d \<and> d < length starts \<longrightarrow> wr_tails s1 ! d = tails ! d \<and> unat (tails ! d) < 2 ^ 61"
    using Cons.prems(4) I(2) by auto
  then show ?case
    using Cons.IH [OF I(1) _ sf(2) _ s1(2)] Cons.prems(2) by simp
qed

lemma wr_inv_cong:
  "wr_tails t = wr_tails s \<Longrightarrow> wr_files t = wr_files s \<Longrightarrow> wr_samples t = wr_samples s \<Longrightarrow>
   wr_inv starts psts t = wr_inv starts psts s"
  by (simp add: wr_inv_def wr_file_ok_def)

lemma wr_pass_inv:
  assumes inv: "wr_inv starts psts s" and len: "length ios = length starts"
    and ok: "ios_ok (wr_tails s) 0 psts ios psts'" and small: "\<forall>t \<in> set (wr_tails s). unat t < 2 ^ 61"
    and pass: "wr_pass ios s = (None, s')"
  shows "wr_inv starts psts' s'"
proof -
  let ?s = "s\<lparr>wr_sleep := 10000000\<rparr>"
  from pass obtain t where t: "wr_channels (length starts) 0 ios ?s = (None, t)"
    "wr_tails s' = wr_tails t" "wr_files s' = wr_files t" "wr_samples s' = wr_samples t"
    by (auto simp: wr_pass_def len split: prod.splits option.splits)
  have "wr_inv starts psts ?s"
    using inv by (simp add: wr_inv_def wr_file_ok_def)
  moreover have "\<forall>d. 0 \<le> d \<and> d < length starts \<longrightarrow> wr_tails ?s ! d = wr_tails s ! d \<and> unat (wr_tails s ! d) < 2 ^ 61"
    using small inv by (simp add: wr_inv_def)
  ultimately have "wr_inv starts psts' t"
    using wr_channels_inv [OF _ _ ok _ t(1)] len by simp
  with t show ?thesis by (simp add: wr_inv_cong [of s' t])
qed

text \<open>
  A recording: the state after any number of passes. Tails stay below \<open>2 ^ 61\<close> samples, which is
  three centuries at 200 million samples per second.
\<close>

inductive wr_reach :: "u64 list \<Rightarrow> sample pstate list \<Rightarrow> sample pstate list \<Rightarrow> wr_state \<Rightarrow> bool"
  for starts psts0 where
  wr_start: "starts \<noteq> [] \<Longrightarrow> length psts0 = length starts \<Longrightarrow> \<forall>p \<in> set psts0. pinv p \<Longrightarrow>
    wr_tails s = starts \<Longrightarrow> wr_files s = map (\<lambda>_. []) starts \<Longrightarrow> wr_samples s = 0 \<Longrightarrow>
    wr_reach starts psts0 psts0 s"
| wr_next: "wr_reach starts psts0 psts s \<Longrightarrow> length ios = length starts \<Longrightarrow>
    ios_ok (wr_tails s) 0 psts ios psts' \<Longrightarrow> \<forall>t \<in> set (wr_tails s). unat t < 2 ^ 61 \<Longrightarrow>
    wr_pass ios s = (None, s') \<Longrightarrow> wr_reach starts psts0 psts' s'"

lemma wr_reach_inv: "wr_reach starts psts0 psts s \<Longrightarrow> wr_inv starts psts s"
proof (induction rule: wr_reach.induct)
  case (wr_start s)
  then show ?case
    by (simp add: wr_inv_def wr_file_ok_def block_def)
next
  case (wr_next psts s ios psts' s')
  then show ?case
    by (auto intro: wr_pass_inv)
qed

text \<open>When a pass fails, whichever channel failed, the last channel's file is as it was.\<close>

lemma wr_channel_other:
  assumes "wr_channel nch ch io s = (r, s')" "d \<noteq> ch"
  shows "wr_files s' ! d = wr_files s ! d" "wr_tails s' ! d = wr_tails s ! d"
    "ch \<noteq> nch - 1 \<Longrightarrow> wr_samples s' = wr_samples s" "length (wr_files s') = length (wr_files s)"
  using assms by (auto simp: wr_channel_def Let_def split: sum.splits if_splits)

lemma wr_channels_fail_last:
  assumes "wr_channels (Suc n) ch ios s = (Some e, s')" "ch + length ios = Suc n"
    and "wr_file_ok start hist s n" "wr_samples s = wr_tails s ! n - start"
    and "unat (wr_tails s ! n) < 2 ^ 61" "n < length (wr_files s)"
  shows "wr_files s' ! n = wr_files s ! n"
  using assms
proof (induction ios arbitrary: ch s)
  case Nil
  then show ?case by simp
next
  case (Cons io ios)
  show ?case
  proof (cases "ch = n")
    case True
    then have "wr_channel (Suc n) ch io s = (Some e, s')"
      using Cons.prems(1,2) by (auto split: prod.splits option.splits)
    with wr_channel_fails [of "Suc n" ch io s e s'] Cons.prems True show ?thesis by simp
  next
    case False
    obtain r s1 where s1: "wr_channel (Suc n) ch io s = (r, s1)"
      by (cases "wr_channel (Suc n) ch io s")
    have F: "wr_files s1 ! n = wr_files s ! n" "wr_tails s1 ! n = wr_tails s ! n"
      "wr_samples s1 = wr_samples s" "length (wr_files s1) = length (wr_files s)"
      using wr_channel_other [OF s1, of n] False by auto
    show ?thesis
    proof (cases r)
      case None
      with s1 Cons.prems(1) have "wr_channels (Suc n) (Suc ch) ios s1 = (Some e, s')"
        by simp
      then have "wr_files s' ! n = wr_files s1 ! n"
        by (rule Cons.IH) (use Cons.prems F in \<open>simp_all add: wr_file_ok_def\<close>)
      with F show ?thesis by simp
    next
      case (Some e')
      with s1 Cons.prems(1) F show ?thesis by simp
    qed
  qed
qed

subsection \<open>The constructor\<close>

lemma wr_sync_check_ok:
  "wr_sync_check rb0 rbs = None \<Longrightarrow> rb \<in> set rbs \<Longrightarrow>
   rb_start_nsec rb = rb_start_nsec rb0 \<and> rb_rate rb = rb_rate rb0"
  by (induction rb0 rbs rule: wr_sync_check.induct) (auto simp: deq_def split: if_splits)

lemma wr_open_channel_files:
  "wr_open_channel prefix start ch rb io w = (r, w') \<Longrightarrow> set (ws_open w) = set (ws_files w) \<Longrightarrow>
   set (ws_open w') = set (ws_files w')"
  by (auto simp: wr_open_channel_def Let_def split: sum.splits option.splits)

lemma wr_open_all_files:
  "wr_open_all prefix start ch rings w = (r, w') \<Longrightarrow> set (ws_open w) = set (ws_files w) \<Longrightarrow>
   set (ws_open w') = set (ws_files w')"
  by (induction prefix start ch rings w rule: wr_open_all.induct)
    (auto split: prod.splits option.splits dest: wr_open_channel_files)

lemma wr_open_channel_ok:
  "wr_open_channel prefix start ch rb io w = (None, w') \<Longrightarrow>
   \<exists>tail. get_tail rb start = Inr tail \<and> ws_tails w' = ws_tails w @ [tail] \<and>
     ws_paths w' = ws_paths w @ [wr_path prefix start ch] \<and>
     ws_files w' = ws_files w @ [ch] \<and> ws_open w' = ws_open w @ [ch]"
  by (auto simp: wr_open_channel_def Let_def split: sum.splits option.splits)

lemma wr_open_all_ok:
  "wr_open_all prefix start ch rings w = (None, w') \<Longrightarrow>
   ws_paths w' = ws_paths w @ map (wr_path prefix start) [ch..<ch + length rings] \<and>
   ws_open w' = ws_open w @ [ch..<ch + length rings] \<and>
   (\<exists>tails. ws_tails w' = ws_tails w @ tails \<and> length tails = length rings \<and>
      (\<forall>k < length rings. get_tail (fst (rings ! k)) start = Inr (tails ! k)))"
proof (induction prefix start ch rings w rule: wr_open_all.induct)
  case (2 prefix start ch rb io rest w)
  then obtain w1 where w1: "wr_open_channel prefix start ch rb io w = (None, w1)"
    "wr_open_all prefix start (Suc ch) rest w1 = (None, w')"
    by (auto split: prod.splits option.splits)
  from wr_open_channel_ok [OF w1(1)] obtain tail where tail: "get_tail rb start = Inr tail"
    "ws_tails w1 = ws_tails w @ [tail]" "ws_paths w1 = ws_paths w @ [wr_path prefix start ch]"
    "ws_open w1 = ws_open w @ [ch]"
    by blast
  from "2.IH" [OF w1(1) [symmetric] refl w1(2)] obtain tails where tails:
    "ws_paths w' = ws_paths w1 @ map (wr_path prefix start) [Suc ch..<Suc ch + length rest]"
    "ws_open w' = ws_open w1 @ [Suc ch..<Suc ch + length rest]"
    "ws_tails w' = ws_tails w1 @ tails" "length tails = length rest"
    "\<forall>k < length rest. get_tail (fst (rest ! k)) start = Inr (tails ! k)"
    by blast
  have "[ch..<ch + length ((rb, io) # rest)] = ch # [Suc ch..<Suc ch + length rest]"
    by (simp del: upt_Suc add: upt_conv_Cons)
  moreover have "\<forall>k < length ((rb, io) # rest).
      get_tail (fst (((rb, io) # rest) ! k)) start = Inr ((tail # tails) ! k)"
    using tail(1) tails(5) by (auto simp: nth_Cons split: nat.split)
  ultimately show ?case
    using tail tails by (auto intro!: exI [of _ "tail # tails"])
qed simp

lemma wr_path_inject: "wr_path prefix start a = wr_path prefix start b \<longleftrightarrow> a = b"
proof
  assume "wr_path prefix start a = wr_path prefix start b"
  then have "show_nat a @ ''.cint16.bin'' = show_nat b @ ''.cint16.bin''"
    by (simp add: wr_path_def)
  then show "a = b"
    by (simp only: append_same_eq show_nat_inject)
qed simp

lemma get_tail_cong:
  "rb_start_nsec rb = rb_start_nsec rb' \<Longrightarrow> rb_rate rb = rb_rate rb' \<Longrightarrow>
   get_tail rb n = Inr t \<Longrightarrow> get_tail rb' n = Inr t' \<Longrightarrow> t = t'"
  by (auto simp: get_tail_def split: if_splits option.splits)

lemma get_tail_ahead: "get_tail rb n = Inr t \<Longrightarrow> rb_clob rb < t"
  by (auto simp: get_tail_def split: if_splits option.splits)

subsection \<open>Properties of the recorder\<close>

text \<open>
  C3. The recording is right: after any number of passes, for any producers running at the same
  time and any partial \<open>fwrite\<close> of whole samples, the file of every channel is the history of its
  ring from the first recorded sample to the tail, byte for byte: nothing clobbered, skipped or
  repeated.
\<close>

theorem wr_recording:
  assumes "wr_reach starts psts0 psts s" "ch < length starts"
  shows "wr_files s ! ch = samples_bytes (block (unat (starts ! ch))
      (unat (wr_tails s ! ch) - unat (starts ! ch)) (p_hist (psts ! ch))) \<and>
    unat (starts ! ch) \<le> unat (wr_tails s ! ch) \<and>
    (wr_tails s ! ch = starts ! ch \<or> unat (wr_tails s ! ch) \<le> length (p_hist (psts ! ch)))"
  using wr_reach_inv [OF assms(1)] assms(2) by (simp add: wr_inv_def wr_file_ok_def)

text \<open>
  C19. A recording that fails keeps what was right: when a pass ends in an exception (the producer
  overtook the recorder, writing failed), the file of the last channel, so of the only channel
  of a single-channel recording, is exactly what it was before the pass.
\<close>

theorem wr_failed_pass:
  assumes "wr_reach starts psts0 psts s" "length ios = length starts"
    and "\<forall>t \<in> set (wr_tails s). unat t < 2 ^ 61" "wr_pass ios s = (Some e, s')"
  shows "wr_files s' ! (length starts - 1) = samples_bytes (block (unat (starts ! (length starts - 1)))
      (unat (wr_tails s ! (length starts - 1)) - unat (starts ! (length starts - 1)))
      (p_hist (psts ! (length starts - 1))))"
proof -
  let ?n = "length starts - 1" and ?s = "s\<lparr>wr_sleep := 10000000\<rparr>"
  have I: "wr_inv starts psts s"
    by (rule wr_reach_inv [OF assms(1)])
  then have n: "length starts = Suc ?n" "?n < length (wr_files s)" "?n < length (wr_tails s)"
    by (auto simp: wr_inv_def)
  have ok: "wr_file_ok (starts ! ?n) (p_hist (psts ! ?n)) s ?n"
    using I by (simp add: wr_inv_def)
  have "wr_channels (Suc ?n) 0 ios ?s = (Some e, s')"
    using assms(2,4) n(1) by (auto simp: wr_pass_def split: prod.splits option.splits)
  then have "wr_files s' ! ?n = wr_files ?s ! ?n"
  proof (rule wr_channels_fail_last)
    show "wr_file_ok (starts ! ?n) (p_hist (psts ! ?n)) ?s ?n"
      using ok by (simp add: wr_file_ok_def)
    show "wr_samples ?s = wr_tails ?s ! ?n - starts ! ?n"
      using I by (simp add: wr_inv_def)
  qed (use assms(2,3) n in simp_all)
  with ok show ?thesis
    by (simp add: wr_file_ok_def)
qed

text \<open>
  With several channels the truncation uses the wrong count: if channel \<open>ch\<close> is overtaken while
  the last channel has recorded less, the file of \<open>ch\<close> is cut below what was validly recorded.
\<close>

theorem wr_truncation_loses:
  assumes "wr_file_ok start hist s ch" "ch < length (wr_files s)" "unat (wr_tails s ! ch) < 2 ^ 61"
    and "wr_samples s < wr_tails s ! ch - start"
    and "sp_size (wr_span io (wr_tails s ! ch)) \<noteq> 0" "io_ret io \<noteq> 0"
    and "get_clobber_distance (io_clob_ring io) (wr_tails s ! ch) < 0"
  shows "\<exists>e s'. wr_channel nch ch io s = (Some e, s') \<and>
    length (wr_files s' ! ch) = 4 * unat (wr_samples s) \<and> length (wr_files s' ! ch) < length (wr_files s ! ch)"
proof -
  let ?tail = "wr_tails s ! ch"
  have st: "unat start \<le> unat ?tail"
    using assms(1) by (simp add: wr_file_ok_def)
  have "unat (?tail - start) = unat ?tail - unat start"
    using st by (simp add: unat_sub word_le_nat_alt)
  then have less: "unat (wr_samples s) < unat ?tail - unat start"
    using assms(4) by (simp add: word_less_nat_alt)
  then have "unat (4 * wr_samples s) = 4 * unat (wr_samples s)"
    using assms(3) by (simp add: unat_word_ariths)
  moreover have "length (wr_files s ! ch) = 4 * (unat ?tail - unat start)"
    using assms(1) st by (auto simp: wr_file_ok_def)
  ultimately show ?thesis
    using assms(2,5-7) less by (auto simp: wr_channel_def Let_def resize_file_def)
qed

text \<open>
  C22. No file is leaked: if the constructor throws, for whatever reason and at whatever channel,
  no file it opened is left open, and if it returns, none is after the destructor, whatever the
  thread has done in between.
\<close>

theorem wr_new_no_leak:
  assumes "wr_new prefix start_nsec rings = (r, w)"
  shows "ws_open (case r of None \<Rightarrow> fst (wr_delete w s) | Some e \<Rightarrow> w) = []"
proof -
  let ?w0 = "\<lparr>ws_tails = [], ws_paths = [], ws_files = [], ws_open = [], ws_logs = []\<rparr>"
  show ?thesis
  proof (cases r)
    case (Some e)
    with assms consider "ws_open w = []"
      | w' where "wr_open_all prefix start_nsec 0 rings ?w0 = (Some e, w')" "w = wr_close_files w'"
      by (auto simp: wr_new_def Let_def split: list.splits option.splits prod.splits)
    then have "ws_open w = []"
      using wr_open_all_files by cases (force simp: wr_close_files_def filter_empty_conv)+
    with Some show ?thesis by simp
  next
    case None
    with assms have "wr_open_all prefix start_nsec 0 rings ?w0 = (None, w)"
      by (auto simp: wr_new_def Let_def split: list.splits option.splits prod.splits)
    then have "set (ws_open w) = set (ws_files w)"
      using wr_open_all_files by fastforce
    with None show ?thesis
      by (simp add: wr_delete_def wr_close_files_def filter_empty_conv)
  qed
qed

text \<open>
  C21. When it returns, every channel has its own file, and all recordings start at the same
  sample, which the producer of no channel has claimed yet.
\<close>

theorem wr_new_ok:
  assumes "wr_new prefix start_nsec rings = (None, w)"
  shows "\<exists>tail. ws_tails w = replicate (length rings) tail \<and> distinct (ws_paths w) \<and>
    length (ws_paths w) = length rings \<and> ws_open w = [0..<length rings] \<and>
    (\<forall>r \<in> set rings. rb_clob (fst r) < tail)"
proof -
  let ?w0 = "\<lparr>ws_tails = [], ws_paths = [], ws_files = [], ws_open = [], ws_logs = []\<rparr>"
  obtain rb0 rbs where rings: "map fst rings = rb0 # rbs" "wr_sync_check rb0 rbs = None"
    "wr_open_all prefix start_nsec 0 rings ?w0 = (None, w)"
    using assms by (auto simp: wr_new_def Let_def split: list.splits option.splits prod.splits)
  from wr_open_all_ok [OF rings(3)] obtain tails where tails:
    "ws_paths w = map (wr_path prefix start_nsec) [0..<length rings]" "ws_open w = [0..<length rings]"
    "ws_tails w = tails" "length tails = length rings"
    "\<forall>k < length rings. get_tail (fst (rings ! k)) start_nsec = Inr (tails ! k)"
    by auto
  have ne: "0 < length rings"
    using rings(1) by (cases rings) auto
  have sync: "rb_start_nsec (fst (rings ! k)) = rb_start_nsec rb0 \<and> rb_rate (fst (rings ! k)) = rb_rate rb0"
    if "k < length rings" for k
  proof -
    have "fst (rings ! k) \<in> set (rb0 # rbs)"
      using that by (simp flip: rings(1))
    with wr_sync_check_ok [OF rings(2)] show ?thesis by auto
  qed
  have eq: "tails ! k = tails ! 0" if "k < length rings" for k
    using get_tail_cong [of "fst (rings ! k)" "fst (rings ! 0)"] sync [OF that] sync [OF ne] tails(5) that ne
    by metis
  then have "tails = replicate (length rings) (tails ! 0)"
    using tails(4) by (intro nth_equalityI) simp_all
  moreover have "rb_clob (fst r) < tails ! 0" if "r \<in> set rings" for r
    using that get_tail_ahead tails(5) eq by (metis in_set_conv_nth)
  moreover have "distinct (ws_paths w)"
    by (simp add: tails(1) distinct_map inj_on_def wr_path_inject)
  ultimately show ?thesis
    using tails(1-3) by auto
qed

subsection \<open>Concrete recordings\<close>

text \<open>An empty ring of four samples, and an access that meets it in every state.\<close>

definition demo_ring0 :: "sample ringbuf" where
  "demo_ring0 = (ringbuf_new 16 4 zero_sample)\<lparr>rb_rate := NaN\<rparr>"

definition demo_pst :: "sample pstate" where
  "demo_pst = \<lparr>p_ring = demo_ring0, p_hist = [], p_hi = 0\<rparr>"

definition demo_wr :: wr_state where
  "demo_wr = \<lparr>wr_run = True, wr_tails = [3], wr_files = [[]], wr_samples = 0, wr_sleep = 0,
     wr_backlog = 0, wr_written = 0, wr_logs = []\<rparr>"

definition demo_io :: wr_io where
  "demo_io = \<lparr>io_span_ring = demo_ring0, io_wait_ring = demo_ring0, io_read_ring = (\<lambda>_. demo_ring0),
     io_ret = 0, io_errno = 0, io_clob_ring = demo_ring0, io_backlog_ring = demo_ring0\<rparr>"

lemma demo_pst_pinv: "pinv demo_pst"
proof -
  have "ring_wf (ringbuf_new 16 4 zero_sample)"
    using ringbuf_new_ok(1) [of 2 16 4 zero_sample] by simp
  then show ?thesis
    by (simp add: pinv_def demo_pst_def demo_ring0_def ring_wf_def ring_repr_upto_def ringbuf_new_def Let_def)
qed

lemma demo_reach_wr: "wr_reach [3] [demo_pst] [demo_pst] demo_wr"
  by (rule wr_start) (simp_all add: demo_pst_pinv demo_wr_def)

lemma ddiv_NaN: "ddiv x NaN = NaN"
  by (cases x) simp_all

lemma dmul_NaN: "dmul NaN x = NaN"
  by (cases x) simp_all

lemma demo_pass_fails: "\<exists>e s'. wr_pass [demo_io] demo_wr = (Some e, s')"
proof -
  have rate: "rb_rate demo_ring0 = NaN"
    by (simp add: demo_ring0_def)
  have "get_consumer_wait demo_ring0 3 WR_BLOCK_SAMPLES = Inl (Undefined ''sleep_sec * 1e9 does not fit uint64_t'')"
    by (simp add: get_consumer_wait_def rate ddiv_NaN dmul_NaN dle_def deq_def Let_def)
  moreover have "sp_size (wr_span demo_io 3) = 0"
    by (simp add: wr_span_def demo_io_def demo_ring0_def get_consumer_span_def ringbuf_new_def
        WR_BLOCK_SAMPLES_def Let_def)
  ultimately show ?thesis
    by (simp add: wr_pass_def wr_channel_def demo_wr_def demo_io_def)
qed

text \<open>
  A pass over one channel that meets a producer whose ring of one block ends one block after the tail,
  and whose \<open>fwrite\<close> takes a single sample of it.
\<close>

lemma demo_record:
  assumes "pinv p0" "pstep\<^sup>*\<^sup>* p0 p" "unat t < 1048576" "length (p_hist p) = unat t + 1048576"
    and "rb_size (p_ring p) = 1048576" "rb_clob (p_ring p) = t + 1048576"
  shows "\<exists>s. wr_reach [t] [p0] [p] s \<and> wr_tails s = [t + 1] \<and> length (wr_files s ! 0) = 4"
proof -
  define io where "io = \<lparr>io_span_ring = p_ring p, io_wait_ring = p_ring p, io_read_ring = (\<lambda>_. p_ring p),
     io_ret = 4, io_errno = 0, io_clob_ring = p_ring p, io_backlog_ring = p_ring p\<rparr>"
  define s0 where "s0 = demo_wr\<lparr>wr_tails := [t]\<rparr>"
  define sp where "sp = Span (int (unat t)) (word_of_nat (1048576 - unat t))"
  have inv: "pinv p"
    using psteps_inv [OF assms(2,1)] by simp
  then have head: "unat (rb_head (p_ring p)) = unat t + 1048576" and wf: "ring_wf (p_ring p)"
    using assms(4) by (simp_all add: pinv_def ring_repr_upto_def)
  have F: "io_span_ring io = p_ring p" "io_read_ring io = (\<lambda>_. p_ring p)" "io_clob_ring io = p_ring p"
    "io_ret io = 4"
    by (simp_all add: io_def)
  have B: "unat WR_BLOCK_SAMPLES = 1048576"
    by (simp add: WR_BLOCK_SAMPLES_def)
  have span: "wr_span io t = sp"
    using get_consumer_span_eq [OF wf, of WR_BLOCK_SAMPLES t] assms(3)
    by (simp add: wr_span_def F B assms(5) head clip_def sp_def)
  have size: "unat (sp_size sp) = 1048576 - unat t"
    unfolding sp_def span.sel by (rule unat_word_of_nat_u64) simp
  then have pos: "sp_size sp \<noteq> 0"
    using assms(3) by auto
  have "get_clobber_distance (io_clob_ring io) t = 0"
    by (simp add: get_clobber_distance_def F assms(5,6))
  then have "wr_channel 1 0 io (s0\<lparr>wr_sleep := 10000000\<rparr>) = (None, s0\<lparr>wr_sleep := 0,
      wr_files := [take 4 (samples_bytes (wr_cells io sp))], wr_tails := [t + 1], wr_samples := 1\<rparr>)"
    using pos by (simp add: wr_channel_def s0_def demo_wr_def span F Let_def)
  then obtain s where s: "wr_pass [io] s0 = (None, s)" "wr_tails s = [t + 1]"
    "wr_files s = [take 4 (samples_bytes (wr_cells io sp))]"
    by (simp add: wr_pass_def)
  have "io_ok p0 io p t"
    using assms(2,3) unfolding io_ok_def
    by (intro conjI exI [of _ p] exI [of _ p]) (auto simp: span F size)
  then have ios: "ios_ok (wr_tails s0) 0 [p0] [io] [p]"
    by (auto simp: s0_def demo_wr_def intro!: exI [of _ p])
  have "wr_reach [t] [p0] [p0] s0"
    by (rule wr_start) (simp_all add: assms(1) s0_def demo_wr_def)
  then have "wr_reach [t] [p0] [p] s"
    by (rule wr_next [OF _ _ ios _ s(1)]) (use assms(3) in \<open>simp_all add: s0_def demo_wr_def\<close>)
  moreover have "length (wr_files s ! 0) = 4"
    using assms(3) by (simp add: s(3) wr_cells_def size)
  ultimately show ?thesis
    using s(2) by blast
qed

definition demo_block :: "sample list" where
  "demo_block = replicate 1048576 (1, 2)"

lemma length_demo_block [simp]: "length demo_block = 1048576"
  by (simp add: demo_block_def)

lemma nth_demo_block: "i < 1048576 \<Longrightarrow> demo_block ! i = (1, 2)"
  by (simp add: demo_block_def)

definition demo_filled :: "sample pstate" where
  "demo_filled = \<lparr>p_ring = \<lparr>rb_start_nsec = 0, rb_rate = NaN, rb_head = 1048576, rb_clob = 1048576,
     rb_mem = demo_block, rb_lhead = 1048576, rb_size = 1048576, rb_mask = 1048575\<rparr>,
     p_hist = demo_block, p_hi = 1048576\<rparr>"

lemma demo_filled_pinv: "pinv demo_filled"
proof -
  have "ring_wf (p_ring demo_filled)"
    unfolding ring_wf_def by (intro conjI exI [of _ 20]) (simp_all add: demo_filled_def)
  then show ?thesis
    by (simp add: pinv_def ring_repr_upto_def) (simp add: demo_filled_def)
qed

theorem wr_recording_witness:
  "\<exists>s. wr_reach [0] [demo_filled] [demo_filled] s \<and> wr_files s ! 0 = sample_bytes (1, 2)"
proof -
  obtain s where s: "wr_reach [0] [demo_filled] [demo_filled] s" "wr_tails s = [1]"
    using demo_record [OF demo_filled_pinv rtranclp.rtrancl_refl, of 0] by (auto simp: demo_filled_def)
  have "block 0 1 demo_block = [(1, 2)]"
    using nth_demo_block [of 0] by (intro nth_equalityI) (auto simp: nth_block)
  then have "wr_files s ! 0 = sample_bytes (1, 2)"
    using wr_recording [OF s(1), of 0] s(2) by (simp add: demo_filled_def)
  with s(1) show ?thesis by blast
qed

theorem wr_failed_pass_witness: "\<exists>e s'. wr_pass [demo_io] demo_wr = (Some e, s') \<and> wr_files s' ! 0 = []"
proof -
  obtain e s' where e: "wr_pass [demo_io] demo_wr = (Some e, s')"
    using demo_pass_fails by blast
  have "\<forall>t \<in> set (wr_tails demo_wr). unat t < 2 ^ 61"
    by (simp add: demo_wr_def)
  then have "wr_files s' ! 0 = []"
    using wr_failed_pass [OF demo_reach_wr _ _ e] by (simp add: demo_pst_def block_def)
  with e show ?thesis by blast
qed

text \<open>Two channels: the first has recorded one sample, the last none, and the first is overtaken.\<close>

definition demo_wr2 :: wr_state where
  "demo_wr2 = demo_wr\<lparr>wr_tails := [1, 0], wr_files := [samples_bytes [(1, 2)], []]\<rparr>"

definition demo_full :: "sample ringbuf" where
  "demo_full = \<lparr>rb_start_nsec = 0, rb_rate = NaN, rb_head = 4194304, rb_clob = 4194304,
     rb_mem = [], rb_lhead = 4194304, rb_size = 1048576, rb_mask = 1048575\<rparr>"

definition demo_io2 :: wr_io where
  "demo_io2 = demo_io\<lparr>io_span_ring := demo_full, io_ret := 4, io_clob_ring := demo_full\<rparr>"

theorem wr_truncation_loses_witness:
  "\<exists>e s'. wr_channel 2 0 demo_io2 demo_wr2 = (Some e, s') \<and> wr_files s' ! 0 = [] \<and>
    wr_files demo_wr2 ! 0 = samples_bytes [(1, 2)]"
proof -
  have "wr_file_ok 0 [(1, 2)] demo_wr2 0"
    by (simp add: wr_file_ok_def demo_wr2_def block_def)
  moreover have "wr_tails demo_wr2 ! 0 = 1" "wr_samples demo_wr2 = 0" "0 < length (wr_files demo_wr2)"
    by (simp_all add: demo_wr2_def demo_wr_def)
  moreover have "sp_size (wr_span demo_io2 1) \<noteq> 0"
    by (simp add: wr_span_def demo_io2_def demo_full_def get_consumer_span_def WR_BLOCK_SAMPLES_def Let_def
        word_less_nat_alt word_le_nat_alt)
  moreover have "get_clobber_distance (io_clob_ring demo_io2) 1 < 0"
    by (simp add: get_clobber_distance_def demo_io2_def demo_full_def sint_u64)
  moreover have "io_ret demo_io2 \<noteq> 0"
    by (simp add: demo_io2_def)
  ultimately show ?thesis
    using wr_truncation_loses [of 0 "[(1, 2)]" demo_wr2 0 demo_io2 2]
    by (auto simp: demo_wr2_def)
qed

definition demo_open :: "int option \<Rightarrow> wr_open_io" where
  "demo_open r = \<lparr>wo_fopen = r, wo_fileno = None, wo_getfl = None, wo_setfl = None\<rparr>"

text \<open>At 100 samples per second, one second after the start of \<open>demo_ring8\<close>.\<close>

lemma demo_tail:
  "get_tail ((ringbuf_new 16 4 zero_sample)\<lparr>rb_rate := Fin 100\<rparr>) 1000000000 = Inr 100"
proof -
  have "get_tail ((ringbuf_new 16 4 zero_sample)\<lparr>rb_rate := Fin 100\<rparr>) (0 + word_of_nat (1 * 1000000000)) = Inr 100"
    using tail_rounding [of 1 100] by (simp add: get_tail_def ringbuf_new_def)
  then show ?thesis by simp
qed

theorem wr_new_no_leak_witness:
  "\<exists>e w. wr_new ''x'' 1000000000 [((ringbuf_new 16 4 zero_sample)\<lparr>rb_rate := Fin 100\<rparr>, demo_open None),
     ((ringbuf_new 16 4 zero_sample)\<lparr>rb_rate := Fin 100\<rparr>, demo_open (Some 17))] = (Some e, w) \<and> ws_open w = []"
proof -
  let ?rings = "[((ringbuf_new 16 4 zero_sample)\<lparr>rb_rate := Fin 100\<rparr>, demo_open None),
     ((ringbuf_new 16 4 zero_sample)\<lparr>rb_rate := Fin 100\<rparr>, demo_open (Some 17))]"
  obtain e w where "wr_new ''x'' 1000000000 ?rings = (Some e, w)"
    by (simp add: wr_new_def wr_open_channel_def demo_tail demo_open_def deq_def Let_def)
  with wr_new_no_leak [OF this, of demo_wr] show ?thesis by auto
qed

theorem wr_new_ok_witness:
  "\<exists>w tail. wr_new ''x'' 1000000000 [((ringbuf_new 16 4 zero_sample)\<lparr>rb_rate := Fin 100\<rparr>, demo_open None)] = (None, w) \<and>
     ws_tails w = [tail]"
proof -
  let ?rings = "[((ringbuf_new 16 4 zero_sample)\<lparr>rb_rate := Fin 100\<rparr>, demo_open None)]"
  obtain w where "wr_new ''x'' 1000000000 ?rings = (None, w)"
    by (simp add: wr_new_def wr_open_channel_def demo_tail demo_open_def Let_def)
  with wr_new_ok [OF this] show ?thesis by auto
qed

end
