(* ===== verification/Recording.thy ===== *)
theory Recording
  imports Rx Wr
begin

text \<open>
  The receive thread and the recorder together. \<^verbatim>\<open>Rx::worker\<close> fills the rings, \<^verbatim>\<open>Wr::worker\<close> reads them at
  the same time without a lock and writes files. The receive thread's run is a run of the producer
  relation \<open>pstep\<close>, which is all that the recorder's invariant needs of it.
\<close>

subsection \<open>From the radio to the file\<close>

text \<open>
  The producer of channel \<open>c\<close>'s ring before the receive thread runs, and after it has run on the
  packets \<open>pks\<close>.
\<close>

definition rec_begin :: "u64 \<Rightarrow> dbl \<Rightarrow> sample ringbuf \<Rightarrow> sample pstate" where
  "rec_begin nsec rate rb = \<lparr>p_ring = set_descriptor_info nsec rate rb, p_hist = [], p_hi = 0\<rparr>"

definition rec_end :: "sample ringbuf \<Rightarrow> sample list \<Rightarrow> sample pstate" where
  "rec_end rb hist = \<lparr>p_ring = rb, p_hist = hist, p_hi = length hist\<rparr>"

lemma recorded_prefix:
  assumes "wr_reach starts psts0 psts w" "c < length starts" "pstep\<^sup>*\<^sup>* (psts ! c) p"
  shows "wr_files w ! c = samples_bytes (block (unat (starts ! c)) (length (wr_files w ! c) div 4) (p_hist p))"
proof -
  have I: "pinv (psts ! c)" "wr_file_ok (starts ! c) (p_hist (psts ! c)) w c"
    using wr_reach_inv [OF assms(1)] assms(2) by (simp_all add: wr_inv_def)
  obtain ext where "p_hist p = p_hist (psts ! c) @ ext"
    using psteps_inv [OF assms(3) I(1)] by (auto simp: pgrows_def)
  then have ok: "wr_file_ok (starts ! c) (p_hist p) w c"
    using wr_file_ok_mono [OF I(2)] by simp
  then have "length (wr_files w ! c) = 4 * (unat (wr_tails w ! c) - unat (starts ! c))"
    by (auto simp: wr_file_ok_def)
  with ok show ?thesis
    by (simp add: wr_file_ok_def)
qed

text \<open>
  C1. From the radio to the file: the receive thread terminates, and while it runs, whatever the radio
  returns within its contract, every ring goes through the steps of a producer to the history the
  ideal receiver makes of the packets. A recorder that meets the rings at any points of this run, in
  any interleaving, writes to every file exactly the bytes of that history, from its first sample on,
  without a gap. The ideal receiver keeps a trait of the code: after a gap every channel gets the samples
  of channel 0. And a write to a file ends with a whole sample (\<open>io_ok\<close>).
\<close>

theorem recording_end_to_end:
  assumes "\<forall>rb \<in> set (rx_rings s). ring_wf rb \<and> ring_repr rb []" "rx_rings s \<noteq> []"
    and "rx_start_secs full fr = int n" "n < 2 ^ 32" "to_u64 rate = Some limit"
    and "\<forall>r \<in> set recvs. recv_ok (length (rx_rings s)) mx r"
    and "unat mx < 2 ^ 61" "unat limit < 2 ^ 61" "length recvs * (unat limit + unat mx) < 2 ^ 62"
    and "psts0 = map (rec_begin (word_of_nat (n * 1000000000)) rate) (rx_rings s)"
    and "hs = (\<lambda>c. rx_ideal limit (ticks (int n)) c False [] (rx_all_packets rate ticks mx full fr recvs s))"
  shows "\<exists>s'. rx_worker None rate ticks mx full fr recvs rest s = Some s' \<and>
    (\<forall>c < length (rx_rings s). pstep\<^sup>*\<^sup>* (psts0 ! c) (rec_end (rx_rings s' ! c) (hs c)) \<and>
      (\<forall>starts psts w. wr_reach starts psts0 psts w \<and>
          pstep\<^sup>*\<^sup>* (psts ! c) (rec_end (rx_rings s' ! c) (hs c)) \<longrightarrow>
        wr_files w ! c = samples_bytes (block (unat (starts ! c)) (length (wr_files w ! c) div 4) (hs c))))"
proof -
  obtain s' hs' where s': "rx_worker None rate ticks mx full fr recvs rest s = Some s'" "hs' = hs"
    "\<And>c. c < length (rx_rings s) \<Longrightarrow> ring_holds (set_descriptor_info (word_of_nat (n * 1000000000)) rate (rx_rings s ! c))
       (rx_rings s' ! c) (hs' c) \<and> length (hs' c) = length (hs' 0)"
    using rx_worker_ok [OF assms(1-9), where ticks = ticks and rest = rest] assms(11) by metis
  have "pstep\<^sup>*\<^sup>* (psts0 ! c) (rec_end (rx_rings s' ! c) (hs c))" if "c < length (rx_rings s)" for c
    using conjunct1 [OF s'(3) [OF that]] that
    by (simp add: ring_holds_def produced_def rec_begin_def rec_end_def assms(10) s'(2))
  moreover have "wr_files w ! c = samples_bytes (block (unat (starts ! c)) (length (wr_files w ! c) div 4) (hs c))"
    if "c < length (rx_rings s)" "wr_reach starts psts0 psts w"
      "pstep\<^sup>*\<^sup>* (psts ! c) (rec_end (rx_rings s' ! c) (hs c))" for c starts psts w
  proof -
    have "length psts0 = length starts"
      using that(2) by (induction rule: wr_reach.induct) simp_all
    then have "c < length starts"
      using that(1) by (simp add: assms(10))
    from recorded_prefix [OF that(2) this that(3)] show ?thesis
      by (simp add: rec_end_def)
  qed
  ultimately show ?thesis
    using s'(1) by blast
qed

text \<open>
  Concretely: one packet that fills a ring of \<open>2 ^ 20\<close> samples, and a recorder that writes the first
  sample of it.
\<close>

definition demo_long :: rx_state where
  "demo_long = demo_rx\<lparr>rx_rings := [ringbuf_new 4194304 4 zero_sample]\<rparr>"

definition demo_long_recv :: "u64 \<Rightarrow> rx_packet" where
  "demo_long_recv m = \<lparr>pk_samples = m, pk_data = [take (unat m) demo_block], pk_error = ERROR_CODE_NONE,
     pk_sob = False, pk_eob = False, pk_ticks = 60\<rparr>"

definition demo_ticks :: "int \<Rightarrow> u64" where
  "demo_ticks s = word_of_int (10 * s)"

lemma demo_ticks_6 [simp]: "demo_ticks 6 = 60"
  by (simp add: demo_ticks_def)

lemma demo_long_rings: "\<forall>rb \<in> set (rx_rings demo_long). ring_wf rb \<and> ring_repr rb []"
  using ringbuf_new_ok [of 20 4194304 4 zero_sample] by (simp add: demo_long_def)

lemma demo_long_recv_ok: "recv_ok (Suc 0) 1048576 demo_long_recv"
  by (auto simp: recv_ok_def demo_long_recv_def word_le_nat_alt)

lemma demo_long_begin:
  obtains t where "rx_begin (Fin 10) demo_ticks 1048576 5 (Fin (1 / 4)) demo_long = Some t"
    "rx_run t" "rx_contiguous t = 0" "rx_next t = 60" "rx_tmp t = [replicate 1048576 zero_sample]"
    "rx_rings t = [set_descriptor_info 6000000000 (Fin 10) (ringbuf_new 4194304 4 zero_sample)]"
  using nsec_exact [of 6] that by (simp add: rx_begin_def demo_start demo_long_def demo_rx_def rx_say_def)

lemma demo_long_packets:
  "rx_all_packets (Fin 10) demo_ticks 1048576 5 (Fin (1 / 4)) [demo_long_recv] demo_long = [demo_long_recv 1048576]"
proof -
  obtain t where "rx_begin (Fin 10) demo_ticks 1048576 5 (Fin (1 / 4)) demo_long = Some t" "rx_run t" "rx_contiguous t = 0"
    by (rule demo_long_begin)
  then show ?thesis
    by (simp add: rx_all_packets_def rx_request_def rx_buffers_def split: option.split)
qed

lemma demo_long_ideal: "rx_ideal 10 60 0 False [] [demo_long_recv 1048576] = demo_block"
  by (simp add: demo_long_recv_def)

lemma demo_long_clob:
  assumes "rx_worker None (Fin 10) demo_ticks 1048576 5 (Fin (1 / 4)) [demo_long_recv] [] demo_long = Some s'"
  shows "rb_size (rx_rings s' ! 0) = 1048576" "rb_clob (rx_rings s' ! 0) = 1048576"
proof -
  let ?rb = "set_descriptor_info 6000000000 (Fin 10) (ringbuf_new 4194304 4 zero_sample)"
  obtain t where t: "rx_begin (Fin 10) demo_ticks 1048576 5 (Fin (1 / 4)) demo_long = Some t"
    "rx_run t" "rx_contiguous t = 0" "rx_next t = 60" "rx_tmp t = [replicate 1048576 zero_sample]"
    "rx_rings t = [?rb]"
    by (rule demo_long_begin)
  have wf: "ring_wf ?rb"
    using ringbuf_new_ok(1) [of 20 4194304 4 zero_sample] by (simp add: set_descriptor_info_fields)
  have rb: "rb_lhead ?rb = 0" "rb_size ?rb = 1048576"
    by (simp_all add: set_descriptor_info_def ringbuf_new_def Let_def)
  have claim: "ring_claim 1048576 ?rb = 1048576"
    using ring_claim_unat [OF wf, of 1048576] by (simp add: rb clip_def word_unat_eq_iff)
  have fill: "rx_fill_ring 0 1048576 tmp ?rb = Some (ring_append 1048576 (block 0 1048576 tmp) ?rb)" for tmp
    by (simp add: rx_fill_ring_def fill.simps [of _ _ _ _ 0] fill.simps [of _ _ _ _ 1048576] claim Let_def)
  obtain tmp u where "rx_turn (Fin 10) 1048576 demo_long_recv t = Some u"
    "rx_rings u = [ring_append 1048576 (block 0 1048576 tmp) ?rb]"
    using fill by (simp add: rx_turn_def rx_buffers_def rx_accept_def rx_place_def rx_noted_def rx_advance_def
        rx_deliver_def demo_long_recv_def t rx_say_def Let_def)
  then have "rx_rings s' = [ring_append 1048576 (block 0 1048576 tmp) ?rb]"
    using assms by (auto simp: rx_worker_def rx_end_def t(1,2))
  then show "rb_size (rx_rings s' ! 0) = 1048576" "rb_clob (rx_rings s' ! 0) = 1048576"
    by (simp_all add: ring_append_fields [OF wf] rb clip_def)
qed

theorem recording_end_to_end_witness:
  "\<exists>s' w. rx_worker None (Fin 10) demo_ticks 1048576 5 (Fin (1 / 4)) [demo_long_recv] [] demo_long = Some s' \<and>
    wr_reach [0] [rec_begin 6000000000 (Fin 10) (ringbuf_new 4194304 4 zero_sample)]
      [rec_end (rx_rings s' ! 0) demo_block] w \<and>
    wr_files w ! 0 = sample_bytes (1, 2)"
proof -
  let ?p0 = "rec_begin 6000000000 (Fin 10) (ringbuf_new 4194304 4 zero_sample)"
  have rings: "rx_rings demo_long = [ringbuf_new 4194304 4 zero_sample]"
    by (simp add: demo_long_def)
  have init: "[?p0] = map (rec_begin (word_of_nat (6 * 1000000000)) (Fin 10)) (rx_rings demo_long)"
    by (simp add: rings)
  obtain s' where s': "rx_worker None (Fin 10) demo_ticks 1048576 5 (Fin (1 / 4)) [demo_long_recv] [] demo_long = Some s'"
    "pstep\<^sup>*\<^sup>* ?p0 (rec_end (rx_rings s' ! 0) demo_block)"
    "\<And>starts psts w. wr_reach starts [?p0] psts w \<Longrightarrow> pstep\<^sup>*\<^sup>* (psts ! 0) (rec_end (rx_rings s' ! 0) demo_block) \<Longrightarrow>
      wr_files w ! 0 = samples_bytes (block (unat (starts ! 0)) (length (wr_files w ! 0) div 4) demo_block)"
    using recording_end_to_end [OF demo_long_rings _ demo_start _ demo_limit _ _ _ _ init refl,
        of "[demo_long_recv]" 1048576 demo_ticks "[]"] demo_long_recv_ok
    unfolding demo_long_packets by (auto simp: rings demo_long_ideal simp del: rx_ideal.simps)
  have "pinv ?p0"
    using demo_long_rings
    by (simp add: rings pinv_def rec_begin_def set_descriptor_info_fields ring_repr_upto_def)
      (simp add: set_descriptor_info_def ringbuf_new_def Let_def)
  then obtain w where w: "wr_reach [0] [?p0] [rec_end (rx_rings s' ! 0) demo_block] w" "length (wr_files w ! 0) = 4"
    using demo_record [OF _ s'(2), of 0] demo_long_clob [OF s'(1)] by (auto simp: rec_end_def)
  have "block 0 1 demo_block = [(1, 2)]"
    using nth_demo_block [of 0] by (intro nth_equalityI) (auto simp: nth_block)
  then have "wr_files w ! 0 = sample_bytes (1, 2)"
    using s'(3) [OF w(1)] w(2) by simp
  with s'(1) w(1) show ?thesis by blast
qed

end
