(* ===== verification/Tx.thy ===== *)
theory Tx
  imports Errors Doubles Wr
begin

text \<open>
  The transmit thread of \<^verbatim>\<open>src/tx.cpp\<close> and \<^verbatim>\<open>src/tx.hpp\<close>: it repeats one period of a signal for
  ever, in bursts whose start is aligned to the signal's period, restarts the burst after an
  error, and mutes on request. The device is a parameter: the time, the number of samples a
  \<open>send\<close> takes, the asynchronous messages, and the values of the flags other threads set are
  given for every turn of the loop. The state keeps, as a trace, the commands the device gets.
\<close>

subsection \<open>Alignment of the start time\<close>

text \<open>
  The sample count of \<open>align_time\<close>, and the result as the two arguments of the
  \<open>uhd::time_spec_t\<close> constructor. The getters of the time are the first two arguments.
\<close>

definition align_samples :: "int \<Rightarrow> dbl \<Rightarrow> dbl \<Rightarrow> dbl \<Rightarrow> u64 \<Rightarrow> u64 res" where
  "align_samples full fr delay_sec rate period =
     (case to_u64 rate of
        None \<Rightarrow> Inl (Undefined ''sample_rate_hz does not fit uint64_t'')
      | Some rate_int \<Rightarrow>
          if deq (dsub rate (of_u64 rate_int)) (Fin 0)
          then (case (to_u64 (dmul fr (of_u64 rate_int)), to_u64 (dmul rate delay_sec)) of
                  (Some a, Some b) \<Rightarrow>
                    let samples = word_of_int full * rate_int + a + b in
                    if period = 0 then Inl (Undefined ''division by zero period'')
                    else Inr ((samples + period - 1) div period * period)
                | _ \<Rightarrow> Inl (Undefined ''time does not fit uint64_t''))
          else Inl (Generic_error ''Non-integer sample rates are not implemented''))"

definition align_time :: "int \<Rightarrow> dbl \<Rightarrow> dbl \<Rightarrow> dbl \<Rightarrow> u64 \<Rightarrow> (u64 \<times> dbl) res" where
  "align_time full fr delay_sec rate period =
     (case align_samples full fr delay_sec rate period of
        Inl e \<Rightarrow> Inl e
      | Inr samples \<Rightarrow>
          let rate_int = the (to_u64 rate) in
          if rate_int = 0 then Inl (Undefined ''division by zero sample rate'')
          else Inr (samples div rate_int, ddiv (of_u64 (samples mod rate_int)) rate))"

subsection \<open>The signal and its periodic copy\<close>

definition FRAMES_PER_SEND :: u64 where
  "FRAMES_PER_SEND = 128"

definition BURST_DELAY :: dbl where
  "BURST_DELAY = mkd (1 / 100)"

text \<open>
  The constructor's reading of the signal file, given its size and bytes: whole samples only. A
  sample in the file is its four bytes, as in a recording.
\<close>

definition bytes_sample :: "8 word list \<Rightarrow> sample" where
  "bytes_sample bs = (ucast (bs ! 0) OR push_bit 8 (ucast (bs ! 1)), ucast (bs ! 2) OR push_bit 8 (ucast (bs ! 3)))"

definition tx_load :: "string \<Rightarrow> nat \<Rightarrow> 8 word list option \<Rightarrow> sample list res" where
  "tx_load name file_size content =
     (let tx_samples = file_size div 4 in
      case content of
        None \<Rightarrow> Inl (Generic_error (''failed to open Tx file: '' @ name))
      | Some bytes \<Rightarrow>
          if length bytes < tx_samples * 4
          then Inl (Generic_error (''failed to read Tx file: '' @ name))
          else Inr (map (\<lambda>k. bytes_sample (block (4 * k) 4 bytes)) [0..<tx_samples]))"

text \<open>\<open>sendbuf\<close>; the remainder is undefined when the signal is empty.\<close>

definition tx_sendbuf :: "u64 \<Rightarrow> sample list \<Rightarrow> sample list res" where
  "tx_sendbuf samps_per_frame sig =
     (let n = unat (FRAMES_PER_SEND * samps_per_frame + word_of_nat (length sig)) in
      if n \<noteq> 0 \<and> length sig = 0 then Inl (Undefined ''n % tx_signal.size()'')
      else Inr (map (\<lambda>n. sig ! (n mod length sig)) [0..<n]))"

subsection \<open>The thread\<close>

datatype tx_event =
    EVENT_CODE_BURST_ACK
  | EVENT_CODE_UNDERFLOW
  | EVENT_CODE_SEQ_ERROR
  | EVENT_CODE_TIME_ERROR
  | EVENT_CODE_UNDERFLOW_IN_PACKET
  | EVENT_CODE_SEQ_ERROR_IN_BURST
  | EVENT_CODE_USER_PAYLOAD
  | EVENT_CODE_OTHER

text \<open>
  What the device is told. A \<open>Send\<close> has the start-of-burst flag with the burst's start in samples
  since the epoch, the number of samples of the burst already sent, the offset in \<open>sendbuf\<close> and
  the number of samples the device took; \<open>End_of_burst\<close> is the empty packet; \<open>Set_gain\<close> is
  \<open>set_tx_gain\<close>.
\<close>

datatype tx_cmd =
    Send bool u64 u64 u64 u64
  | End_of_burst
  | Set_gain dbl

datatype tx_log =
    Tx_metadata bool bool
  | Tx_async tx_event
  | Tx_send_timeout
  | Tx_exception exc
  | Tx_fatal string

text \<open>\<open>tx_start\<close> is the start of the current burst, in samples since the epoch.\<close>

record tx_state =
  tx_run :: bool
  tx_samples_burst :: u64
  tx_burst_samples :: u64
  tx_start :: u64
  tx_gain :: dbl
  tx_cmds :: "tx_cmd list"
  tx_logs :: "tx_log list"

text \<open>
  What one turn meets: the device's time, the samples \<open>send\<close> takes, the messages pending
  afterwards, \<open>mute\<close> and \<open>run\<close> as read for the end-of-burst condition, the messages received
  while waiting for the acknowledgements, \<open>mute\<close> as read after them, and the messages received
  while muted.
\<close>

record tx_io =
  ti_full :: int
  ti_frac :: dbl
  ti_sent :: u64
  ti_events :: "tx_event list"
  ti_mute :: bool
  ti_run :: bool
  ti_acks :: "tx_event list"
  ti_still_mute :: bool
  ti_muted_events :: "tx_event list"

definition tx_say :: "tx_log list \<Rightarrow> tx_state \<Rightarrow> tx_state" where
  "tx_say l s = s\<lparr>tx_logs := tx_logs s @ l\<rparr>"

definition tx_do :: "tx_cmd \<Rightarrow> tx_state \<Rightarrow> tx_state" where
  "tx_do c s = s\<lparr>tx_cmds := tx_cmds s @ [c]\<rparr>"

text \<open>Start of burst, when nothing of a burst has been sent.\<close>

definition tx_open :: "u64 \<Rightarrow> u64 \<Rightarrow> tx_io \<Rightarrow> tx_state \<Rightarrow> tx_state res" where
  "tx_open rate_hz period io s =
     (if tx_samples_burst s = 0
      then case align_samples (ti_full io) (ti_frac io) BURST_DELAY (of_u64 rate_hz) period of
             Inl e \<Rightarrow> Inl e
           | Inr start \<Rightarrow> Inr (tx_say [Tx_metadata True False] (s\<lparr>tx_start := start\<rparr>))
      else Inr s)"

definition tx_send :: "u64 \<Rightarrow> tx_io \<Rightarrow> tx_state \<Rightarrow> tx_state" where
  "tx_send period io s =
     (let sob = (tx_samples_burst s = 0);
          s = tx_do (Send sob (tx_start s) (tx_samples_burst s) (tx_samples_burst s mod period) (ti_sent io)) s;
          s = s\<lparr>tx_samples_burst := tx_samples_burst s + ti_sent io\<rparr>
      in if ti_sent io = 0 then tx_say [Tx_send_timeout] s else s)"

text \<open>The messages after a \<open>send\<close>: every error resets the burst.\<close>

fun tx_event_step :: "tx_event \<Rightarrow> tx_state \<Rightarrow> tx_state" where
  "tx_event_step e s =
     (let s = tx_say [Tx_async e] s in
      case e of
        EVENT_CODE_BURST_ACK \<Rightarrow> s
      | EVENT_CODE_USER_PAYLOAD \<Rightarrow> s
      | _ \<Rightarrow> s\<lparr>tx_samples_burst := 0\<rparr>)"

definition tx_events :: "tx_io \<Rightarrow> tx_state \<Rightarrow> tx_state" where
  "tx_events io s =
     (let s = fold tx_event_step (ti_events io) s in s\<lparr>tx_burst_samples := tx_samples_burst s\<rparr>)"

text \<open>Waiting for the acknowledgements: the messages that are received, until none comes in time.\<close>

fun tx_wait_acks :: "nat \<Rightarrow> tx_event list \<Rightarrow> tx_event list" where
  "tx_wait_acks 0 es = []"
| "tx_wait_acks (Suc n) [] = []"
| "tx_wait_acks (Suc n) (e # es) =
     e # (if e = EVENT_CODE_BURST_ACK then tx_wait_acks n es else tx_wait_acks (Suc n) es)"

text \<open>End of burst on error, mute or termination, and the mute state.\<close>

definition tx_close :: "nat \<Rightarrow> bool \<Rightarrow> tx_io \<Rightarrow> tx_state \<Rightarrow> tx_state" where
  "tx_close num_channels bug_error_burst_ack io s =
     (let s = tx_say [Tx_metadata False True] (tx_do End_of_burst s);
          missing = (if tx_samples_burst s = 0 \<and> bug_error_burst_ack then 0 else num_channels);
          s = tx_say (map Tx_async (tx_wait_acks missing (ti_acks io))) s;
          s = s\<lparr>tx_samples_burst := 0, tx_burst_samples := 0\<rparr>
      in if ti_still_mute io
      then let gain = tx_gain s;
               s = tx_do (Set_gain (Fin 0)) (s\<lparr>tx_gain := Fin 0\<rparr>);
               s = tx_say (map Tx_async (ti_muted_events io)) s
           in tx_do (Set_gain gain) (s\<lparr>tx_gain := gain\<rparr>)
      else s)"

definition tx_turn :: "u64 \<Rightarrow> u64 \<Rightarrow> nat \<Rightarrow> bool \<Rightarrow> tx_io \<Rightarrow> tx_state \<Rightarrow> tx_state res" where
  "tx_turn rate_hz period num_channels bug io s =
     (case tx_open rate_hz period io s of
        Inl e \<Rightarrow> Inl e
      | Inr s \<Rightarrow>
          let s = tx_events io (tx_send period io s) in
          Inr (if tx_samples_burst s = 0 \<or> ti_mute io \<or> \<not> ti_run io
               then tx_close num_channels bug io s else s))"

text \<open>The loop over the turns made until \<open>run\<close> is read as false at its head.\<close>

fun tx_loop :: "u64 \<Rightarrow> u64 \<Rightarrow> nat \<Rightarrow> bool \<Rightarrow> tx_io list \<Rightarrow> tx_state \<Rightarrow> exc option \<times> tx_state" where
  "tx_loop rate_hz period num_channels bug [] s = (None, s)"
| "tx_loop rate_hz period num_channels bug (io # ios) s =
     (case tx_turn rate_hz period num_channels bug io s of
        Inl e \<Rightarrow> (Some e, s)
      | Inr s' \<Rightarrow> tx_loop rate_hz period num_channels bug ios s')"

text \<open>The handler of the thread.\<close>

definition tx_failed :: "exc \<Rightarrow> tx_state \<Rightarrow> tx_state" where
  "tx_failed e s =
     (tx_say [Tx_exception e, Tx_fatal ''Unrecoverable exception occurred in Tx thread. Thread terminated.''] s)
       \<lparr>tx_run := False\<rparr>"

text \<open>
  The whole thread: \<open>rate_hz\<close> is the sample rate converted to \<open>uint64_t\<close>; an exception is logged.
\<close>

definition tx_worker :: "int option \<Rightarrow> dbl \<Rightarrow> u64 \<Rightarrow> sample list \<Rightarrow> nat \<Rightarrow> string \<Rightarrow> tx_io list \<Rightarrow>
    tx_state \<Rightarrow> tx_state" where
  "tx_worker sched rate samps_per_frame sig num_channels mboard ios s =
     (let (r, s) = (case sched of
          Some errno \<Rightarrow> (Some (Syscall_error ''sched_setscheduler() failed'' errno), s)
        | None \<Rightarrow>
            (case to_u64 rate of
               None \<Rightarrow> (Some (Undefined ''sample_rate_hz does not fit uint64_t''), s)
             | Some rate_hz \<Rightarrow>
                 (case tx_sendbuf samps_per_frame sig of
                    Inl e \<Rightarrow> (Some e, s)
                  | Inr _ \<Rightarrow> tx_loop rate_hz (word_of_nat (length sig)) num_channels
                              (mboard \<noteq> [] \<and> hd mboard = CHR ''B'') ios s)))
      in case r of None \<Rightarrow> s\<lparr>tx_run := False\<rparr> | Some e \<Rightarrow> tx_failed e s)"

definition get_tx_seconds :: "dbl \<Rightarrow> tx_state \<Rightarrow> dbl" where
  "get_tx_seconds rate s = ddiv (of_u64 (tx_burst_samples s)) rate"

subsection \<open>Floating point in the alignment\<close>

lemma rne_nonneg: "0 \<le> x \<Longrightarrow> 0 \<le> rne x"
  by (auto simp: rne_def Let_def)

lemma rnd_nonneg: "0 \<le> x \<Longrightarrow> 0 \<le> rnd x"
  by (simp add: rnd_def rne_nonneg)

text \<open>Below \<open>2 ^ 53\<close> a rounding moves a value by at most one half.\<close>

lemma rnd_half:
  assumes "0 \<le> x" "x < 2 ^ 53"
  shows "\<bar>rnd x - x\<bar> \<le> 1 / 2"
proof (cases "x = 0")
  case False
  then have pos: "0 < \<bar>x\<bar>" by simp
  have "p2 (ilog2 \<bar>x\<bar>) < p2 53"
    using ilog2_bounds(1) [OF pos] assms by (simp add: p2_def)
  then have "quantum x \<le> 0"
    by (simp add: p2_less_iff quantum_def)
  then have "p2 (quantum x) \<le> p2 0"
    by (simp only: p2_le_iff)
  then have "p2 (quantum x) / 2 \<le> 1 / 2"
    by (simp add: p2_def)
  with rnd_err_quantum [OF False] show ?thesis by linarith
qed simp

lemma floor_rnd:
  assumes "0 \<le> x" "x < 2 ^ 53"
  obtains n where "to_u64 (mkd x) = Some (word_of_nat n)" "\<bar>of_nat n - x\<bar> < 2" "n < 2 ^ 54"
proof -
  note R = rnd_half [OF assms] rnd_nonneg [OF assms(1)]
  from R(1) have near: "x - 1 / 2 \<le> rnd x" "rnd x \<le> x + 1 / 2"
    unfolding abs_le_iff by linarith+
  have "\<bar>rnd x\<bar> < 2 ^ 54"
    using near(2) R(2) assms(2) by simp
  moreover have "p2 54 \<le> p2 1024"
    by (simp only: p2_le_iff)
  then have "(2 :: rat) ^ 54 \<le> p2 1024"
    by (simp add: p2_def)
  ultimately have fin: "mkd x = Fin (rnd x)"
    by (intro mkd_Fin_rnd) linarith
  define n where "n = nat \<lfloor>rnd x\<rfloor>"
  have n: "int n = \<lfloor>rnd x\<rfloor>"
    using R(2) by (simp add: n_def)
  have small: "\<lfloor>rnd x\<rfloor> < 2 ^ 54"
    using \<open>\<bar>rnd x\<bar> < 2 ^ 54\<close> by (simp add: floor_less_iff)
  have "of_nat n = (of_int \<lfloor>rnd x\<rfloor> :: rat)"
    by (simp flip: n)
  moreover have "of_int \<lfloor>rnd x\<rfloor> \<le> rnd x" "rnd x < of_int \<lfloor>rnd x\<rfloor> + 1"
    by (rule of_int_floor_le, rule floor_correct [THEN conjunct2, simplified])
  ultimately have "\<bar>of_nat n - x\<bar> < 2"
    using near unfolding abs_less_iff by linarith
  moreover have "to_u64 (mkd x) = Some (word_of_nat n)"
    using R(2) small n by (simp add: fin) (metis n of_int_of_nat_eq)
  moreover have "int n < 2 ^ 54"
    by (simp only: n small)
  then have "n < 2 ^ 54" by simp
  ultimately show thesis
    using that by blast
qed

lemma burst_delay: "BURST_DELAY = Fin (rnd (1 / 100))" "\<bar>rnd (1 / 100) - 1 / 100\<bar> \<le> ulp1"
proof -
  show "BURST_DELAY = Fin (rnd (1 / 100))"
    unfolding BURST_DELAY_def by (rule mkd_moderate) simp_all
  have "\<bar>rnd (1 / 100) - 1 / 100\<bar> \<le> \<bar>1 / 100\<bar> * p2 (- 53)"
    using p2_tiny [of "1 / 100"] by (intro rnd_rel) simp
  then show "\<bar>rnd (1 / 100) - 1 / 100\<bar> \<le> ulp1"
    by (simp add: ulp1_p2 ulp1_def)
qed

lemma of_u64_small: "unat R < 2 ^ 53 \<Longrightarrow> of_u64 R = Fin (of_nat (unat R))"
  by (simp add: of_u64_def mkd_moderate_nat del: of_nat_unat)

lemma to_u64_of_u64: "unat R < 2 ^ 53 \<Longrightarrow> to_u64 (of_u64 R) = Some R"
  using to_u64_nat [of "unat R"] by (simp add: of_u64_small)

lemma dsub_self_u64: "unat R < 2 ^ 53 \<Longrightarrow> deq (dsub (of_u64 R) (of_u64 R)) (Fin 0)"
  by (simp add: of_u64_small mkd_def deq_def not_le)

text \<open>Rounding up to a multiple.\<close>

lemma align_up_nat:
  fixes x :: nat
  assumes "0 < P"
  shows "x \<le> (x + P - 1) div P * P" "(x + P - 1) div P * P < x + P" "P dvd (x + P - 1) div P * P"
proof -
  define q where "q = (x + P - 1) div P"
  have eq: "P * q + (x + P - 1) mod P = x + P - 1"
    unfolding q_def by (rule mult_div_mod_eq)
  moreover have "(x + P - 1) mod P < P"
    using assms by simp
  ultimately have "x \<le> P * q \<and> P * q < x + P"
    using assms by linarith
  then show "x \<le> (x + P - 1) div P * P" "(x + P - 1) div P * P < x + P"
    by (simp_all add: q_def mult.commute)
qed simp

lemma align_up:
  fixes x period :: u64
  assumes "period \<noteq> 0" "unat x + unat period < 2 ^ 64"
  shows "unat ((x + period - 1) div period * period) = (unat x + unat period - 1) div unat period * unat period"
proof -
  have P: "0 < unat period"
    using assms(1) by (simp add: unat_gt_0)
  have sum: "unat (x + period) = unat x + unat period"
    using assms(2) by (rule unat_plus_u64)
  then have "1 \<le> x + period"
    using P by (simp add: word_le_nat_alt)
  then have "unat (x + period - 1) = unat x + unat period - 1"
    using sum by (simp add: unat_sub)
  then have d: "unat ((x + period - 1) div period) = (unat x + unat period - 1) div unat period"
    by (simp add: unat_div)
  moreover have "(unat x + unat period - 1) div unat period * unat period < 2 ^ 64"
    using align_up_nat(2) [OF P, of "unat x"] assms(2) by linarith
  ultimately show ?thesis
    by (simp add: unat_word_ariths)
qed

lemma align_samples_multiple:
  assumes "align_samples full fr d rate period = Inr A"
  shows "unat period dvd unat A" "period \<noteq> 0"
proof -
  obtain x where A: "A = x div period * period" and p: "period \<noteq> 0"
    using assms by (auto simp: align_samples_def Let_def split: option.splits if_splits)
  have "unat (x div period) * unat period \<le> unat x"
    by (simp add: unat_div)
  then have "unat (x div period) * unat period < 2 ^ 64"
    using u64_lt [of x] by (simp del: u64_lt)
  then have "unat A = unat (x div period) * unat period"
    by (simp add: A unat_word_ariths)
  then show "unat period dvd unat A" "period \<noteq> 0"
    using p by simp_all
qed

lemma align_samples_eq:
  assumes "R \<noteq> 0" "unat R < 2 ^ 53" "0 \<le> f" "f < 1" "period \<noteq> 0"
    and "full * unat R + unat period + 2 ^ 56 < 2 ^ 64"
  obtains x where "align_samples (int full) (Fin f) BURST_DELAY (of_u64 R) period =
      Inr (word_of_nat ((x + unat period - 1) div unat period * unat period))"
    "of_nat full * of_nat (unat R) + f * of_nat (unat R) + of_nat (unat R) / 100 - 5 < of_nat x"
    "of_nat x < of_nat full * of_nat (unat R) + f * of_nat (unat R) + of_nat (unat R) / 100 + (5 :: rat)"
    "(x + unat period - 1) div unat period * unat period < 2 ^ 64"
proof -
  let ?R = "of_nat (unat R) :: rat"
  have R53: "?R < 2 ^ 53"
    using assms(2) by (metis of_nat_less_iff of_nat_numeral of_nat_power)
  have fR: "0 \<le> f * ?R" "f * ?R < 2 ^ 53"
  proof -
    have "f * ?R \<le> 1 * ?R"
      using assms(4) by (intro mult_right_mono) (simp_all del: of_nat_unat)
    then show "f * ?R < 2 ^ 53" using R53 by (simp del: of_nat_unat)
  qed (use assms in \<open>simp del: of_nat_unat\<close>)
  obtain a where a: "to_u64 (mkd (f * ?R)) = Some (word_of_nat a)" "\<bar>of_nat a - f * ?R\<bar> < 2" "a < 2 ^ 54"
    by (rule floor_rnd [OF fR])
  define d where "d = rnd (1 / 100)"
  have d: "0 \<le> d" "d \<le> 1 / 50" "\<bar>d - 1 / 100\<bar> \<le> ulp1"
    using burst_delay(2) rnd_nonneg [of "1 / 100"] unfolding d_def ulp1_def abs_le_iff by linarith+
  have "?R * d \<le> ?R * 1"
    using d(2) by (intro mult_left_mono) (simp_all del: of_nat_unat)
  then have Rd: "0 \<le> ?R * d" "?R * d < 2 ^ 53"
    using R53 d(1) by (simp_all del: of_nat_unat)
  obtain b where b: "to_u64 (mkd (?R * d)) = Some (word_of_nat b)" "\<bar>of_nat b - ?R * d\<bar> < 2" "b < 2 ^ 54"
    by (rule floor_rnd [OF Rd])
  have "\<bar>?R * (d - 1 / 100)\<bar> \<le> 2 ^ 53 * ulp1"
    unfolding abs_mult using R53 d(3) by (intro mult_mono) (simp_all del: of_nat_unat)
  then have Rd': "\<bar>?R * d - ?R / 100\<bar> \<le> 1"
    by (simp add: ulp1_def right_diff_distrib del: of_nat_unat)
  define x where "x = full * unat R + a + b"
  have xP: "x + unat period < 2 ^ 64"
    using assms(6) a(3) b(3) by (simp add: x_def)
  have w: "word_of_int (int full) * R + word_of_nat a + word_of_nat b = (word_of_nat x :: u64)"
    by (simp add: x_def)
  have ux: "unat (word_of_nat x :: u64) = x"
    using xP by (intro unat_word_of_nat_u64) simp
  have P: "0 < unat period"
    using assms(5) by (simp add: unat_gt_0)
  have "align_samples (int full) (Fin f) BURST_DELAY (of_u64 R) period =
      Inr ((word_of_nat x + period - 1) div period * period)"
    using a(1) b(1) assms(5) w dsub_self_u64 [OF assms(2)] to_u64_of_u64 [OF assms(2)]
    by (simp add: align_samples_def burst_delay(1) of_u64_small [OF assms(2)] Let_def del: of_nat_unat flip: d_def)
  moreover have "(word_of_nat x + period - 1) div period * period =
      word_of_nat ((x + unat period - 1) div unat period * unat period)"
    using align_up [OF assms(5), of "word_of_nat x"] xP by (intro u64_of_nat) (simp only: ux)
  moreover have "of_nat x = of_nat full * ?R + of_nat a + (of_nat b :: rat)"
    by (simp add: x_def del: of_nat_unat)
  moreover have "(x + unat period - 1) div unat period * unat period < 2 ^ 64"
    using align_up_nat(2) [OF P, of x] xP by linarith
  ultimately show thesis
    using that [of x] a(2) b(2) Rd' by (simp add: abs_less_iff abs_le_iff del: of_nat_unat)
qed

subsection \<open>The burst protocol\<close>

text \<open>
  What a device that is told one command after the other must see: in a burst, the next samples
  continue where the last ones ended, with the start of the burst unchanged; a burst starts only
  when none is running, with the start-of-burst flag and at sample zero; it is ended before the
  next one starts and before the gain is changed. The state is the running burst, its start and
  the samples sent so far.
\<close>

fun tx_burst :: "(u64 \<times> u64) option \<Rightarrow> tx_cmd list \<Rightarrow> (u64 \<times> u64) option option" where
  "tx_burst b [] = Some b"
| "tx_burst None (Send sob start k off n # cs) =
     (if sob \<and> k = 0 then tx_burst (Some (start, n)) cs else None)"
| "tx_burst (Some (st, m)) (Send sob start k off n # cs) =
     (if \<not> sob \<and> start = st \<and> k = m then tx_burst (Some (st, m + n)) cs else None)"
| "tx_burst (Some _) (End_of_burst # cs) = tx_burst None cs"
| "tx_burst None (End_of_burst # cs) = None"
| "tx_burst None (Set_gain g # cs) = tx_burst None cs"
| "tx_burst (Some _) (Set_gain g # cs) = None"

lemma tx_burst_append: "tx_burst b (cs @ ds) = Option.bind (tx_burst b cs) (\<lambda>b. tx_burst b ds)"
  by (induction b cs rule: tx_burst.induct) simp_all

text \<open>The commands so far are accepted; a burst is running exactly if samples of it were sent.\<close>

definition tx_inv :: "u64 \<Rightarrow> tx_state \<Rightarrow> bool" where
  "tx_inv period s \<longleftrightarrow>
     tx_burst None (tx_cmds s) =
       Some (if tx_samples_burst s = 0 then None else Some (tx_start s, tx_samples_burst s)) \<and>
     (tx_samples_burst s \<noteq> 0 \<longrightarrow> unat period dvd unat (tx_start s)) \<and>
     (\<forall>sob start k off n. Send sob start k off n \<in> set (tx_cmds s) \<longrightarrow>
        off = k mod period \<and> unat period dvd unat start)"

lemma tx_say_fields [simp]:
  "tx_cmds (tx_say l s) = tx_cmds s" "tx_samples_burst (tx_say l s) = tx_samples_burst s"
  "tx_start (tx_say l s) = tx_start s" "tx_gain (tx_say l s) = tx_gain s" "tx_run (tx_say l s) = tx_run s"
  by (simp_all add: tx_say_def)

lemma tx_do_fields [simp]:
  "tx_cmds (tx_do c s) = tx_cmds s @ [c]" "tx_samples_burst (tx_do c s) = tx_samples_burst s"
  "tx_start (tx_do c s) = tx_start s" "tx_gain (tx_do c s) = tx_gain s" "tx_run (tx_do c s) = tx_run s"
  by (simp_all add: tx_do_def)

lemma tx_event_step_fields:
  "tx_cmds (tx_event_step e s) = tx_cmds s \<and> tx_start (tx_event_step e s) = tx_start s \<and>
   tx_gain (tx_event_step e s) = tx_gain s \<and>
   (tx_samples_burst (tx_event_step e s) = 0 \<or> tx_samples_burst (tx_event_step e s) = tx_samples_burst s)"
  by (cases e) simp_all

lemma tx_event_fold:
  "tx_cmds (fold tx_event_step es s) = tx_cmds s \<and> tx_start (fold tx_event_step es s) = tx_start s \<and>
   tx_gain (fold tx_event_step es s) = tx_gain s \<and>
   (tx_samples_burst (fold tx_event_step es s) = 0 \<or>
    tx_samples_burst (fold tx_event_step es s) = tx_samples_burst s)"
proof (induction es arbitrary: s)
  case (Cons e es)
  from Cons [of "tx_event_step e s"] tx_event_step_fields [of e s] show ?case
    by (simp del: tx_event_step.simps) metis
qed simp

lemma tx_events_fields:
  "tx_cmds (tx_events io s) = tx_cmds s" "tx_start (tx_events io s) = tx_start s"
  "tx_gain (tx_events io s) = tx_gain s"
  "tx_samples_burst (tx_events io s) = 0 \<or> tx_samples_burst (tx_events io s) = tx_samples_burst s"
  using tx_event_fold [of "ti_events io" s] by (simp_all add: tx_events_def Let_def)

text \<open>After the send of a turn a burst is running, with the samples counted.\<close>

lemma tx_send_burst:
  assumes inv: "tx_inv period s" and "tx_open rate_hz period io s = Inr s1" "s2 = tx_send period io s1"
  shows "tx_burst None (tx_cmds s2) = Some (Some (tx_start s2, tx_samples_burst s2))"
    "unat period dvd unat (tx_start s2)" "tx_gain s2 = tx_gain s"
    "\<forall>sob start k off n. Send sob start k off n \<in> set (tx_cmds s2) \<longrightarrow>
        off = k mod period \<and> unat period dvd unat start"
    "tx_samples_burst s2 = tx_samples_burst s + ti_sent io"
proof -
  have s1: "tx_cmds s1 = tx_cmds s" "tx_samples_burst s1 = tx_samples_burst s" "tx_gain s1 = tx_gain s"
    "tx_samples_burst s \<noteq> 0 \<longrightarrow> tx_start s1 = tx_start s" "unat period dvd unat (tx_start s1)"
    using assms(2) inv align_samples_multiple(1)
    by (auto simp: tx_open_def tx_inv_def split: if_splits sum.splits)
  have s2: "tx_cmds s2 = tx_cmds s @ [Send (tx_samples_burst s = 0) (tx_start s1) (tx_samples_burst s)
      (tx_samples_burst s mod period) (ti_sent io)]"
    "tx_samples_burst s2 = tx_samples_burst s + ti_sent io" "tx_start s2 = tx_start s1" "tx_gain s2 = tx_gain s"
    using s1 by (simp_all add: assms(3) tx_send_def Let_def)
  show "tx_burst None (tx_cmds s2) = Some (Some (tx_start s2, tx_samples_burst s2))"
    using inv s1 by (auto simp: s2 tx_burst_append tx_inv_def)
  show "unat period dvd unat (tx_start s2)" "tx_gain s2 = tx_gain s"
    "tx_samples_burst s2 = tx_samples_burst s + ti_sent io"
    using s1 by (simp_all add: s2)
  show "\<forall>sob start k off n. Send sob start k off n \<in> set (tx_cmds s2) \<longrightarrow>
        off = k mod period \<and> unat period dvd unat start"
    using inv s1(5) by (auto simp: s2 tx_inv_def)
qed

lemma tx_close_fields:
  "tx_cmds (tx_close nch bug io s) = tx_cmds s @ End_of_burst #
     (if ti_still_mute io then [Set_gain (Fin 0), Set_gain (tx_gain s)] else [])"
  "tx_samples_burst (tx_close nch bug io s) = 0" "tx_gain (tx_close nch bug io s) = tx_gain s"
  by (simp_all add: tx_close_def Let_def)

lemma tx_turn_inv:
  assumes inv: "tx_inv period s" and turn: "tx_turn rate_hz period nch bug io s = Inr s'"
  shows "tx_inv period s'" "tx_gain s' = tx_gain s"
proof -
  obtain s1 where s1: "tx_open rate_hz period io s = Inr s1"
    using turn by (auto simp: tx_turn_def split: sum.splits)
  define s2 where "s2 = tx_send period io s1"
  define s3 where "s3 = tx_events io s2"
  note S = tx_send_burst [OF inv s1 s2_def]
  note E = tx_events_fields [of io s2, folded s3_def]
  have s': "s' = (if tx_samples_burst s3 = 0 \<or> ti_mute io \<or> \<not> ti_run io then tx_close nch bug io s3 else s3)"
    using turn s1 by (auto simp: tx_turn_def Let_def s3_def s2_def)
  have "tx_inv period s' \<and> tx_gain s' = tx_gain s"
  proof (cases "tx_samples_burst s3 = 0 \<or> ti_mute io \<or> \<not> ti_run io")
    case True
    then have eq: "s' = tx_close nch bug io s3"
      using s' by simp
    have "tx_burst None (tx_cmds s') = Some None"
      using S(1) by (simp add: eq tx_close_fields tx_burst_append E)
    moreover have "Send sob start k off n \<in> set (tx_cmds s') \<Longrightarrow> Send sob start k off n \<in> set (tx_cmds s2)"
      for sob start k off n
      by (auto simp: eq tx_close_fields E split: if_splits)
    ultimately show ?thesis
      using S(3,4) by (auto simp: tx_inv_def eq tx_close_fields E)
  next
    case False
    then have "s' = s3" "tx_samples_burst s3 = tx_samples_burst s2" "tx_samples_burst s2 \<noteq> 0"
      using s' E(4) by auto
    then show ?thesis
      using S E(1-3) by (simp add: tx_inv_def)
  qed
  then show "tx_inv period s'" "tx_gain s' = tx_gain s" by simp_all
qed

lemma tx_loop_inv:
  "tx_inv period s \<Longrightarrow> tx_loop rate_hz period nch bug ios s = (r, s') \<Longrightarrow>
   tx_inv period s' \<and> tx_gain s' = tx_gain s"
proof (induction rate_hz period nch bug ios s rule: tx_loop.induct)
  case (2 rate_hz period nch bug io ios s)
  then show ?case
    using tx_turn_inv [of period s rate_hz nch bug io] by (auto split: sum.splits)
qed simp

lemma tx_loop_append:
  "tx_loop rate_hz period nch bug (ios @ [io]) s =
     (case tx_loop rate_hz period nch bug ios s of
        (Some e, t) \<Rightarrow> (Some e, t)
      | (None, t) \<Rightarrow> (case tx_turn rate_hz period nch bug io t of Inl e \<Rightarrow> (Some e, t) | Inr u \<Rightarrow> (None, u)))"
  by (induction rate_hz period nch bug ios s rule: tx_loop.induct) (simp_all split: sum.split)

subsection \<open>Files\<close>

lemma bytes_sample_bytes: "bytes_sample (sample_bytes x) = x"
proof -
  have "ucast (ucast w :: 8 word) OR push_bit 8 (ucast (ucast (drop_bit 8 w) :: 8 word)) = w" for w :: "16 word"
    by (rule bit_word_eqI) (auto simp: bit_simps)
  then show ?thesis
    by (simp add: bytes_sample_def sample_bytes_def)
qed

lemma block_samples_bytes:
  "k < length xs \<Longrightarrow> block (4 * k) 4 (samples_bytes xs) = sample_bytes (xs ! k)"
proof (induction xs arbitrary: k)
  case (Cons x xs)
  then show ?case
    by (cases k) (simp_all add: block_def)
qed simp

text \<open>The state the thread starts in.\<close>

definition tx_init :: "dbl \<Rightarrow> tx_state" where
  "tx_init gain = \<lparr>tx_run = True, tx_samples_burst = 0, tx_burst_samples = 0, tx_start = 0,
     tx_gain = gain, tx_cmds = [], tx_logs = []\<rparr>"

lemma tx_init_inv: "tx_inv period (tx_init gain)"
  by (simp add: tx_inv_def tx_init_def)

subsection \<open>Properties of the transmitter\<close>

text \<open>
  C18. A burst starts in time and on the grid: for a whole sample rate, the start of a burst is a
  multiple of the signal's period, at least ten milliseconds, less five samples, after the
  device's time and at most one period, plus five samples, later than that; in seconds and fraction it is
  handed over without loss.
\<close>

theorem tx_align_time:
  assumes "R \<noteq> 0" "unat R < 2 ^ 53" "0 \<le> f" "f < 1" "period \<noteq> 0"
    and "full * unat R + unat period + 2 ^ 56 < 2 ^ 64"
  shows "\<exists>A. align_samples (int full) (Fin f) BURST_DELAY (of_u64 R) period = Inr A \<and>
    unat period dvd unat A \<and>
    of_nat full + f + 1 / 100 - 5 / of_nat (unat R) < of_nat (unat A) / (of_nat (unat R) :: rat) \<and>
    of_nat (unat A) / of_nat (unat R) <
      of_nat full + f + 1 / 100 + (of_nat (unat period) + 5) / (of_nat (unat R) :: rat) \<and>
    align_time (int full) (Fin f) BURST_DELAY (of_u64 R) period =
      Inr (A div R, ddiv (of_u64 (A mod R)) (of_u64 R))"
proof -
  let ?r = "of_nat (unat R) :: rat" and ?P = "unat period"
  have r: "0 < ?r"
    using assms(1) by (simp add: unat_gt_0 del: of_nat_unat)
  have P: "0 < ?P"
    using assms(5) by (simp add: unat_gt_0)
  obtain x where x: "align_samples (int full) (Fin f) BURST_DELAY (of_u64 R) period =
      Inr (word_of_nat ((x + ?P - 1) div ?P * ?P))"
    "of_nat full * ?r + f * ?r + ?r / 100 - 5 < of_nat x"
    "of_nat x < of_nat full * ?r + f * ?r + ?r / 100 + 5"
    "(x + ?P - 1) div ?P * ?P < 2 ^ 64"
    by (rule align_samples_eq [OF assms])
  define A where "A = (word_of_nat ((x + ?P - 1) div ?P * ?P) :: u64)"
  have x1: "align_samples (int full) (Fin f) BURST_DELAY (of_u64 R) period = Inr A"
    unfolding A_def by (rule x(1))
  have A: "unat A = (x + ?P - 1) div ?P * ?P"
    unfolding A_def using x(4) by (rule unat_word_of_nat_u64)
  then have "x \<le> unat A" "unat A < x + ?P" "?P dvd unat A"
    using align_up_nat [OF P, of x] by simp_all
  then have lo: "(of_nat x :: rat) \<le> of_nat (unat A)" and hi: "(of_nat (unat A) :: rat) < of_nat x + of_nat ?P"
    by (simp_all only: of_nat_le_iff of_nat_less_iff flip: of_nat_add)
  have "(of_nat full + f + 1 / 100 - 5 / ?r) * ?r = of_nat full * ?r + f * ?r + ?r / 100 - 5"
    using r by (simp add: field_simps del: of_nat_unat)
  also have "\<dots> < of_nat (unat A)"
    using x(2) lo by linarith
  finally have "of_nat full + f + 1 / 100 - 5 / ?r < of_nat (unat A) / ?r"
    using r by (simp only: pos_less_divide_eq)
  moreover have "(of_nat full + f + 1 / 100 + (of_nat ?P + 5) / ?r) * ?r =
      of_nat full * ?r + f * ?r + ?r / 100 + (of_nat ?P + 5)"
    using r by (simp add: field_simps del: of_nat_unat)
  then have "of_nat (unat A) < (of_nat full + f + 1 / 100 + (of_nat ?P + 5) / ?r) * ?r"
    using x(3) hi by linarith
  then have "of_nat (unat A) / ?r < of_nat full + f + 1 / 100 + (of_nat ?P + 5) / ?r"
    using r by (simp only: pos_divide_less_eq)
  moreover have "align_time (int full) (Fin f) BURST_DELAY (of_u64 R) period =
      Inr (A div R, ddiv (of_u64 (A mod R)) (of_u64 R))"
    using assms(1) by (simp add: align_time_def x1 to_u64_of_u64 [OF assms(2)] Let_def)
  ultimately show ?thesis
    using x1 \<open>?P dvd unat A\<close> by blast
qed

text \<open>
  Fractional sample rates are not rejected: \<open>align_time\<close> throws on them, but the thread passes
  it the rate truncated to an integer, so the exception is unreachable and the bursts are aligned
  for a wrong rate.
\<close>

theorem tx_fractional_rate_accepted:
  assumes "to_u64 rate = Some rate_hz" "unat rate_hz < 2 ^ 53"
    and "\<not> deq (dsub rate (of_u64 rate_hz)) (Fin 0)"
  shows "align_samples full fr d rate period = Inl (Generic_error ''Non-integer sample rates are not implemented'') \<and>
    tx_open rate_hz period io s \<noteq> Inl (Generic_error ''Non-integer sample rates are not implemented'')"
proof
  show "align_samples full fr d rate period = Inl (Generic_error ''Non-integer sample rates are not implemented'')"
    using assms(1,3) by (simp add: align_samples_def)
  have "align_samples full fr d (of_u64 rate_hz) period \<noteq>
      Inl (Generic_error ''Non-integer sample rates are not implemented'')" for full fr d
    using to_u64_of_u64 [OF assms(2)] dsub_self_u64 [OF assms(2)]
    by (auto simp: align_samples_def Let_def split: option.splits)
  then show "tx_open rate_hz period io s \<noteq> Inl (Generic_error ''Non-integer sample rates are not implemented'')"
    by (auto simp: tx_open_def split: sum.splits)
qed

text \<open>
  C13. The device sees well-formed bursts: for all device times, partial sends, errors and mute and
  stop requests, the thread starts a burst only when none is running, continues it without gap,
  ends it before the next one and before it touches the gain, and leaves the gain as it was.
\<close>

theorem tx_protocol:
  assumes "tx_loop rate_hz period nch bug ios (tx_init gain) = (r, s)"
  shows "tx_burst None (tx_cmds s) =
      Some (if tx_samples_burst s = 0 then None else Some (tx_start s, tx_samples_burst s)) \<and>
    tx_gain s = gain"
  using tx_loop_inv [OF tx_init_inv assms] by (simp add: tx_inv_def tx_init_def)

text \<open>
  C6. Phase coherence: what the device takes in any \<open>send\<close> of any burst is the periodic signal at
  its place in absolute time: the \<open>i\<close>-th sample sent after \<open>k\<close> samples of a burst that starts at
  sample \<open>start\<close> of the epoch is the signal's sample \<open>start + k + i\<close> modulo the period, and all
  reads stay inside the buffer, however many bursts, errors and mutes came before.
\<close>

theorem tx_phase_coherent:
  assumes "tx_sendbuf samps sig = Inr buf" "length sig < 2 ^ 62" "unat (FRAMES_PER_SEND * samps) < 2 ^ 62"
    and "tx_loop rate_hz (word_of_nat (length sig)) nch bug ios (tx_init gain) = (r, s)"
    and "Send sob start k off n \<in> set (tx_cmds s)" "i < unat (FRAMES_PER_SEND * samps)"
  shows "unat off + i < length buf \<and> buf ! (unat off + i) = sig ! ((unat start + unat k + i) mod length sig)"
proof -
  let ?L = "length sig"
  have L: "unat (word_of_nat ?L :: u64) = ?L"
    using assms(2) by (intro unat_word_of_nat_u64) simp
  have "tx_inv (word_of_nat ?L) s"
    using tx_loop_inv [OF tx_init_inv assms(4)] by simp
  then have "off = k mod word_of_nat ?L \<and> unat (word_of_nat ?L :: u64) dvd unat start"
    using assms(5) unfolding tx_inv_def by blast
  then have off: "off = k mod word_of_nat ?L" and start: "?L dvd unat start"
    by (simp_all only: L)
  have len: "unat (FRAMES_PER_SEND * samps + word_of_nat ?L) = unat (FRAMES_PER_SEND * samps) + ?L"
    using assms(2,3) by (intro unat_plus_nat_u64) simp
  have ne: "?L \<noteq> 0"
    using assms(1,6) len by (auto simp: tx_sendbuf_def Let_def split: if_splits)
  then have buf: "buf = map (\<lambda>n. sig ! (n mod ?L)) [0..<unat (FRAMES_PER_SEND * samps) + ?L]"
    using assms(1) len by (simp add: tx_sendbuf_def Let_def split: if_splits)
  have uo: "unat off = unat k mod ?L"
    by (simp add: off unat_mod L)
  then have "unat off < ?L"
    using ne by simp
  then have fits: "unat off + i < unat (FRAMES_PER_SEND * samps) + ?L"
    using assms(6) by simp
  obtain q where "unat start = ?L * q"
    using start by auto
  then have "(unat start + unat k + i) mod ?L = (unat off + i) mod ?L"
    by (simp add: uo mod_simps add.assoc)
  with fits show ?thesis
    by (simp add: buf)
qed

text \<open>
  Orderly stop: if the last turn of the loop sees a stop request, a mute request or an error,
  no burst is running when the loop ends.
\<close>

theorem tx_stops_closed:
  assumes "tx_loop rate_hz period nch bug (ios @ [io]) (tx_init gain) = (None, s)"
    and "\<not> ti_run io \<or> ti_mute io"
  shows "tx_burst None (tx_cmds s) = Some None"
proof -
  obtain t where t: "tx_loop rate_hz period nch bug ios (tx_init gain) = (None, t)"
    "tx_turn rate_hz period nch bug io t = Inr s"
    using assms(1) by (auto simp: tx_loop_append split: prod.splits option.splits sum.splits)
  have "tx_samples_burst s = 0"
    using t(2) assms(2) by (auto simp: tx_turn_def Let_def tx_close_fields split: sum.splits)
  then show ?thesis
    using tx_loop_inv [OF tx_init_inv assms(1)] by (simp add: tx_inv_def)
qed

text \<open>
  A stop request can leave a burst open: if \<open>run\<close> is cleared after the end-of-burst condition
  has read it and before the loop reads it again, the thread ends without an end of burst.
\<close>

theorem tx_stop_race:
  assumes "align_samples (ti_full io) (ti_frac io) BURST_DELAY (of_u64 rate_hz) period = Inr start"
    and "ti_sent io \<noteq> 0" "ti_events io = []" "\<not> ti_mute io" "ti_run io"
  shows "\<exists>s. tx_loop rate_hz period nch bug [io] (tx_init gain) = (None, s) \<and>
    tx_burst None (tx_cmds s) = Some (Some (start, ti_sent io))"
  using assms
  by (simp add: tx_turn_def tx_open_def tx_send_def tx_events_def tx_init_def tx_say_def tx_do_def Let_def)

text \<open>
  A recording can be transmitted: loading the bytes of a recorded file yields its samples.
\<close>

theorem tx_load_recording:
  "tx_load name (length (samples_bytes xs)) (Some (samples_bytes xs)) = Inr xs"
proof -
  have "map (\<lambda>k. bytes_sample (block (4 * k) 4 (samples_bytes xs))) [0..<length xs] = xs"
    by (rule nth_equalityI) (simp_all add: block_samples_bytes bytes_sample_bytes)
  then show ?thesis
    by (simp add: tx_load_def)
qed

subsection \<open>Concrete transmissions\<close>

text \<open>A signal of three samples, frames of one sample, ten samples per second.\<close>

definition demo_sig :: "sample list" where
  "demo_sig = [(1, 2), (3, 4), (5, 6)]"

definition demo_tx_io :: tx_io where
  "demo_tx_io = \<lparr>ti_full = 5, ti_frac = Fin (1 / 4), ti_sent = 128, ti_events = [], ti_mute = False,
     ti_run = True, ti_acks = [], ti_still_mute = False, ti_muted_events = []\<rparr>"

lemma demo_align:
  "\<exists>A. align_samples 5 (Fin (1 / 4)) BURST_DELAY (of_u64 10) 3 = Inr A"
  using align_samples_eq [of 10 "1 / 4" 3 5] by (auto simp: unat_arith_simps)

lemma demo_loop: "\<exists>s start. tx_loop 10 3 1 False [demo_tx_io] (tx_init (Fin 20)) = (None, s) \<and>
    Send True start 0 0 128 \<in> set (tx_cmds s)"
proof -
  obtain A where A: "align_samples 5 (Fin (1 / 4)) BURST_DELAY (of_u64 10) 3 = Inr A"
    using demo_align by blast
  then show ?thesis
    by (simp add: tx_turn_def tx_open_def tx_send_def tx_events_def tx_init_def tx_say_def tx_do_def
        demo_tx_io_def Let_def)
qed

lemma demo_loop_stop: "\<exists>s. tx_loop 10 3 1 False ([] @ [demo_tx_io\<lparr>ti_run := False\<rparr>]) (tx_init (Fin 20)) = (None, s)"
proof -
  obtain A where A: "align_samples 5 (Fin (1 / 4)) BURST_DELAY (of_u64 10) 3 = Inr A"
    using demo_align by blast
  then show ?thesis
    by (simp add: tx_turn_def tx_open_def tx_send_def tx_events_def tx_init_def tx_say_def tx_do_def
        demo_tx_io_def Let_def)
qed

theorem tx_align_time_witness:
  "\<exists>A. align_samples (int 5) (Fin (1 / 4)) BURST_DELAY (of_u64 10) 3 = Inr A \<and> 3 dvd unat A"
  using tx_align_time [of 10 "1 / 4" 3 5] by auto

theorem tx_fractional_rate_accepted_witness:
  "align_samples 5 (Fin 0) (Fin 0) (Fin (21 / 2)) 3 =
     Inl (Generic_error ''Non-integer sample rates are not implemented'')"
proof -
  have "\<lfloor>21 / 2 :: rat\<rfloor> = 10"
    by (rule floor_unique) simp_all
  then have to: "to_u64 (Fin (21 / 2)) = Some 10"
    by simp
  have "of_u64 10 = Fin 10"
    using of_u64_small [of 10] by simp
  moreover have "mkd (1 / 2) = Fin (1 / 2)"
    by (rule mkd_small, rule rnd_exact [where m = 1 and k = "- 1"]) (simp_all add: p2_def)
  ultimately have "\<not> deq (dsub (Fin (21 / 2)) (of_u64 10)) (Fin 0)"
    by (simp add: deq_def)
  with tx_fractional_rate_accepted [OF to] show ?thesis
    by simp
qed

theorem tx_protocol_witness:
  "\<exists>s. tx_loop 10 3 1 False [demo_tx_io] (tx_init (Fin 20)) = (None, s) \<and> tx_gain s = Fin 20"
  using demo_loop tx_protocol by blast

theorem tx_phase_coherent_witness:
  "\<exists>buf. tx_sendbuf 1 demo_sig = Inr buf \<and> buf ! 4 = (3, 4)"
proof -
  obtain buf where buf: "tx_sendbuf 1 demo_sig = Inr buf"
    by (simp add: tx_sendbuf_def demo_sig_def Let_def)
  obtain s start where s: "tx_loop 10 3 1 False [demo_tx_io] (tx_init (Fin 20)) = (None, s)"
    "Send True start 0 0 128 \<in> set (tx_cmds s)"
    using demo_loop by blast
  have "tx_inv 3 s"
    using tx_loop_inv [OF tx_init_inv s(1)] by simp
  then have "unat (3 :: u64) dvd unat start"
    using s(2) unfolding tx_inv_def by blast
  then have "(unat start + 4) mod 3 = 1"
    by (auto elim!: dvdE)
  with tx_phase_coherent [OF buf _ _ _ s(2), of 10 1 False "[demo_tx_io]" "Fin 20" None 4] s(1) buf
  show ?thesis
    by (auto simp: demo_sig_def FRAMES_PER_SEND_def)
qed

theorem tx_stops_closed_witness:
  "\<exists>s. tx_loop 10 3 1 False ([] @ [demo_tx_io\<lparr>ti_run := False\<rparr>]) (tx_init (Fin 20)) = (None, s) \<and>
     tx_burst None (tx_cmds s) = Some None"
proof -
  obtain s where s: "tx_loop 10 3 1 False ([] @ [demo_tx_io\<lparr>ti_run := False\<rparr>]) (tx_init (Fin 20)) = (None, s)"
    using demo_loop_stop by blast
  with tx_stops_closed [OF s] show ?thesis by simp
qed

theorem tx_stop_race_witness:
  "\<exists>s start. tx_loop 10 3 1 False [demo_tx_io] (tx_init (Fin 20)) = (None, s) \<and>
     tx_burst None (tx_cmds s) = Some (Some (start, 128))"
proof -
  obtain A where A: "align_samples (ti_full demo_tx_io) (ti_frac demo_tx_io) BURST_DELAY (of_u64 10) 3 = Inr A"
    using demo_align by (auto simp: demo_tx_io_def)
  from tx_stop_race [OF A, of 1 False "Fin 20"] show ?thesis
    by (auto simp: demo_tx_io_def)
qed

end
