(* ===== verification/Json.thy ===== *)
theory Json
  imports Text Doubles "HOL-Library.Code_Target_Numeral"
begin

text \<open>
  The JSON values and their serialization of \<^verbatim>\<open>src/json.hpp\<close>, used for the log file and the MQTT
  messages. The type follows the variant \<open>json_t\<close>, the functions follow the visitor. The
  specification is a reader of the JSON grammar (RFC 8259) that returns strings unescaped and
  numbers as their text; the main theorem is that it reads back what \<open>dump\<close> writes.
\<close>

subsection \<open>Values\<close>

text \<open>\<open>int64_t\<close> is the word read by \<open>sint\<close>.\<close>

datatype json =
    JNull
  | JString string
  | JUint u64
  | JInt u64
  | JDouble dbl
  | JBool bool
  | JArray "json list"
  | JObject "(string \<times> json) list"

subsection \<open>Printing a double\<close>

text \<open>
  \<open>operator<<(double)\<close> with the default format and a precision \<open>p\<close>: \<^verbatim>\<open>%.<p>g\<close>. \<open>p10\<close> is a power
  of ten, \<open>ilog10\<close> the decimal exponent of a positive rational.
\<close>

definition p10 :: "int \<Rightarrow> rat" where
  "p10 k = (if 0 \<le> k then 10 ^ nat k else 1 / 10 ^ nat (- k))"

definition ilog10 :: "rat \<Rightarrow> int" where
  "ilog10 x = (let (n, d) = quotient_of x;
                   k = int (length (show_nat (nat n))) - int (length (show_nat (nat d)))
               in if p10 k \<le> x then k else k - 1)"

text \<open>The \<open>p\<close> digits and the exponent of the rounded value.\<close>

definition g_digits :: "nat \<Rightarrow> rat \<Rightarrow> string \<times> int" where
  "g_digits p x =
     (let e = ilog10 x; m = nat (rne (x / p10 (e - int p + 1)))
      in if m = 10 ^ p then (show_nat (10 ^ (p - 1)), e + 1) else (show_nat m, e))"

definition strip_zeros :: "string \<Rightarrow> string" where
  "strip_zeros s = rev (dropWhile (\<lambda>c. c = CHR ''0'') (rev s))"

text \<open>A number with its fraction, without trailing zeros and without a lone point.\<close>

definition with_fraction :: "string \<Rightarrow> string \<Rightarrow> string" where
  "with_fraction whole fract = (let f = strip_zeros fract in if f = [] then whole else whole @ ''.'' @ f)"

definition exponent_text :: "int \<Rightarrow> string" where
  "exponent_text e =
     (let s = show_nat (nat \<bar>e\<bar>)
      in (if e < 0 then ''-'' else ''+'') @ (if length s < 2 then ''0'' @ s else s))"

definition show_pos :: "nat \<Rightarrow> rat \<Rightarrow> string" where
  "show_pos p x =
     (let (ds, e) = g_digits p x in
      if e < - 4 \<or> int p \<le> e then with_fraction (take 1 ds) (drop 1 ds) @ ''e'' @ exponent_text e
      else if e < 0 then with_fraction ''0'' (replicate (nat (- e) - 1) CHR ''0'' @ ds)
      else with_fraction (take (nat e + 1) ds) (drop (nat e + 1) ds))"

fun show_double :: "nat \<Rightarrow> dbl \<Rightarrow> string" where
  "show_double p (Fin x) =
     (if x = 0 then ''0'' else if x < 0 then ''-'' @ show_pos p (- x) else show_pos p x)"
| "show_double p (Inf neg) = (if neg then ''-inf'' else ''inf'')"
| "show_double p NaN = ''nan''"

subsection \<open>Serialization\<close>

definition hex_digit :: "nat \<Rightarrow> char" where
  "hex_digit n = (if n < 10 then digit n else char_of (87 + n))"

text \<open>One character of \<open>escape_string\<close>; the characters \<open>22\<close> and \<open>5c\<close> are quote and backslash.\<close>

definition escape_char :: "char \<Rightarrow> string" where
  "escape_char c =
     (let n = of_char c :: nat in
      if n = 8 then [CHR 0x5c, CHR ''b'']
      else if n = 9 then [CHR 0x5c, CHR ''t'']
      else if n = 10 then [CHR 0x5c, CHR ''n'']
      else if n = 12 then [CHR 0x5c, CHR ''f'']
      else if n = 13 then [CHR 0x5c, CHR ''r'']
      else if n < 32 then [CHR 0x5c, CHR ''u'', CHR ''0'', CHR ''0'', hex_digit (n div 16), hex_digit (n mod 16)]
      else if n = 34 then [CHR 0x5c, CHR 0x22]
      else if n = 92 then [CHR 0x5c, CHR 0x5c]
      else [c])"

definition escape_string :: "string \<Rightarrow> string" where
  "escape_string s = CHR 0x22 # concat (map escape_char s) @ [CHR 0x22]"

text \<open>The elements of an array or object with the separator between them.\<close>

fun commas :: "string list \<Rightarrow> string" where
  "commas [] = []"
| "commas (x # xs) = x @ concat (map (\<lambda>y. '', '' @ y) xs)"

fun dump :: "json \<Rightarrow> string" where
  "dump JNull = ''null''"
| "dump (JString s) = escape_string s"
| "dump (JUint w) = show_nat (unat w)"
| "dump (JInt w) = show_int (sint w)"
| "dump (JDouble d) = show_double 15 d"
| "dump (JBool b) = (if b then ''true'' else ''false'')"
| "dump (JArray xs) = ''['' @ commas (map dump xs) @ '']''"
| "dump (JObject kvs) =
     ''{'' @ commas (map (\<lambda>kv. escape_string (fst kv) @ '': '' @ dump (snd kv)) kvs) @ ''}''"

subsection \<open>The JSON grammar\<close>

text \<open>
  What a reader of RFC 8259 makes of a text: strings are unescaped, numbers are kept as text once
  they match the grammar.
\<close>

datatype jv =
    VNull
  | VString string
  | VNumber string
  | VBool bool
  | VArray "jv list"
  | VObject "(string \<times> jv) list"

definition hex_val :: "char \<Rightarrow> nat option" where
  "hex_val c = (let n = of_char c :: nat in
     if 48 \<le> n \<and> n \<le> 57 then Some (n - 48)
     else if 97 \<le> n \<and> n \<le> 102 then Some (n - 87)
     else if 65 \<le> n \<and> n \<le> 70 then Some (n - 55) else None)"

text \<open>One escape sequence after the backslash; code points above \<open>ff\<close> are left out.\<close>

definition unescape :: "string \<Rightarrow> (char \<times> string) option" where
  "unescape s =
     (case s of
        [] \<Rightarrow> None
      | c # t \<Rightarrow>
          if c = CHR 0x22 \<or> c = CHR 0x5c \<or> c = CHR ''/'' then Some (c, t)
          else if c = CHR ''b'' then Some (char_of (8 :: nat), t)
          else if c = CHR ''t'' then Some (char_of (9 :: nat), t)
          else if c = CHR ''n'' then Some (char_of (10 :: nat), t)
          else if c = CHR ''f'' then Some (char_of (12 :: nat), t)
          else if c = CHR ''r'' then Some (char_of (13 :: nat), t)
          else if c = CHR ''u'' then
            (case t of
               a # b # x # y # u \<Rightarrow>
                 (case (hex_val a, hex_val b, hex_val x, hex_val y) of
                    (Some 0, Some 0, Some m, Some n) \<Rightarrow> Some (char_of (16 * m + n), u)
                  | _ \<Rightarrow> None)
             | _ \<Rightarrow> None)
          else None)"

lemma unescape_length: "unescape s = Some (c, t) \<Longrightarrow> length t < length s"
  by (auto simp: unescape_def split: list.splits if_splits option.splits nat.splits)

function parse_chars :: "string \<Rightarrow> (string \<times> string) option" where
  "parse_chars s =
     (case s of
        [] \<Rightarrow> None
      | c # t \<Rightarrow>
          if c = CHR 0x22 then Some ([], t)
          else if c = CHR 0x5c
          then (case unescape t of
                  None \<Rightarrow> None
                | Some (d, u) \<Rightarrow> map_option (\<lambda>(ds, v). (d # ds, v)) (parse_chars u))
          else if (of_char c :: nat) < 32 then None
          else map_option (\<lambda>(ds, v). (c # ds, v)) (parse_chars t))"
  by pat_completeness auto
termination
  by (relation "measure length") (auto dest: unescape_length)

declare parse_chars.simps [simp del]

definition num_char :: "char \<Rightarrow> bool" where
  "num_char c \<longleftrightarrow> is_digit c \<or> c \<in> {CHR ''-'', CHR ''+'', CHR ''.'', CHR ''e'', CHR ''E''}"

text \<open>Digits, then what follows them.\<close>

definition digits_of :: "string \<Rightarrow> string \<times> string" where
  "digits_of s = (takeWhile is_digit s, dropWhile is_digit s)"

definition exponent_ok :: "string \<Rightarrow> bool" where
  "exponent_ok s =
     (case s of
        [] \<Rightarrow> True
      | c # t \<Rightarrow> c \<in> {CHR ''e'', CHR ''E''} \<and>
          (let u = (case t of [] \<Rightarrow> [] | d # u \<Rightarrow> if d \<in> {CHR ''+'', CHR ''-''} then u else t)
           in u \<noteq> [] \<and> list_all is_digit u))"

definition fraction_ok :: "string \<Rightarrow> bool" where
  "fraction_ok s =
     (case s of
        [] \<Rightarrow> True
      | c # t \<Rightarrow> if c = CHR ''.'' then fst (digits_of t) \<noteq> [] \<and> exponent_ok (snd (digits_of t))
                 else exponent_ok s)"

definition json_number :: "string \<Rightarrow> bool" where
  "json_number s =
     (let t = (case s of [] \<Rightarrow> [] | c # t \<Rightarrow> if c = CHR ''-'' then t else s);
          (whole, rest) = digits_of t
      in whole \<noteq> [] \<and> (hd whole = CHR ''0'' \<longrightarrow> length whole = 1) \<and> fraction_ok rest)"

definition skip_ws :: "string \<Rightarrow> string" where
  "skip_ws s = dropWhile (\<lambda>c. c \<in> {CHR '' '', CHR 0x09, CHR 0x0a, CHR 0x0d}) s"

text \<open>The reader; the fuel bounds the nesting and the number of elements.\<close>

fun parse_value :: "nat \<Rightarrow> string \<Rightarrow> (jv \<times> string) option"
  and parse_items :: "nat \<Rightarrow> string \<Rightarrow> (jv list \<times> string) option"
  and parse_members :: "nat \<Rightarrow> string \<Rightarrow> ((string \<times> jv) list \<times> string) option" where
  "parse_value 0 s = None"
| "parse_value (Suc n) s =
     (case skip_ws s of
        [] \<Rightarrow> None
      | c # t \<Rightarrow>
          if c = CHR 0x22 then map_option (\<lambda>(ds, u). (VString ds, u)) (parse_chars t)
          else if c = CHR ''['' then
            (case skip_ws t of
               [] \<Rightarrow> None
             | d # u \<Rightarrow> if d = CHR '']'' then Some (VArray [], u)
                        else map_option (\<lambda>(vs, w). (VArray vs, w)) (parse_items n t))
          else if c = CHR ''{'' then
            (case skip_ws t of
               [] \<Rightarrow> None
             | d # u \<Rightarrow> if d = CHR ''}'' then Some (VObject [], u)
                        else map_option (\<lambda>(vs, w). (VObject vs, w)) (parse_members n t))
          else if take 4 (c # t) = ''null'' then Some (VNull, drop 4 (c # t))
          else if take 4 (c # t) = ''true'' then Some (VBool True, drop 4 (c # t))
          else if take 5 (c # t) = ''false'' then Some (VBool False, drop 5 (c # t))
          else let tok = takeWhile num_char (c # t)
               in if json_number tok then Some (VNumber tok, dropWhile num_char (c # t)) else None)"
| "parse_items 0 s = None"
| "parse_items (Suc n) s =
     (case parse_value n s of
        None \<Rightarrow> None
      | Some (v, t) \<Rightarrow>
          (case skip_ws t of
             [] \<Rightarrow> None
           | c # u \<Rightarrow>
               if c = CHR '','' then map_option (\<lambda>(vs, w). (v # vs, w)) (parse_items n u)
               else if c = CHR '']'' then Some ([v], u) else None))"
| "parse_members 0 s = None"
| "parse_members (Suc n) s =
     (case skip_ws s of
        [] \<Rightarrow> None
      | q # r \<Rightarrow> if q \<noteq> CHR 0x22 then None else
          (case parse_chars r of
             None \<Rightarrow> None
           | Some (k, t) \<Rightarrow>
               (case skip_ws t of
                  [] \<Rightarrow> None
                | d # u \<Rightarrow> if d \<noteq> CHR '':'' then None else
                    (case parse_value n u of
                       None \<Rightarrow> None
                     | Some (v, w) \<Rightarrow>
                         (case skip_ws w of
                            [] \<Rightarrow> None
                          | c # x \<Rightarrow>
                              if c = CHR '','' then map_option (\<lambda>(vs, y). ((k, v) # vs, y)) (parse_members n x)
                              else if c = CHR ''}'' then Some ([(k, v)], x) else None)))))"

text \<open>What a value of the program is in the grammar, and the values that have a text in it.\<close>

fun json_view :: "json \<Rightarrow> jv" where
  "json_view JNull = VNull"
| "json_view (JString s) = VString s"
| "json_view (JUint w) = VNumber (show_nat (unat w))"
| "json_view (JInt w) = VNumber (show_int (sint w))"
| "json_view (JDouble d) = VNumber (show_double 15 d)"
| "json_view (JBool b) = VBool b"
| "json_view (JArray xs) = VArray (map json_view xs)"
| "json_view (JObject kvs) = VObject (map (\<lambda>kv. (fst kv, json_view (snd kv))) kvs)"

fun json_finite :: "json \<Rightarrow> bool" where
  "json_finite (JDouble d) = (case d of Fin _ \<Rightarrow> True | _ \<Rightarrow> False)"
| "json_finite (JArray xs) = list_all json_finite xs"
| "json_finite (JObject kvs) = list_all (\<lambda>kv. json_finite (snd kv)) kvs"
| "json_finite _ = True"

subsection \<open>Strings are read back\<close>

lemma hex_val_digit [simp]: "k < 16 \<Longrightarrow> hex_val (hex_digit k) = Some k"
  by (auto simp: hex_val_def hex_digit_def)

lemma parse_chars_simps:
  "parse_chars (CHR 0x22 # t) = Some ([], t)"
  "parse_chars (CHR 0x5c # t) = (case unescape t of None \<Rightarrow> None
     | Some (d, u) \<Rightarrow> map_option (\<lambda>(ds, v). (d # ds, v)) (parse_chars u))"
  "c \<noteq> CHR 0x22 \<Longrightarrow> c \<noteq> CHR 0x5c \<Longrightarrow> \<not> (of_char c :: nat) < 32 \<Longrightarrow>
     parse_chars (c # t) = map_option (\<lambda>(ds, v). (c # ds, v)) (parse_chars t)"
  by (simp_all add: parse_chars.simps [of "_ # _"])

lemma char_of_eq: "(of_char c :: nat) = n \<Longrightarrow> c = char_of n"
  by auto

lemma unescape_control:
  "n < 32 \<Longrightarrow> unescape (CHR ''u'' # CHR ''0'' # CHR ''0'' # hex_digit (n div 16) # hex_digit (n mod 16) # t) =
     Some (char_of n, t)"
proof -
  assume n: "n < 32"
  have "hex_val CHR ''0'' = Some 0"
    by (simp add: hex_val_def)
  moreover have "n div 16 < 16"
    using n by (simp add: less_mult_imp_div_less)
  moreover have "16 * (n div 16) + n mod 16 = n"
    by (rule mult_div_mod_eq)
  ultimately show ?thesis
    by (simp add: unescape_def)
qed

lemma parse_escape_char:
  "parse_chars (escape_char c @ t) = map_option (\<lambda>(ds, v). (c # ds, v)) (parse_chars t)"
proof -
  define n where "n = (of_char c :: nat)"
  have c: "c = char_of n"
    by (simp add: n_def)
  consider "n \<in> {8, 9, 10, 12, 13, 34, 92}" | "n \<notin> {8, 9, 10, 12, 13, 34, 92}" "n < 32"
    | "n \<notin> {8, 9, 10, 12, 13, 34, 92}" "\<not> n < 32"
    by blast
  then show ?thesis
  proof cases
    case 1
    have "char_of (34 :: nat) = CHR 0x22" "char_of (92 :: nat) = CHR 0x5C"
      by (rule char_of_eq [symmetric], simp)+
    with 1 show ?thesis
      by (auto simp: escape_char_def Let_def parse_chars_simps unescape_def c simp flip: n_def)
  next
    case 2
    then show ?thesis
      by (simp add: escape_char_def Let_def parse_chars_simps unescape_control flip: n_def) (simp add: c)
  next
    case 3
    have "(of_char (CHR 0x22) :: nat) = 34" "(of_char (CHR 0x5C) :: nat) = 92"
      by simp_all
    then have "c \<noteq> CHR 0x22" "c \<noteq> CHR 0x5C"
      using 3 by (auto simp: n_def)
    with 3 show ?thesis
      by (simp add: escape_char_def Let_def parse_chars_simps flip: n_def)
  qed
qed

lemma parse_escape:
  "parse_chars (concat (map escape_char s) @ CHR 0x22 # rest) = Some (s, rest)"
  by (induction s) (simp_all add: parse_chars_simps parse_escape_char)

subsection \<open>Numbers are read back\<close>

lemma takeWhile_append_all:
  "list_all P xs \<Longrightarrow> (ys = [] \<or> \<not> P (hd ys)) \<Longrightarrow> takeWhile P (xs @ ys) = xs \<and> dropWhile P (xs @ ys) = ys"
proof (induction xs)
  case Nil
  then show ?case by (cases ys) auto
qed auto

lemma digits_of_append:
  "list_all is_digit ds \<Longrightarrow> (t = [] \<or> \<not> is_digit (hd t)) \<Longrightarrow> digits_of (ds @ t) = (ds, t)"
  by (simp add: digits_of_def takeWhile_append_all)

lemma show_nat_all: "list_all is_digit (show_nat n)"
  using show_nat_digits by (auto simp: list_all_iff)

lemma show_nat_lead: "hd (show_nat n) = CHR ''0'' \<Longrightarrow> length (show_nat n) = 1"
proof -
  have "CHR ''0'' = digit 0"
    unfolding digit_def by (rule char_of_eq) simp
  then show "hd (show_nat n) = CHR ''0'' \<Longrightarrow> length (show_nat n) = 1"
    using hd_show_nat [of n] by (simp add: show_nat.simps [of 0])
qed

lemma number_whole:
  assumes "list_all is_digit ds" "ds \<noteq> []" "hd ds = CHR ''0'' \<Longrightarrow> length ds = 1"
    and "rest = [] \<or> \<not> is_digit (hd rest)" "fraction_ok rest"
  shows "json_number (ds @ rest)" "json_number (CHR ''-'' # ds @ rest)"
proof -
  have "hd ds \<noteq> CHR ''-''"
    using assms(1,2) by (cases ds) auto
  then have "(case ds @ rest of [] \<Rightarrow> [] | c # t \<Rightarrow> if c = CHR ''-'' then t else ds @ rest) = ds @ rest"
    using assms(2) by (cases ds) auto
  then show "json_number (ds @ rest)" "json_number (CHR ''-'' # ds @ rest)"
    using assms digits_of_append [OF assms(1,4)] by (simp_all add: json_number_def)
qed

lemma number_nat: "json_number (show_nat n)"
  using number_whole(1) [OF show_nat_all show_nat_nonempty show_nat_lead, where rest = "[]"] by (simp add: fraction_ok_def)

lemma number_int: "json_number (show_int i)"
  using number_nat number_whole(2) [OF show_nat_all show_nat_nonempty show_nat_lead, where rest = "[]"]
  by (simp add: show_int_def fraction_ok_def)

lemma exponent_text_ok: "exponent_ok (CHR ''e'' # exponent_text e)"
proof -
  have "is_digit CHR ''0''"
    by (simp add: is_digit_def)
  then show ?thesis
    using show_nat_all [of "nat \<bar>e\<bar>"]
    by (auto simp: exponent_ok_def exponent_text_def Let_def split: list.split)
qed

lemma strip_zeros_all: "list_all P s \<Longrightarrow> list_all P (strip_zeros s)"
  by (auto simp: strip_zeros_def list_all_iff dest: set_dropWhileD)

lemma number_fraction:
  assumes "list_all is_digit w" "w \<noteq> []" "hd w = CHR ''0'' \<Longrightarrow> length w = 1" "list_all is_digit f"
    and "exponent_ok e"
  shows "json_number (with_fraction w f @ e)" "json_number (CHR ''-'' # with_fraction w f @ e)"
proof -
  define g where "g = strip_zeros f"
  have g: "list_all is_digit g"
    using strip_zeros_all [OF assms(4)] by (simp add: g_def)
  have e: "e = [] \<or> \<not> is_digit (hd e)"
    using assms(5) by (cases e) (auto simp: exponent_ok_def is_digit_def)
  define r where "r = (if g = [] then e else CHR ''.'' # g @ e)"
  have "\<not> is_digit CHR ''.''"
    by (simp add: is_digit_def)
  then have "r = [] \<or> \<not> is_digit (hd r)"
    using e by (auto simp: r_def)
  moreover have "fraction_ok r"
    using assms(5) digits_of_append [OF g e]
    by (auto simp: r_def fraction_ok_def exponent_ok_def split: list.split)
  moreover have "with_fraction w f @ e = w @ r"
    by (simp add: with_fraction_def Let_def r_def g_def)
  ultimately show "json_number (with_fraction w f @ e)" "json_number (CHR ''-'' # with_fraction w f @ e)"
    using number_whole [OF assms(1-3)] by simp_all
qed

lemma g_digits_text:
  "list_all is_digit (fst (g_digits p x))" "fst (g_digits p x) \<noteq> []"
  "hd (fst (g_digits p x)) = CHR ''0'' \<Longrightarrow> length (fst (g_digits p x)) = 1"
  using show_nat_all show_nat_lead by (auto simp: g_digits_def Let_def)

lemma number_pos: "json_number (show_pos p x)" "json_number (CHR ''-'' # show_pos p x)"
proof -
  obtain ds e where g: "g_digits p x = (ds, e)"
    by (cases "g_digits p x")
  have ds: "list_all is_digit ds" "ds \<noteq> []" "hd ds = CHR ''0'' \<Longrightarrow> length ds = 1"
    using g_digits_text [of p x] by (simp_all add: g)
  have part: "list_all is_digit (take k ds)" "list_all is_digit (drop k ds)"
    "take (Suc k) ds \<noteq> []" "hd (take (Suc k) ds) = CHR ''0'' \<Longrightarrow> length (take (Suc k) ds) = 1" for k
    using ds by (auto simp: list_all_iff neq_Nil_conv dest: in_set_takeD in_set_dropD)
  have zero: "is_digit CHR ''0''"
    by (simp add: is_digit_def)
  have none: "exponent_ok []"
    by (simp add: exponent_ok_def)
  have small: "list_all is_digit (replicate k CHR ''0'' @ ds)" for k
    using ds(1) zero by (simp add: list_all_iff set_replicate_conv_if)
  have "json_number (show_pos p x) \<and> json_number (CHR ''-'' # show_pos p x)"
    unfolding show_pos_def g Let_def
    using number_fraction [OF part(1,3,4) part(2) exponent_text_ok, of 0 1]
      number_fraction [OF part(1,3,4) part(2) none]
      number_fraction [of "''0''", OF _ _ _ small none] zero
    by auto
  then show "json_number (show_pos p x)" "json_number (CHR ''-'' # show_pos p x)"
    by simp_all
qed

lemma number_double: "json_number (show_double p (Fin x))"
proof -
  have "''0'' = show_nat 0"
    by (simp add: show_nat.simps digit_def) (rule char_of_eq, simp)
  then have "json_number ''0''"
    using number_nat [of 0] by simp
  then show ?thesis
    using number_pos by simp
qed

subsection \<open>Values are read back\<close>

text \<open>What may follow a value without extending it.\<close>

definition ends_value :: "string \<Rightarrow> bool" where
  "ends_value rest \<longleftrightarrow> rest = [] \<or> \<not> num_char (hd rest)"

lemma digits_num: "list_all is_digit ds \<Longrightarrow> list_all num_char ds"
  by (auto simp: list_all_iff num_char_def)

lemma digits_of_digits: "list_all is_digit (fst (digits_of s))"
  by (auto simp: digits_of_def list_all_iff dest: set_takeWhileD)

lemma digits_of_join: "fst (digits_of s) @ snd (digits_of s) = s"
  by (simp add: digits_of_def)

lemma digits_of_all:
  "list_all P (fst (digits_of s)) \<Longrightarrow> list_all P (snd (digits_of s)) \<Longrightarrow> list_all P s"
  unfolding digits_of_def fst_conv snd_conv
  by (metis list_all_append takeWhile_dropWhile_id)

lemma exponent_chars: "exponent_ok s \<Longrightarrow> list_all num_char s"
proof (cases s)
  case (Cons c t)
  assume "exponent_ok s"
  then have "c \<in> {CHR ''e'', CHR ''E''}" "list_all is_digit (case t of [] \<Rightarrow> [] | d # u \<Rightarrow> if d \<in> {CHR ''+'', CHR ''-''} then u else t)"
    by (auto simp: exponent_ok_def Cons Let_def)
  then have "num_char c" "list_all num_char t"
    using digits_num by (auto simp: num_char_def split: list.splits if_splits)
  with Cons show ?thesis by simp
qed simp

lemma fraction_chars: "fraction_ok s \<Longrightarrow> list_all num_char s"
proof (cases s)
  case (Cons c t)
  assume a: "fraction_ok s"
  show ?thesis
  proof (cases "c = CHR ''.''")
    case True
    with a have "exponent_ok (snd (digits_of t))"
      by (simp add: fraction_ok_def Cons)
    then have "list_all num_char t"
      by (rule digits_of_all [OF digits_num [OF digits_of_digits] exponent_chars])
    with True Cons show ?thesis by (simp add: num_char_def)
  next
    case False
    with a show ?thesis using exponent_chars [of s] by (simp add: fraction_ok_def Cons)
  qed
qed simp

lemma number_chars: "json_number s \<Longrightarrow> \<exists>c t. s = c # t \<and> (is_digit c \<or> c = CHR ''-'') \<and> list_all num_char s"
proof -
  assume a: "json_number s"
  define t where "t = (case s of [] \<Rightarrow> [] | c # t \<Rightarrow> if c = CHR ''-'' then t else s)"
  have t: "fst (digits_of t) \<noteq> []" "fraction_ok (snd (digits_of t))"
    using a by (auto simp: json_number_def t_def Let_def split: prod.splits)
  then have chars: "list_all num_char t"
    by (intro digits_of_all [OF digits_num [OF digits_of_digits] fraction_chars])
  obtain d ds where d: "fst (digits_of t) = d # ds"
    using t(1) by (cases "fst (digits_of t)") auto
  then have "is_digit d" "t = d # ds @ snd (digits_of t)"
    using digits_of_digits [of t] digits_of_join [of t] by simp_all
  then have "\<exists>u. t = d # u" "is_digit d" by blast+
  with chars show ?thesis
    by (auto simp: t_def num_char_def split: list.splits if_splits)
qed

lemma skip_ws_other: "c \<notin> {CHR '' '', CHR 0x09, CHR 0x0a, CHR 0x0d} \<Longrightarrow> skip_ws (c # s) = c # s"
  by (simp add: skip_ws_def)

lemma digit_start: "is_digit c \<or> c = CHR ''-'' \<Longrightarrow> c \<notin> {CHR '' '', CHR 0x09, CHR 0x0a, CHR 0x0d, CHR 0x22,
    CHR ''['', CHR ''{'', CHR ''n'', CHR ''t'', CHR ''f'', CHR '']'', CHR ''}''}"
  by (auto simp: is_digit_def)

lemma parse_number:
  assumes "json_number s" "ends_value rest"
  shows "parse_value (Suc n) (s @ rest) = Some (VNumber s, rest)"
proof -
  obtain c t where s: "s = c # t" "is_digit c \<or> c = CHR ''-''" "list_all num_char s"
    using number_chars [OF assms(1)] by blast
  have "takeWhile num_char (s @ rest) = s \<and> dropWhile num_char (s @ rest) = rest"
    using assms(2) by (intro takeWhile_append_all s(3)) (simp add: ends_value_def)
  then have tok: "takeWhile num_char (c # t @ rest) = s" "dropWhile num_char (c # t @ rest) = rest"
    by (simp_all add: s(1))
  note c = digit_start [OF s(2)]
  then have "skip_ws (s @ rest) = c # t @ rest"
    by (simp add: s(1) skip_ws_other)
  moreover have "take 4 (c # t @ rest) \<noteq> ''null''" "take 4 (c # t @ rest) \<noteq> ''true''"
    "take 5 (c # t @ rest) \<noteq> ''false''"
    using c by (auto simp: take_Cons')
  ultimately show ?thesis
    using c assms(1) tok by (simp del: takeWhile.simps dropWhile.simps)
qed

lemma skip_ws_space: "skip_ws (CHR '' '' # s) = skip_ws s"
  by (simp add: skip_ws_def)

lemma parse_value_space: "parse_value n (CHR '' '' # s) = parse_value n s"
  by (cases n) (simp_all add: skip_ws_space)

lemma parse_items_space: "parse_items n (CHR '' '' # s) = parse_items n s"
  by (cases n) (simp_all add: parse_value_space)

lemma parse_members_space: "parse_members n (CHR '' '' # s) = parse_members n s"
  by (cases n) (simp_all add: skip_ws_space)

lemma commas_Cons: "xs \<noteq> [] \<Longrightarrow> commas (x # xs) = x @ CHR '','' # CHR '' '' # commas xs"
  by (cases xs) simp_all

lemma ends_punct [simp]:
  "ends_value (CHR '','' # s)" "ends_value (CHR '']'' # s)" "ends_value (CHR ''}'' # s)" "ends_value []"
  by (simp_all add: ends_value_def num_char_def is_digit_def)

lemma skip_ws_punct [simp]:
  "skip_ws (CHR '','' # s) = CHR '','' # s" "skip_ws (CHR '']'' # s) = CHR '']'' # s"
  "skip_ws (CHR ''}'' # s) = CHR ''}'' # s" "skip_ws (CHR '':'' # s) = CHR '':'' # s"
  "skip_ws (CHR 0x22 # s) = CHR 0x22 # s" "skip_ws (CHR ''['' # s) = CHR ''['' # s"
  "skip_ws (CHR ''{'' # s) = CHR ''{'' # s" "skip_ws (CHR ''n'' # s) = CHR ''n'' # s"
  "skip_ws (CHR ''t'' # s) = CHR ''t'' # s" "skip_ws (CHR ''f'' # s) = CHR ''f'' # s"
  by (simp_all add: skip_ws_other)

text \<open>Elements and members, given that their values are read back.\<close>

lemma parse_items_commas:
  assumes "xs \<noteq> []" "length (commas (map d xs)) + 1 < n"
    and "\<And>x m r. x \<in> set xs \<Longrightarrow> length (d x) < m \<Longrightarrow> ends_value r \<Longrightarrow> parse_value m (d x @ r) = Some (v x, r)"
  shows "parse_items n (commas (map d xs) @ CHR '']'' # rest) = Some (map v xs, rest)"
  using assms
proof (induction xs arbitrary: n)
  case (Cons x xs)
  then obtain m where n: "n = Suc m" by (cases n) auto
  show ?case
  proof (cases "xs = []")
    case True
    then show ?thesis
      using Cons.prems(2) Cons.prems(3) [of x m "CHR '']'' # rest"] by (simp add: n)
  next
    case False
    then have split: "commas (map d (x # xs)) = d x @ CHR '','' # CHR '' '' # commas (map d xs)"
      using commas_Cons [of "map d xs" "d x"] by (simp del: commas.simps)
    then have "parse_items m (commas (map d xs) @ CHR '']'' # rest) = Some (map v xs, rest)"
      using Cons.prems(2,3) False by (intro Cons.IH) (simp_all add: n)
    moreover have "parse_value m (d x @ CHR '','' # CHR '' '' # commas (map d xs) @ CHR '']'' # rest) =
        Some (v x, CHR '','' # CHR '' '' # commas (map d xs) @ CHR '']'' # rest)"
      using Cons.prems(2) split by (intro Cons.prems(3)) (simp_all add: n)
    ultimately show ?thesis
      by (simp only: split n append.assoc append_Cons parse_items.simps) (simp add: parse_items_space)
  qed
qed simp

lemma parse_members_commas:
  assumes "kvs \<noteq> []" "length (commas (map (\<lambda>kv. escape_string (fst kv) @ '': '' @ d (snd kv)) kvs)) + 1 < n"
    and "\<And>kv m r. kv \<in> set kvs \<Longrightarrow> length (d (snd kv)) < m \<Longrightarrow> ends_value r \<Longrightarrow>
      parse_value m (d (snd kv) @ r) = Some (v (snd kv), r)"
  shows "parse_members n (commas (map (\<lambda>kv. escape_string (fst kv) @ '': '' @ d (snd kv)) kvs) @ CHR ''}'' # rest) =
    Some (map (\<lambda>kv. (fst kv, v (snd kv))) kvs, rest)"
  using assms
proof (induction kvs arbitrary: n)
  case (Cons kv kvs)
  let ?m = "\<lambda>kv. escape_string (fst kv) @ '': '' @ d (snd kv)"
  obtain m where n: "n = Suc m"
    using Cons.prems(2) by (cases n) auto
  have key: "parse_chars (concat (map escape_char (fst kv)) @ CHR 0x22 # r) = Some (fst kv, r)" for r
    by (rule parse_escape)
  show ?case
  proof (cases "kvs = []")
    case True
    have "parse_value m (d (snd kv) @ CHR ''}'' # rest) = Some (v (snd kv), CHR ''}'' # rest)"
      using Cons.prems(2) True by (intro Cons.prems(3)) (simp_all add: n)
    then show ?thesis
      using True by (simp add: n escape_string_def key parse_value_space)
  next
    case False
    then have split: "commas (map ?m (kv # kvs)) = ?m kv @ CHR '','' # CHR '' '' # commas (map ?m kvs)"
      using commas_Cons [of "map ?m kvs" "?m kv"] by (simp del: commas.simps)
    then have "parse_members m (commas (map ?m kvs) @ CHR ''}'' # rest) =
        Some (map (\<lambda>kv. (fst kv, v (snd kv))) kvs, rest)"
      using Cons.prems(2,3) False by (intro Cons.IH) (simp_all add: n)
    moreover have "parse_value m (d (snd kv) @ CHR '','' # CHR '' '' # commas (map ?m kvs) @ CHR ''}'' # rest) =
        Some (v (snd kv), CHR '','' # CHR '' '' # commas (map ?m kvs) @ CHR ''}'' # rest)"
      using Cons.prems(2) split by (intro Cons.prems(3)) (simp_all add: n)
    ultimately show ?thesis
      unfolding split n
      by (simp add: key parse_value_space parse_members_space escape_string_def del: commas.simps)
  qed
qed simp

text \<open>The first character of a value is none that the reader would skip or take for an end.\<close>

definition value_start :: "char \<Rightarrow> bool" where
  "value_start c \<longleftrightarrow> c \<notin> {CHR '' '', CHR 0x09, CHR 0x0a, CHR 0x0d, CHR '']'', CHR ''}''}"

lemma number_start: "json_number s \<Longrightarrow> \<exists>c t. s = c # t \<and> value_start c"
proof -
  assume "json_number s"
  then obtain c t where "s = c # t" "is_digit c \<or> c = CHR ''-''"
    using number_chars by blast
  moreover from this(2) have "value_start c"
    using digit_start [of c] unfolding value_start_def by simp
  ultimately show ?thesis by blast
qed

lemma dump_start: "json_finite v \<Longrightarrow> \<exists>c t. dump v = c # t \<and> value_start c"
proof (cases v)
  case (JDouble d)
  assume "json_finite v"
  then obtain x where "d = Fin x"
    by (cases d) (simp_all add: JDouble)
  with JDouble show ?thesis
    using number_start [OF number_double, of 15 x] by (simp only: dump.simps)
next
  case (JUint w)
  show ?thesis
    using number_start [OF number_nat] by (simp only: JUint dump.simps)
next
  case (JInt i)
  show ?thesis
    using number_start [OF number_int] by (simp only: JInt dump.simps)
qed (simp_all add: escape_string_def value_start_def)

lemma commas_start:
  assumes "xs \<noteq> []" "\<exists>c t. d (hd xs) = c # t \<and> P c"
  shows "\<exists>c t. commas (map d xs) = c # t \<and> P c"
  using assms by (cases xs) auto

lemma parse_dump:
  "json_finite v \<Longrightarrow> length (dump v) < n \<Longrightarrow> ends_value rest \<Longrightarrow>
   parse_value n (dump v @ rest) = Some (json_view v, rest)"
proof (induction v arbitrary: n rest)
  case (JArray xs)
  then obtain m where n: "n = Suc m" by (cases n) auto
  show ?case
  proof (cases "xs = []")
    case True
    then show ?thesis by (simp add: n)
  next
    case False
    have fin: "json_finite x" if "x \<in> set xs" for x
      using JArray.prems(1) that by (simp add: list_all_iff)
    have items: "parse_items m (commas (map dump xs) @ CHR '']'' # rest) = Some (map json_view xs, rest)"
      using JArray.IH fin JArray.prems(2) False by (intro parse_items_commas) (simp_all add: n)
    obtain c t where c: "commas (map dump xs) = c # t"
      "value_start c"
      using commas_start [of xs dump value_start, OF False dump_start [OF fin [OF hd_in_set [OF False]]]] by blast
    have "skip_ws (c # t @ CHR '']'' # rest) = c # t @ CHR '']'' # rest"
      using c(2) by (intro skip_ws_other) (simp add: value_start_def)
    moreover have "c \<noteq> CHR '']''"
      using c(2) by (simp add: value_start_def)
    ultimately have "parse_value (Suc m) (CHR ''['' # c # t @ CHR '']'' # rest) =
        Some (VArray (map json_view xs), rest)"
      using items [unfolded c(1)] by simp
    then show ?thesis
      by (simp add: n c(1) del: parse_value.simps commas.simps)
  qed
next
  case (JObject kvs)
  then obtain m where n: "n = Suc m" by (cases n) auto
  show ?case
  proof (cases "kvs = []")
    case True
    then show ?thesis by (simp add: n)
  next
    case False
    let ?m = "\<lambda>kv. escape_string (fst kv) @ '': '' @ dump (snd kv)"
    have "json_finite (snd kv)" if "kv \<in> set kvs" for kv
      using JObject.prems(1) that by (simp add: list_all_iff)
    then have items: "parse_members m (commas (map ?m kvs) @ CHR ''}'' # rest) =
        Some (map (\<lambda>kv. (fst kv, json_view (snd kv))) kvs, rest)"
      using JObject.IH JObject.prems(2) False by (intro parse_members_commas) (auto simp: n)
    obtain t where "commas (map ?m kvs) = CHR 0x22 # t"
      using commas_start [OF False, of ?m "\<lambda>c. c = CHR 0x22"] by (auto simp: escape_string_def)
    with items have "parse_value (Suc m) (CHR ''{'' # commas (map ?m kvs) @ CHR ''}'' # rest) =
        Some (VObject (map (\<lambda>kv. (fst kv, json_view (snd kv))) kvs), rest)"
      by (simp del: commas.simps)
    then show ?thesis
      by (simp add: n del: parse_value.simps commas.simps)
  qed
next
  case (JString s)
  then show ?case by (cases n) (simp_all add: escape_string_def parse_escape)
next
  case (JUint w)
  then obtain m where n: "n = Suc m" by (cases n) auto
  show ?case
    unfolding n dump.simps json_view.simps by (rule parse_number [OF number_nat JUint.prems(3)])
next
  case (JInt w)
  then obtain m where n: "n = Suc m" by (cases n) auto
  show ?case
    unfolding n dump.simps json_view.simps by (rule parse_number [OF number_int JInt.prems(3)])
next
  case (JDouble d)
  then obtain x where d: "d = Fin x" by (cases d) simp_all
  from JDouble obtain m where n: "n = Suc m" by (cases n) auto
  show ?case
    unfolding n d dump.simps json_view.simps by (rule parse_number [OF number_double JDouble.prems(3)])
next
  case JNull
  then show ?case by (cases n) simp_all
next
  case (JBool b)
  then show ?case by (cases n) simp_all
qed

subsection \<open>Control characters and infinities\<close>

definition printable :: "char \<Rightarrow> bool" where
  "printable c \<longleftrightarrow> 32 \<le> (of_char c :: nat)"

lemma printable_punct [simp]:
  "printable CHR ''{''" "printable CHR ''}''" "printable CHR ''[''" "printable CHR '']''"
  "printable CHR '',''" "printable CHR '':''" "printable CHR '' ''" "printable CHR 0x22"
  by (simp_all add: printable_def)

lemma num_char_printable: "list_all num_char s \<Longrightarrow> list_all printable s"
  by (auto simp: list_all_iff num_char_def is_digit_def printable_def)

lemma hex_digit_printable: "k < 16 \<Longrightarrow> printable (hex_digit k)"
  by (auto simp: printable_def hex_digit_def)

lemma escape_char_printable: "list_all printable (escape_char c)"
proof -
  have "(of_char c :: nat) < 32 \<Longrightarrow> (of_char c :: nat) div 16 < 16"
    by (simp add: less_mult_imp_div_less)
  then show ?thesis
    by (auto simp: escape_char_def Let_def hex_digit_printable) (auto simp: printable_def)
qed

lemma escape_string_printable: "list_all printable (escape_string s)"
  using escape_char_printable by (auto simp: escape_string_def list_all_iff)

lemma commas_all: "(\<And>x. x \<in> set xs \<Longrightarrow> list_all printable x) \<Longrightarrow> list_all printable (commas xs)"
  by (cases xs) (auto simp: list_all_iff printable_def)

lemma json_number_printable: "json_number s \<Longrightarrow> list_all printable s"
  using number_chars num_char_printable by blast

lemma dump_double_printable: "list_all printable (show_double p d)"
proof (cases d)
  case (Fin x)
  then show ?thesis using json_number_printable [OF number_double] by simp
qed (simp_all add: printable_def)

lemma dump_printable: "list_all printable (dump v)"
proof (induction v)
  case (JObject kvs)
  have "list_all printable (escape_string (fst kv) @ '': '' @ dump (snd kv))" if "kv \<in> set kvs" for kv
  proof -
    have "list_all printable (dump (snd kv))"
      by (rule JObject [OF that]) (cases kv, simp)
    then show ?thesis
      using escape_string_printable by simp
  qed
  then have "list_all printable (commas (map (\<lambda>kv. escape_string (fst kv) @ '': '' @ dump (snd kv)) kvs))"
    by (intro commas_all) auto
  then show ?case by simp
next
  case (JArray xs)
  have "list_all printable (commas (map dump xs))"
    using JArray by (intro commas_all) auto
  then show ?case by simp
qed (auto simp: escape_string_printable json_number_printable [OF number_nat]
    json_number_printable [OF number_int] dump_double_printable, auto simp: printable_def)

text \<open>An object like that of the repository's unit test and the text expected of it.\<close>

definition json_example :: json where
  "json_example = JObject
     [(''str'', JString [CHR ''s'', CHR 0x0a, CHR 0x09, CHR 0x0d, CHR 0x0b, CHR ''t'']),
      (''int'', JInt (- 42)), (''uint'', JUint 42), (''float'', JDouble (Fin (1 / 128))),
      (''double0'', JDouble (Fin 0)),
      (''bool'', JBool True), (''null'', JNull),
      (''array'', JArray [JInt 0, JDouble (Fin 1), JString ''str'', JBool True, JArray [], JObject []]),
      (''object'', JObject [(''num'', JInt 42), (''bool'', JBool True)])]"

lemma json_example_numbers:
  "show_int (sint (- 42 :: u64)) = ''-42''" "show_int (sint (42 :: u64)) = ''42''" "show_int (sint (0 :: u64)) = ''0''"
  "show_nat (unat (42 :: u64)) = ''42''" "show_double 15 (Fin (1 / 128)) = ''0.0078125''"
  "show_double 15 (Fin 0) = ''0''" "show_double 15 (Fin 1) = ''1''"
  by code_simp+

lemma json_example_string:
  "escape_string [CHR ''s'', CHR 0x0a, CHR 0x09, CHR 0x0d, CHR 0x0b, CHR ''t''] =
     CHR 0x22 # ''s'' @ [CHR 0x5c] @ ''n'' @ [CHR 0x5c] @ ''t'' @ [CHR 0x5c] @ ''r'' @ [CHR 0x5c] @ ''u000bt'' @ [CHR 0x22]"
  by code_simp

lemma json_example_dump: "dump json_example =
  CHR ''{'' # escape_string ''str'' @ '': '' @ CHR 0x22 # ''s'' @ [CHR 0x5c] @ ''n'' @ [CHR 0x5c] @ ''t'' @ [CHR 0x5c] @ ''r'' @
    [CHR 0x5c] @ ''u000bt'' @ CHR 0x22 # '', '' @ escape_string ''int'' @ '': -42, '' @ escape_string ''uint'' @ '': 42, '' @
  escape_string ''float'' @ '': 0.0078125, '' @ escape_string ''double0'' @ '': 0, '' @
  escape_string ''bool'' @ '': true, '' @
  escape_string ''null'' @ '': null, '' @ escape_string ''array'' @ '': [0, 1, '' @ escape_string ''str'' @ '', true, [], {}], '' @
  escape_string ''object'' @ '': {'' @ escape_string ''num'' @ '': 42, '' @ escape_string ''bool'' @ '': true}}''"
  unfolding json_example_def by (simp only: dump.simps list.map fst_conv snd_conv json_example_numbers
      json_example_string commas.simps concat.simps append.simps append_assoc if_True)

subsection \<open>Properties\<close>

text \<open>
  C28. A reader of the JSON grammar gets back from \<open>dump\<close> exactly what was written: the nesting, the
  keys in their order, every string byte for byte, every number as one token of the grammar, and
  nothing is left over; this holds for every value whose doubles are finite.
\<close>

theorem json_roundtrip:
  assumes "json_finite v"
  shows "parse_value (Suc (length (dump v))) (dump v) = Some (json_view v, [])"
  using parse_dump [OF assms, of "Suc (length (dump v))" "[]"] by simp

theorem json_roundtrip_witness:
  "parse_value (Suc (length (dump json_example))) (dump json_example) = Some (json_view json_example, [])"
proof -
  have "json_finite json_example" by (simp add: json_example_def)
  then show ?thesis by (rule json_roundtrip)
qed

text \<open>
  The serialization of a value is a single line without control characters, whatever strings
  and keys it holds, so that one entry of the log file is one line of it. The values with an
  infinite or undefined double are covered too, but what is printed for these doubles is no JSON:
  no reader of the grammar accepts it.
\<close>

theorem json_one_line:
  "list_all (\<lambda>c. 32 \<le> (of_char c :: nat)) (dump v) \<and>
   parse_value n (dump (JDouble (Inf neg))) = None \<and> parse_value n (dump (JDouble NaN)) = None"
proof -
  have "list_all (\<lambda>c. 32 \<le> (of_char c :: nat)) (dump v)"
    using dump_printable [of v] unfolding printable_def .
  moreover have "parse_value n (dump (JDouble (Inf neg))) = None" "parse_value n (dump (JDouble NaN)) = None"
    by (cases n; simp add: skip_ws_other json_number_def digits_of_def num_char_def is_digit_def)+
  ultimately show ?thesis by simp
qed

end
