(* ===== verification/Config.thy ===== *)
theory Config
  imports Errors Json "HOL-Library.Char_ord" "HOL-Library.List_Lexorder"
begin

text \<open>
  The configuration of \<^verbatim>\<open>src/config.hpp\<close> and \<^verbatim>\<open>src/config.cpp\<close>: the nested map of default
  values, the parser of the file, the copy into the typed members and the JSON object for the log.
  The first part models \<open>std::from_chars\<close> and \<open>std::map\<close>, the second the class. The lemmas show
  that parsing keeps the type of every value, so that no \<open>std::get\<close> throws, that it succeeds exactly
  on the texts that have a meaning and gives them this meaning, what it reports for the first faulty line, and that the log does
  not reveal the credentials.
\<close>

subsection \<open>Numbers\<close>

text \<open>
  \<open>std::from_chars\<close> on a whole string: \<open>None\<close> where it reports an error or stops before the end.
  An integer has an optional minus sign and digits; its value has to fit into \<open>int64_t\<close>.
\<close>

definition split_minus :: "string \<Rightarrow> bool \<times> string" where
  "split_minus s = (case s of [] \<Rightarrow> (False, []) | c # t \<Rightarrow> if c = CHR ''-'' then (True, t) else (False, s))"

definition from_chars_int :: "string \<Rightarrow> u64 option" where
  "from_chars_int s =
     (let (neg, t) = split_minus s;
          v = (if neg then - int (read_nat t) else int (read_nat t))
      in if t \<noteq> [] \<and> list_all is_digit t \<and> - (2 ^ 63) \<le> v \<and> v < 2 ^ 63
         then Some (word_of_int v) else None)"

text \<open>
  A double in the general format: an infinity or a NaN by name, or a decimal with an optional
  fraction and an optional exponent, rounded to the nearest double. A value that overflows, or is
  not zero and rounds to zero, is out of range.
\<close>

definition lower :: "string \<Rightarrow> string" where
  "lower s = map (\<lambda>c. let n = of_char c :: nat in if 65 \<le> n \<and> n \<le> 90 then char_of (n + 32) else c) s"

definition nan_tail :: "string \<Rightarrow> bool" where
  "nan_tail s \<longleftrightarrow> s = [] \<or>
     (hd s = CHR ''('' \<and> 2 \<le> length s \<and> last s = CHR '')'' \<and>
      list_all (\<lambda>c. is_digit c \<or> c = CHR ''_'' \<or>
        (let n = of_char c :: nat in 65 \<le> n \<and> n \<le> 90 \<or> 97 \<le> n \<and> n \<le> 122)) (butlast (tl s)))"

definition read_exponent :: "string \<Rightarrow> int option" where
  "read_exponent s =
     (case s of
        [] \<Rightarrow> Some 0
      | c # t \<Rightarrow>
          if c \<in> {CHR ''e'', CHR ''E''} then
            (let (neg, u) = (case t of [] \<Rightarrow> (False, [])
                             | d # u \<Rightarrow> if d = CHR ''-'' then (True, u)
                                       else if d = CHR ''+'' then (False, u) else (False, t))
             in if u \<noteq> [] \<and> list_all is_digit u
                then Some (if neg then - int (read_nat u) else int (read_nat u)) else None)
          else None)"

definition read_decimal :: "string \<Rightarrow> rat option" where
  "read_decimal s =
     (let (whole, r) = digits_of s;
          (fract, r') = (case r of c # t \<Rightarrow> if c = CHR ''.'' then digits_of t else ([], r) | [] \<Rightarrow> ([], []))
      in if whole @ fract = [] then None
         else map_option (\<lambda>e. of_nat (read_nat (whole @ fract)) * p10 (e - int (length fract))) (read_exponent r'))"

definition from_chars_dbl :: "string \<Rightarrow> dbl option" where
  "from_chars_dbl s =
     (let (neg, t) = split_minus s in
      if lower t \<in> {''inf'', ''infinity''} then Some (Inf neg)
      else if take 3 (lower t) = ''nan'' \<and> nan_tail (drop 3 t) then Some NaN
      else (case read_decimal t of
              None \<Rightarrow> None
            | Some x \<Rightarrow>
                (case mkd (if neg then - x else x) of
                   Fin y \<Rightarrow> if x \<noteq> 0 \<and> y = 0 then None else Some (Fin y)
                 | _ \<Rightarrow> None)))"

subsection \<open>Ordered maps\<close>

text \<open>
  \<open>std::map\<close> with string keys: the list of its pairs in the order of the keys, which is the order
  of iteration. \<open>smap_put\<close> is the assignment through \<open>operator[]\<close>, \<open>find\<close> is \<open>map_of\<close>.
\<close>

fun smap_put :: "string \<Rightarrow> 'v \<Rightarrow> (string \<times> 'v) list \<Rightarrow> (string \<times> 'v) list" where
  "smap_put k v [] = [(k, v)]"
| "smap_put k v ((a, b) # m) =
     (if k < a then (k, v) # (a, b) # m else if k = a then (k, v) # m else (a, b) # smap_put k v m)"

definition smap :: "(string \<times> 'v) list \<Rightarrow> (string \<times> 'v) list" where
  "smap kvs = foldl (\<lambda>m (k, v). smap_put k v m) [] kvs"

lemma map_of_smap_put [simp]: "map_of (smap_put k v m) = (map_of m)(k \<mapsto> v)"
  by (induction k v m rule: smap_put.induct) auto

subsection \<open>The class\<close>

text \<open>The type \<open>value_t\<close>; an \<open>int64_t\<close> is the word read by \<open>sint\<close>.\<close>

datatype config_value = VStr string | VInt u64 | VDbl dbl

type_synonym config_map = "(string \<times> (string \<times> config_value) list) list"

definition default_map :: config_map where
  "default_map = smap
     [(''usrp'', smap [
        (''args'', VStr ''''),
        (''sync'', VStr ''host'')]),
      (''mqtt'', smap [
        (''host'', VStr ''0.0.0.0''),
        (''port'', VInt 1883),
        (''user'', VStr ''''),
        (''password'', VStr ''''),
        (''prefix'', VStr ''usrp_rxtx''),
        (''pub_samples'', VInt 0)]),
      (''shmem'', smap [
        (''mount_desc'', VStr ''/dev/shm''),
        (''mount_ring'', VStr ''/dev/shm''),
        (''size_desc_mib'', VInt 2),
        (''size_ring_mib'', VInt 1024)]),
      (''rx'', smap [
        (''subdev'', VStr ''''),
        (''antenna'', VStr ''''),
        (''bandwidth'', VDbl (Fin 0)),
        (''freq_rf'', VDbl (Fin 0)),
        (''freq_dsp'', VDbl (Fin 0)),
        (''gain'', VDbl (Fin 0)),
        (''lo_source'', VStr ''''),
        (''rate'', VDbl (Fin 0))]),
      (''tx'', smap [
        (''file'', VStr ''''),
        (''subdev'', VStr ''''),
        (''antenna'', VStr ''''),
        (''bandwidth'', VDbl (Fin 0)),
        (''freq_rf'', VDbl (Fin 0)),
        (''freq_dsp'', VDbl (Fin 0)),
        (''gain'', VDbl (Fin 0)),
        (''lo_source'', VStr ''''),
        (''rate'', VDbl (Fin 0))]),
      (''wr'', smap [
        (''directory'', VStr '''')]),
      (''tune'', smap [
        (''dev_cpu_dma_latency_usec'', VInt (- 1))])]"

definition valid_chars :: string where
  "valid_chars = ''0123456789ABCDEFGHIJKLMNOPQRSTUVWXYZ_abcdefghijklmnopqrstuvwxyz''"

record usrp_config =
  usrp_args :: string
  usrp_sync :: string

record mqtt_config =
  mqtt_host :: string
  mqtt_port :: "32 word"
  mqtt_user :: string
  mqtt_password :: string
  mqtt_prefix :: string
  mqtt_pub_samples :: u64

record shmem_config =
  shmem_mount_desc :: string
  shmem_mount_ring :: string
  shmem_size_desc_mib :: u64
  shmem_size_ring_mib :: u64

text \<open>The members of \<open>rx\<close>; \<open>tx\<close> has the same and the file.\<close>

record radio_config =
  radio_subdev :: string
  radio_antenna :: string
  radio_bandwidth :: dbl
  radio_freq_rf :: dbl
  radio_freq_dsp :: dbl
  radio_gain :: dbl
  radio_lo_source :: string
  radio_rate :: dbl

record config =
  cfg_usrp :: usrp_config
  cfg_mqtt :: mqtt_config
  cfg_shmem :: shmem_config
  cfg_rx :: radio_config
  cfg_tx :: radio_config
  cfg_tx_file :: string
  cfg_wr_directory :: string
  cfg_dma_latency_usec :: "32 word"
  cfg_map :: config_map

subsection \<open>Parsing\<close>

text \<open>\<open>operator[]\<close> of a view: past the end it is undefined, and so it is for \<open>npos\<close>.\<close>

definition view_at :: "string \<Rightarrow> nat option \<Rightarrow> char res" where
  "view_at view off =
     (case off of None \<Rightarrow> Inl (Undefined ''view[npos]'')
      | Some k \<Rightarrow> if k < length view then Inr (view ! k) else Inl (Undefined ''view[]''))"

text \<open>A value is read into the alternative its variant holds.\<close>

definition read_value :: "int \<Rightarrow> string \<Rightarrow> string \<Rightarrow> config_value \<Rightarrow> config_value res" where
  "read_value lineno line view old =
     (case old of
        VStr _ \<Rightarrow> Inr (VStr view)
      | VDbl _ \<Rightarrow> (case from_chars_dbl view of
                     None \<Rightarrow> Inl (Config_error ''value type not float'' lineno line)
                   | Some d \<Rightarrow> Inr (VDbl d))
      | VInt _ \<Rightarrow> (case from_chars_int view of
                     None \<Rightarrow> Inl (Config_error ''value type not integer'' lineno line)
                   | Some w \<Rightarrow> Inr (VInt w)))"

definition section_of :: "config_map \<Rightarrow> string \<Rightarrow> (string \<times> config_value) list" where
  "section_of m s = (case map_of m s of None \<Rightarrow> [] | Some kvs \<Rightarrow> kvs)"

definition parse_section :: "int \<Rightarrow> string \<Rightarrow> string \<Rightarrow> config_map \<Rightarrow> string res" where
  "parse_section lineno line view m =
     (let sect = substr view 1 (Some (length view - 2)) in
      if find_first_not_of sect valid_chars (Some 0) \<noteq> None
      then Inl (Config_error ''invalid section name'' lineno line)
      else if map_of m sect = None then Inl (Config_error ''unknown section name'' lineno line)
      else Inr sect)"

definition parse_pair :: "int \<Rightarrow> string \<Rightarrow> string \<Rightarrow> string \<Rightarrow> config_map \<Rightarrow> config_map res" where
  "parse_pair lineno line view sect m =
     (let key_len = find_first_not_of view valid_chars (Some 0);
          key = substr view 0 key_len;
          equal_off = find_first_not_of view [CHR '' '', CHR 0x09] key_len
      in and_then (view_at view equal_off) (\<lambda>c.
         if c \<noteq> CHR ''='' then Inl (Config_error ''not a key value pair'' lineno line)
         else (case map_of (section_of m sect) key of
                 None \<Rightarrow> Inl (Config_error ''unknown key name'' lineno line)
               | Some old \<Rightarrow>
                   (let val_off = find_first_not_of view [CHR '' '', CHR 0x09] (map_option Suc equal_off);
                        val = (case val_off of None \<Rightarrow> [] | Some k \<Rightarrow> drop k view)
                    in and_then (read_value lineno line val old) (\<lambda>new.
                       Inr (smap_put sect (smap_put key new (section_of m sect)) m))))))"

text \<open>One turn of the loop: the state is the current section and the map.\<close>

definition parse_line :: "int \<Rightarrow> string \<Rightarrow> string \<times> config_map \<Rightarrow> (string \<times> config_map) res" where
  "parse_line lineno line st =
     (let (sect, m) = st in
      if line = [] then Inr st
      else if starts_with line ''#'' \<or> starts_with line '';'' then Inr st
      else case find_last_not_of line [CHR 0x09, CHR 0x0d, CHR '' ''] of
             None \<Rightarrow> Inr st
           | Some e \<Rightarrow>
               (let view = substr line 0 (Some (e + 1)) in
                if starts_with view ''['' \<and> ends_with view '']''
                then and_then (parse_section lineno line view m) (\<lambda>s. Inr (s, m))
                else and_then (parse_pair lineno line view sect m) (\<lambda>m'. Inr (sect, m'))))"

fun parse_lines :: "int \<Rightarrow> string list \<Rightarrow> string \<times> config_map \<Rightarrow> (string \<times> config_map) res" where
  "parse_lines lineno [] st = Inr st"
| "parse_lines lineno (line # ls) st =
     and_then (parse_line (lineno + 1) line st) (\<lambda>st'. parse_lines (lineno + 1) ls st')"

text \<open>The copy into the members: \<open>operator[]\<close> makes an empty string of a missing value.\<close>

definition cell :: "config_map \<Rightarrow> string \<Rightarrow> string \<Rightarrow> config_value" where
  "cell m s k = (case map_of (section_of m s) k of None \<Rightarrow> VStr [] | Some v \<Rightarrow> v)"

definition get_str :: "config_map \<Rightarrow> string \<Rightarrow> string \<Rightarrow> string res" where
  "get_str m s k = (case cell m s k of VStr x \<Rightarrow> Inr x | _ \<Rightarrow> Inl Bad_variant_access)"

definition get_int :: "config_map \<Rightarrow> string \<Rightarrow> string \<Rightarrow> u64 res" where
  "get_int m s k = (case cell m s k of VInt x \<Rightarrow> Inr x | _ \<Rightarrow> Inl Bad_variant_access)"

definition get_dbl :: "config_map \<Rightarrow> string \<Rightarrow> string \<Rightarrow> dbl res" where
  "get_dbl m s k = (case cell m s k of VDbl x \<Rightarrow> Inr x | _ \<Rightarrow> Inl Bad_variant_access)"

definition load_usrp :: "config_map \<Rightarrow> usrp_config res" where
  "load_usrp m =
     and_then (get_str m ''usrp'' ''args'') (\<lambda>a.
     and_then (get_str m ''usrp'' ''sync'') (\<lambda>s.
     Inr \<lparr> usrp_args = a, usrp_sync = s \<rparr>))"

definition load_mqtt :: "config_map \<Rightarrow> mqtt_config res" where
  "load_mqtt m =
     and_then (get_str m ''mqtt'' ''host'') (\<lambda>host.
     and_then (get_int m ''mqtt'' ''port'') (\<lambda>port.
     and_then (get_str m ''mqtt'' ''user'') (\<lambda>user.
     and_then (get_str m ''mqtt'' ''password'') (\<lambda>password.
     and_then (get_str m ''mqtt'' ''prefix'') (\<lambda>pre.
     and_then (get_int m ''mqtt'' ''pub_samples'') (\<lambda>n.
     Inr \<lparr> mqtt_host = host, mqtt_port = ucast port, mqtt_user = user, mqtt_password = password,
           mqtt_prefix = pre, mqtt_pub_samples = n \<rparr>))))))"

definition load_shmem :: "config_map \<Rightarrow> shmem_config res" where
  "load_shmem m =
     and_then (get_str m ''shmem'' ''mount_desc'') (\<lambda>md.
     and_then (get_str m ''shmem'' ''mount_ring'') (\<lambda>mr.
     and_then (get_int m ''shmem'' ''size_desc_mib'') (\<lambda>sd.
     and_then (get_int m ''shmem'' ''size_ring_mib'') (\<lambda>sr.
     Inr \<lparr> shmem_mount_desc = md, shmem_mount_ring = mr, shmem_size_desc_mib = sd,
           shmem_size_ring_mib = sr \<rparr>))))"

text \<open>The members of \<open>rx\<close> and of \<open>tx\<close>.\<close>

definition load_radio :: "config_map \<Rightarrow> string \<Rightarrow> radio_config res" where
  "load_radio m s =
     and_then (get_str m s ''subdev'') (\<lambda>sd.
     and_then (get_str m s ''antenna'') (\<lambda>an.
     and_then (get_dbl m s ''bandwidth'') (\<lambda>bw.
     and_then (get_dbl m s ''freq_rf'') (\<lambda>fr.
     and_then (get_dbl m s ''freq_dsp'') (\<lambda>fd.
     and_then (get_dbl m s ''gain'') (\<lambda>ga.
     and_then (get_str m s ''lo_source'') (\<lambda>lo.
     and_then (get_dbl m s ''rate'') (\<lambda>ra.
     Inr \<lparr> radio_subdev = sd, radio_antenna = an, radio_bandwidth = bw, radio_freq_rf = fr,
           radio_freq_dsp = fd, radio_gain = ga, radio_lo_source = lo, radio_rate = ra \<rparr>))))))))"

definition load_members :: "config_map \<Rightarrow> config res" where
  "load_members m =
     and_then (load_usrp m) (\<lambda>u.
     and_then (load_mqtt m) (\<lambda>q.
     and_then (load_shmem m) (\<lambda>sh.
     and_then (load_radio m ''rx'') (\<lambda>r.
     and_then (get_str m ''tx'' ''file'') (\<lambda>f.
     and_then (load_radio m ''tx'') (\<lambda>t.
     and_then (get_str m ''wr'' ''directory'') (\<lambda>d.
     and_then (get_int m ''tune'' ''dev_cpu_dma_latency_usec'') (\<lambda>l.
     Inr \<lparr> cfg_usrp = u, cfg_mqtt = q, cfg_shmem = sh, cfg_rx = r, cfg_tx = t, cfg_tx_file = f,
           cfg_wr_directory = d, cfg_dma_latency_usec = ucast l, cfg_map = m \<rparr>))))))))"

definition parse :: "string \<Rightarrow> config res" where
  "parse text = and_then (parse_lines 0 (getlines text) ([], default_map)) (\<lambda>(_, m). load_members m)"

text \<open>
  The constructor from a path; \<open>read_file\<close> is what opening and reading the file gives, \<open>errno\<close>
  the reason when it cannot be opened.
\<close>

definition config_file :: "(string \<Rightarrow> string option) \<Rightarrow> int \<Rightarrow> string \<Rightarrow> config res" where
  "config_file read_file errno path =
     (case read_file path of
        None \<Rightarrow> Inl (Syscall_error (''error opening config file '' @ path) errno)
      | Some text \<Rightarrow> parse text)"

subsection \<open>The object for the log\<close>

fun value_json :: "config_value \<Rightarrow> json" where
  "value_json (VStr s) = JString s"
| "value_json (VInt w) = JInt w"
| "value_json (VDbl d) = JDouble d"

definition entry_json :: "config \<Rightarrow> string \<Rightarrow> string \<times> config_value \<Rightarrow> string \<times> json" where
  "entry_json cfg sect kv =
     (if sect = ''mqtt'' \<and> fst kv = ''user'' \<and> mqtt_user (cfg_mqtt cfg) \<noteq> []
      then (fst kv, JString ''***REDACTED***'')
      else if sect = ''mqtt'' \<and> fst kv = ''password'' \<and> mqtt_password (cfg_mqtt cfg) \<noteq> []
      then (fst kv, JString ''***REDACTED***'')
      else (fst kv, value_json (snd kv)))"

definition to_json :: "config \<Rightarrow> json" where
  "to_json cfg = JObject (map (\<lambda>(s, kvs). (s, JObject (map (entry_json cfg s) kvs))) (cfg_map cfg))"

subsection \<open>Parsing keeps the types\<close>

datatype kind = KStr | KInt | KDbl

fun kind_of :: "config_value \<Rightarrow> kind" where
  "kind_of (VStr _) = KStr"
| "kind_of (VInt _) = KInt"
| "kind_of (VDbl _) = KDbl"

definition kinds :: "config_map \<Rightarrow> string \<Rightarrow> string \<Rightarrow> kind option" where
  "kinds m s k = map_option kind_of (map_of (section_of m s) k)"

lemma section_of_put: "section_of (smap_put s kvs m) t = (if t = s then kvs else section_of m t)"
  by (simp add: section_of_def)

lemma read_value_kind: "read_value n line v old = Inr new \<Longrightarrow> kind_of new = kind_of old"
  by (cases old) (auto simp: read_value_def split: option.splits)

lemma parse_pair_kinds: "parse_pair n line view s m = Inr m' \<Longrightarrow> kinds m' = kinds m"
  by (auto simp: parse_pair_def Let_def and_then_Inr kinds_def section_of_put fun_eq_iff
      split: if_splits option.splits dest!: read_value_kind)

lemma parse_line_kinds: "parse_line n line st = Inr st' \<Longrightarrow> kinds (snd st') = kinds (snd st)"
  by (auto simp: parse_line_def Let_def and_then_Inr parse_pair_kinds
      split: prod.splits if_splits option.splits)

lemma parse_lines_kinds: "parse_lines n ls st = Inr st' \<Longrightarrow> kinds (snd st') = kinds (snd st)"
  by (induction n ls st rule: parse_lines.induct) (auto simp: and_then_Inr dest: parse_line_kinds)

lemma get_str_ok: "kinds m s k = Some KStr \<Longrightarrow> \<exists>x. get_str m s k = Inr x"
  and get_int_ok: "kinds m s k = Some KInt \<Longrightarrow> \<exists>w. get_int m s k = Inr w"
  and get_dbl_ok: "kinds m s k = Some KDbl \<Longrightarrow> \<exists>d. get_dbl m s k = Inr d"
  by (auto simp: kinds_def get_str_def get_int_def get_dbl_def cell_def
      split: config_value.splits elim!: kind_of.elims)

lemma default_map_eq: "default_map =
  [(''mqtt'', [(''host'', VStr ''0.0.0.0''), (''password'', VStr ''''), (''port'', VInt 1883),
     (''prefix'', VStr ''usrp_rxtx''), (''pub_samples'', VInt 0), (''user'', VStr '''')]),
   (''rx'', [(''antenna'', VStr ''''), (''bandwidth'', VDbl (Fin 0)), (''freq_dsp'', VDbl (Fin 0)),
     (''freq_rf'', VDbl (Fin 0)), (''gain'', VDbl (Fin 0)), (''lo_source'', VStr ''''),
     (''rate'', VDbl (Fin 0)), (''subdev'', VStr '''')]),
   (''shmem'', [(''mount_desc'', VStr ''/dev/shm''), (''mount_ring'', VStr ''/dev/shm''),
     (''size_desc_mib'', VInt 2), (''size_ring_mib'', VInt 1024)]),
   (''tune'', [(''dev_cpu_dma_latency_usec'', VInt (- 1))]),
   (''tx'', [(''antenna'', VStr ''''), (''bandwidth'', VDbl (Fin 0)), (''file'', VStr ''''),
     (''freq_dsp'', VDbl (Fin 0)), (''freq_rf'', VDbl (Fin 0)), (''gain'', VDbl (Fin 0)),
     (''lo_source'', VStr ''''), (''rate'', VDbl (Fin 0)), (''subdev'', VStr '''')]),
   (''usrp'', [(''args'', VStr ''''), (''sync'', VStr ''host'')]),
   (''wr'', [(''directory'', VStr '''')])]"
  by code_simp

lemma default_kinds:
  "kinds default_map ''usrp'' ''args'' = Some KStr"
  "kinds default_map ''usrp'' ''sync'' = Some KStr"
  "kinds default_map ''mqtt'' ''host'' = Some KStr"
  "kinds default_map ''mqtt'' ''port'' = Some KInt"
  "kinds default_map ''mqtt'' ''user'' = Some KStr"
  "kinds default_map ''mqtt'' ''password'' = Some KStr"
  "kinds default_map ''mqtt'' ''prefix'' = Some KStr"
  "kinds default_map ''mqtt'' ''pub_samples'' = Some KInt"
  "kinds default_map ''shmem'' ''mount_desc'' = Some KStr"
  "kinds default_map ''shmem'' ''mount_ring'' = Some KStr"
  "kinds default_map ''shmem'' ''size_desc_mib'' = Some KInt"
  "kinds default_map ''shmem'' ''size_ring_mib'' = Some KInt"
  "kinds default_map ''rx'' ''subdev'' = Some KStr"
  "kinds default_map ''rx'' ''antenna'' = Some KStr"
  "kinds default_map ''rx'' ''bandwidth'' = Some KDbl"
  "kinds default_map ''rx'' ''freq_rf'' = Some KDbl"
  "kinds default_map ''rx'' ''freq_dsp'' = Some KDbl"
  "kinds default_map ''rx'' ''gain'' = Some KDbl"
  "kinds default_map ''rx'' ''lo_source'' = Some KStr"
  "kinds default_map ''rx'' ''rate'' = Some KDbl"
  "kinds default_map ''tx'' ''file'' = Some KStr"
  "kinds default_map ''tx'' ''subdev'' = Some KStr"
  "kinds default_map ''tx'' ''antenna'' = Some KStr"
  "kinds default_map ''tx'' ''bandwidth'' = Some KDbl"
  "kinds default_map ''tx'' ''freq_rf'' = Some KDbl"
  "kinds default_map ''tx'' ''freq_dsp'' = Some KDbl"
  "kinds default_map ''tx'' ''gain'' = Some KDbl"
  "kinds default_map ''tx'' ''lo_source'' = Some KStr"
  "kinds default_map ''tx'' ''rate'' = Some KDbl"
  "kinds default_map ''wr'' ''directory'' = Some KStr"
  "kinds default_map ''tune'' ''dev_cpu_dma_latency_usec'' = Some KInt"
  by (simp_all add: kinds_def section_of_def default_map_eq)

text \<open>A map with the kinds of the default map has every value the members are loaded from.\<close>

lemma get_default:
  assumes "kinds m = kinds default_map"
  shows "kinds default_map s k = Some KStr \<Longrightarrow> \<exists>x. get_str m s k = Inr x"
    and "kinds default_map s k = Some KInt \<Longrightarrow> \<exists>w. get_int m s k = Inr w"
    and "kinds default_map s k = Some KDbl \<Longrightarrow> \<exists>d. get_dbl m s k = Inr d"
  using get_str_ok [of m s k] get_int_ok [of m s k] get_dbl_ok [of m s k] by (simp_all add: assms)

lemma and_then_ok: "\<exists>x. r = Inr x \<Longrightarrow> (\<And>x. \<exists>y. f x = Inr y \<and> P y) \<Longrightarrow> \<exists>y. and_then r f = Inr y \<and> P y"
  by auto

lemma load_parts_ok:
  assumes "kinds m = kinds default_map"
  shows "\<exists>x. load_usrp m = Inr x \<and> True" "\<exists>x. load_mqtt m = Inr x \<and> True"
    "\<exists>x. load_shmem m = Inr x \<and> True"
    "\<exists>x. load_radio m ''rx'' = Inr x \<and> True" "\<exists>x. load_radio m ''tx'' = Inr x \<and> True"
  unfolding load_usrp_def load_mqtt_def load_shmem_def load_radio_def
  by (intro and_then_ok get_default [OF assms] default_kinds; simp)+

lemma load_members_ok:
  assumes "kinds m = kinds default_map"
  shows "\<exists>cfg. load_members m = Inr cfg \<and> cfg_map cfg = m"
  unfolding load_members_def
  by (intro and_then_ok get_default [OF assms] default_kinds load_parts_ok [OF assms, simplified]; simp)

text \<open>The configuration of an empty file.\<close>

definition default_config :: config where
  "default_config = \<lparr>
     cfg_usrp = \<lparr>usrp_args = [], usrp_sync = ''host''\<rparr>,
     cfg_mqtt = \<lparr>mqtt_host = ''0.0.0.0'', mqtt_port = 1883, mqtt_user = [], mqtt_password = [],
       mqtt_prefix = ''usrp_rxtx'', mqtt_pub_samples = 0\<rparr>,
     cfg_shmem = \<lparr>shmem_mount_desc = ''/dev/shm'', shmem_mount_ring = ''/dev/shm'',
       shmem_size_desc_mib = 2, shmem_size_ring_mib = 1024\<rparr>,
     cfg_rx = \<lparr>radio_subdev = [], radio_antenna = [], radio_bandwidth = Fin 0, radio_freq_rf = Fin 0,
       radio_freq_dsp = Fin 0, radio_gain = Fin 0, radio_lo_source = [], radio_rate = Fin 0\<rparr>,
     cfg_tx = \<lparr>radio_subdev = [], radio_antenna = [], radio_bandwidth = Fin 0, radio_freq_rf = Fin 0,
       radio_freq_dsp = Fin 0, radio_gain = Fin 0, radio_lo_source = [], radio_rate = Fin 0\<rparr>,
     cfg_tx_file = [], cfg_wr_directory = [], cfg_dma_latency_usec = - 1, cfg_map = default_map\<rparr>"

lemma parse_empty: "parse [] = Inr default_config"
  by (simp add: parse_def load_members_def load_usrp_def load_mqtt_def load_shmem_def load_radio_def
      get_str_def get_int_def get_dbl_def cell_def section_of_def default_map_eq default_config_def)
    (rule bit_word_eqI, simp add: bit_ucast_iff bit_simps)

subsection \<open>What a file means\<close>

text \<open>
  The specification: a file as a list of items, each with its white space, and the effect of an
  item on the current section and the values. \<open>item_ok\<close> says which texts an item may consist of.
\<close>

datatype item =
    Blank string
  | Comment char string
  | Section string string
  | Entry string string string string string

fun item_text :: "item \<Rightarrow> string" where
  "item_text (Blank w) = w"
| "item_text (Comment c s) = c # s"
| "item_text (Section s w) = CHR ''['' # s @ CHR '']'' # w"
| "item_text (Entry k bef aft v w) = k @ bef @ CHR ''='' # aft @ v @ w"

abbreviation blank :: "string \<Rightarrow> bool" where
  "blank w \<equiv> set w \<subseteq> {CHR 0x09, CHR 0x0d, CHR '' ''}"

abbreviation gap :: "string \<Rightarrow> bool" where
  "gap w \<equiv> set w \<subseteq> {CHR '' '', CHR 0x09}"

fun item_ok :: "item \<Rightarrow> bool" where
  "item_ok (Blank w) = blank w"
| "item_ok (Comment c s) = ((c = CHR ''#'' \<or> c = CHR '';'') \<and> CHR 0x0a \<notin> set s)"
| "item_ok (Section s w) = (set s \<subseteq> set valid_chars \<and> blank w)"
| "item_ok (Entry k bef aft v w) =
     (k \<noteq> [] \<and> set k \<subseteq> set valid_chars \<and> gap bef \<and> gap aft \<and> blank w \<and> CHR 0x0a \<notin> set v \<and>
      (v \<noteq> [] \<longrightarrow> \<not> gap [hd v] \<and> \<not> blank [last v]))"

text \<open>A value of the type that the old value has.\<close>

definition read_as :: "config_value \<Rightarrow> string \<Rightarrow> config_value option" where
  "read_as old v =
     (case old of VStr _ \<Rightarrow> Some (VStr v)
      | VInt _ \<Rightarrow> map_option VInt (from_chars_int v) | VDbl _ \<Rightarrow> map_option VDbl (from_chars_dbl v))"

type_synonym config_values = "string \<Rightarrow> (string \<Rightarrow> config_value option) option"

fun effect :: "item \<Rightarrow> string \<times> config_values \<Rightarrow> (string \<times> config_values) option" where
  "effect (Section s w) (sect, M) = (if M s = None then None else Some (s, M))"
| "effect (Entry k bef aft v w) (sect, M) =
     (case M sect of
        None \<Rightarrow> None
      | Some kvs \<Rightarrow>
          (case kvs k of
             None \<Rightarrow> None
           | Some old \<Rightarrow>
               map_option (\<lambda>new. (sect, M(sect \<mapsto> kvs(k \<mapsto> new)))) (read_as old v)))"
| "effect _ st = Some st"

fun meaning :: "item list \<Rightarrow> string \<times> config_values \<Rightarrow> (string \<times> config_values) option" where
  "meaning [] st = Some st"
| "meaning (i # rest) st = (case effect i st of None \<Rightarrow> None | Some st' \<Rightarrow> meaning rest st')"

definition abs_map :: "config_map \<Rightarrow> config_values" where
  "abs_map m = (\<lambda>s. map_option map_of (map_of m s))"

text \<open>
  A text means some values when each of its lines is the text of a well-formed item, and these items
  take the default values to them. Every text is covered: one with a line that is no item has no meaning.
\<close>

definition text_means :: "string \<Rightarrow> config_values \<Rightarrow> bool" where
  "text_means text M \<longleftrightarrow>
     (\<exists>items s. list_all item_ok items \<and> map item_text items = getlines text \<and>
       meaning items ([], abs_map default_map) = Some (s, M))"

subsection \<open>The searches on a line\<close>

lemma find_first_split:
  assumes "set a \<subseteq> set cs" "x \<notin> set cs"
  shows "find_first_not_of (p @ a @ x # b) cs (Some (length p)) = Some (length p + length a)"
proof -
  have "takeWhile (\<lambda>c. c \<in> set cs) (a @ x # b) = a"
    using assms by (simp add: subset_iff takeWhile_append)
  then show ?thesis
    by (simp add: find_first_not_of_def)
qed

lemma find_first_none: "set a \<subseteq> set cs \<Longrightarrow> find_first_not_of (p @ a) cs (Some (length p)) = None"
proof -
  assume "set a \<subseteq> set cs"
  then have "takeWhile (\<lambda>c. c \<in> set cs) a = a"
    by (auto simp only: takeWhile_eq_all_conv)
  then show ?thesis
    by (simp add: find_first_not_of_def del: takeWhile_eq_all_conv)
qed

lemma find_last_split:
  assumes "b \<noteq> []" "last b \<notin> set cs" "set w \<subseteq> set cs"
  shows "find_last_not_of (b @ w) cs = Some (length b - 1)"
proof -
  obtain c d where b: "rev b = c # d"
    using assms(1) by (cases "rev b") auto
  moreover from this have "last b = c"
    by (metis hd_rev list.sel(1))
  ultimately have "takeWhile (\<lambda>c. c \<in> set cs) (rev w @ rev b) = rev w"
    using assms by (simp add: subset_iff takeWhile_append)
  then show ?thesis
    using assms(1) by (cases b) (simp_all add: find_last_not_of_def)
qed

lemma find_last_none: "set w \<subseteq> set cs \<Longrightarrow> find_last_not_of w cs = None"
proof -
  assume "set w \<subseteq> set cs"
  then have "takeWhile (\<lambda>c. c \<in> set cs) (rev w) = rev w"
    by (auto simp only: takeWhile_eq_all_conv set_rev)
  then show ?thesis
    by (simp add: find_last_not_of_def del: takeWhile_eq_all_conv)
qed

lemma valid_char_facts: "c \<in> set valid_chars \<Longrightarrow>
   c \<notin> {CHR ''#'', CHR '';'', CHR ''['', CHR '']'', CHR ''='', CHR '' '', CHR 0x09, CHR 0x0d, CHR 0x0a}"
  by (auto simp: valid_chars_def)

subsection \<open>The parser gives a file its meaning\<close>

text \<open>The trimmed line \<open>b\<close> of a line \<open>b @ w\<close>.\<close>

lemma parse_line_trim:
  assumes "b \<noteq> []" "\<not> blank [last b]" "blank w" "hd b \<noteq> CHR ''#''" "hd b \<noteq> CHR '';''"
  shows "parse_line n (b @ w) (sect, m) =
    (if starts_with b ''['' \<and> ends_with b '']''
     then and_then (parse_section n (b @ w) b m) (\<lambda>s. Inr (s, m))
     else and_then (parse_pair n (b @ w) b sect m) (\<lambda>m'. Inr (sect, m')))"
proof -
  have "find_last_not_of (b @ w) [CHR 0x09, CHR 0x0d, CHR '' ''] = Some (length b - 1)"
    using assms(2,3) by (intro find_last_split assms(1)) auto
  moreover have "Suc (length b - 1) = length b"
    using assms(1) by (cases b) simp_all
  moreover have "\<not> starts_with (b @ w) ''#''" "\<not> starts_with (b @ w) '';''"
    using assms(1,4,5) by (cases b; simp add: starts_with_def)+
  ultimately show ?thesis
    using assms(1) by (simp add: parse_line_def substr_def)
qed

lemma parse_line_section:
  assumes "set s \<subseteq> set valid_chars" "blank w"
  shows "parse_line n (CHR ''['' # s @ CHR '']'' # w) (sect, m) =
    (if map_of m s = None then Inl (Config_error ''unknown section name'' n (CHR ''['' # s @ CHR '']'' # w))
     else Inr (s, m))"
proof -
  let ?b = "CHR ''['' # s @ [CHR '']'']"
  have "find_first_not_of s valid_chars (Some 0) = None"
    using find_first_none [OF assms(1), of "[]"] by simp
  moreover have "starts_with ?b ''[''" "ends_with ?b '']''"
    by (simp_all add: starts_with_def ends_with_def)
  ultimately show ?thesis
    using parse_line_trim [of ?b w n sect m] assms(2) by (simp add: parse_section_def substr_def)
qed

lemma parse_pair_entry:
  assumes k: "k \<noteq> []" "set k \<subseteq> set valid_chars"
    and gaps: "gap bef" "gap aft"
    and v: "v \<noteq> [] \<Longrightarrow> \<not> gap [hd v]"
  shows "parse_pair n line (k @ bef @ CHR ''='' # aft @ v) sect m =
    (case map_of (section_of m sect) k of
       None \<Rightarrow> Inl (Config_error ''unknown key name'' n line)
     | Some old \<Rightarrow> and_then (read_value n line v old) (\<lambda>new.
         Inr (smap_put sect (smap_put k new (section_of m sect)) m)))"
proof -
  let ?view = "k @ bef @ CHR ''='' # aft @ v"
  let ?g = "[CHR '' '', CHR 0x09]"
  obtain x y where x: "bef @ CHR ''='' # aft @ v = x # y" "x \<notin> set valid_chars"
    using gaps(1) valid_char_facts by (cases bef) auto
  have "find_first_not_of ?view valid_chars (Some 0) = Some (length k)"
    using find_first_split [OF k(2) x(2), of "[]" y] by (simp add: x(1))
  moreover have "find_first_not_of ?view ?g (Some (length k)) = Some (length k + length bef)"
    using find_first_split [of bef ?g "CHR ''=''" k "aft @ v"] gaps(1) by auto
  moreover have "(case find_first_not_of ?view ?g (Some (Suc (length k + length bef))) of
      None \<Rightarrow> [] | Some i \<Rightarrow> drop i ?view) = v"
  proof (cases v)
    case Nil
    then show ?thesis
      using find_first_none [of aft ?g "k @ bef @ [CHR ''='']"] gaps(2) by auto
  next
    case (Cons c u)
    then show ?thesis
      using find_first_split [of aft ?g c "k @ bef @ [CHR ''='']" u] gaps(2) v by auto
  qed
  moreover have "view_at ?view (Some (length k + length bef)) = Inr (CHR ''='')"
    by (simp add: view_at_def nth_append)
  ultimately show ?thesis
    by (simp add: parse_pair_def substr_def Let_def split: option.split)
qed

text \<open>The state of the specification that belongs to a state of the parser, and the success of a result.\<close>

definition abs_state :: "string \<times> config_map \<Rightarrow> string \<times> config_values" where
  "abs_state st = (fst st, abs_map (snd st))"

definition success :: "'a res \<Rightarrow> 'a option" where
  "success r = (case r of Inl _ \<Rightarrow> None | Inr x \<Rightarrow> Some x)"

lemma success_simps [simp]: "success (Inr x) = Some x" "success (Inl e) = None"
  by (simp_all add: success_def)

lemma success_and_then: "success (and_then r f) = (case success r of None \<Rightarrow> None | Some x \<Rightarrow> success (f x))"
  by (cases r) simp_all

lemma abs_map_put: "abs_map (smap_put s kvs m) = (abs_map m)(s \<mapsto> map_of kvs)"
  by (auto simp: abs_map_def fun_eq_iff)

lemma success_read_value: "success (read_value n line v old) = read_as old v"
  by (cases old) (simp_all add: read_value_def read_as_def split: option.split)

text \<open>A pair without a value ends with the equal sign, and the gap after it belongs to the end of the line.\<close>

lemma parse_line_entry:
  assumes "item_ok (Entry k bef aft v w)"
  shows "\<exists>line. parse_line n (item_text (Entry k bef aft v w)) (sect, m) =
    (case map_of (section_of m sect) k of
       None \<Rightarrow> Inl (Config_error ''unknown key name'' n line)
     | Some old \<Rightarrow> and_then (read_value n line v old) (\<lambda>new.
         Inr (sect, smap_put sect (smap_put k new (section_of m sect)) m)))"
proof -
  have *: "\<exists>line. parse_line n ((k @ bef @ CHR ''='' # aft' @ v) @ w') (sect, m) =
      (case map_of (section_of m sect) k of
         None \<Rightarrow> Inl (Config_error ''unknown key name'' n line)
       | Some old \<Rightarrow> and_then (read_value n line v old) (\<lambda>new.
           Inr (sect, smap_put sect (smap_put k new (section_of m sect)) m)))"
    if a: "gap aft'" "blank w'" "v = [] \<Longrightarrow> aft' = []" for aft' w'
  proof -
    let ?b = "k @ bef @ CHR ''='' # aft' @ v"
    obtain c u where k: "k = c # u" "c \<in> set valid_chars"
      using assms by (cases k) auto
    have "\<not> blank [last ?b]"
      using assms a(3) by (cases "v = []") auto
    moreover have "hd ?b = c" "\<not> starts_with ?b ''[''"
      using valid_char_facts [OF k(2)] by (simp_all add: k(1) starts_with_def)
    ultimately have "parse_line n (?b @ w') (sect, m) =
        and_then (parse_pair n (?b @ w') ?b sect m) (\<lambda>m'. Inr (sect, m'))"
      using parse_line_trim [of ?b w' n sect m] a(2) valid_char_facts [OF k(2)] by (simp add: k(1))
    moreover have "parse_pair n (?b @ w') ?b sect m =
        (case map_of (section_of m sect) k of
           None \<Rightarrow> Inl (Config_error ''unknown key name'' n (?b @ w'))
         | Some old \<Rightarrow> and_then (read_value n (?b @ w') v old) (\<lambda>new.
             Inr (smap_put sect (smap_put k new (section_of m sect)) m)))"
      using assms a(1) by (intro parse_pair_entry) auto
    moreover have "and_then (and_then r f) g = and_then r (\<lambda>x. and_then (f x) g)"
      for r :: "config_value res" and f :: "config_value \<Rightarrow> config_map res" and g :: "config_map \<Rightarrow> (string \<times> config_map) res"
      by (cases r) simp_all
    ultimately show ?thesis
      by (intro exI [of _ "?b @ w'"]) (simp split: option.split)
  qed
  show ?thesis
  proof (cases "v = []")
    case True
    then show ?thesis
      using * [of "[]" "aft @ w"] assms by auto
  next
    case False
    then show ?thesis
      using * [of aft w] assms by simp
  qed
qed

lemma parse_line_item:
  assumes "item_ok i"
  shows "map_option abs_state (success (parse_line n (item_text i) (sect, m))) = effect i (abs_state (sect, m))"
proof (cases i)
  case (Blank w)
  then have "find_last_not_of w [CHR 0x09, CHR 0x0d, CHR '' ''] = None"
    using assms by (intro find_last_none) auto
  moreover have "\<not> starts_with w ''#''" "\<not> starts_with w '';''"
    using assms Blank by (cases w; auto simp: starts_with_def)+
  ultimately show ?thesis
    by (simp add: Blank parse_line_def)
next
  case (Comment c s)
  then have "starts_with (c # s) ''#'' \<or> starts_with (c # s) '';''"
    using assms by (auto simp: starts_with_def)
  then show ?thesis
    by (auto simp: Comment parse_line_def)
next
  case (Section s w)
  then show ?thesis
    using parse_line_section [of s w n sect m] assms by (simp add: abs_state_def abs_map_def)
next
  case (Entry k bef aft v w)
  obtain line where line: "parse_line n (item_text (Entry k bef aft v w)) (sect, m) =
      (case map_of (section_of m sect) k of
         None \<Rightarrow> Inl (Config_error ''unknown key name'' n line)
       | Some old \<Rightarrow> and_then (read_value n line v old) (\<lambda>new.
           Inr (sect, smap_put sect (smap_put k new (section_of m sect)) m)))"
    using parse_line_entry [OF assms [unfolded Entry]] by blast
  have abs: "abs_map m sect = map_option map_of (map_of m sect)"
    by (simp add: abs_map_def)
  show ?thesis
    unfolding Entry line effect.simps abs_state_def fst_conv snd_conv abs
    by (simp add: section_of_def success_and_then success_read_value abs_map_put option.map_comp
        split: option.split)
qed

lemma parse_lines_items:
  assumes "list_all item_ok items"
  shows "map_option abs_state (success (parse_lines n (map item_text items) st)) = meaning items (abs_state st)"
  using assms
proof (induction items arbitrary: n st)
  case (Cons i items)
  show ?case
    using parse_line_item [of i "n + 1" "fst st" "snd st"] Cons
    by (auto simp: success_and_then split: option.splits)
qed simp

text \<open>The lines of a file, one for each item.\<close>

definition file_text :: "item list \<Rightarrow> string" where
  "file_text items = concat (map (\<lambda>i. item_text i @ [CHR 0x0a]) items)"

lemma no_newline: "set w \<subseteq> set valid_chars \<Longrightarrow> CHR 0x0a \<notin> set w" "blank w \<Longrightarrow> CHR 0x0a \<notin> set w"
    "gap w \<Longrightarrow> CHR 0x0a \<notin> set w"
proof -
  have "CHR 0x0a \<notin> set valid_chars"
    by (simp add: valid_chars_def)
  then show "set w \<subseteq> set valid_chars \<Longrightarrow> CHR 0x0a \<notin> set w" by blast
qed blast+

lemma item_line: "item_ok i \<Longrightarrow> CHR 0x0a \<notin> set (item_text i)"
  by (cases i) (simp_all add: no_newline, blast)

lemma getlines_file: "list_all item_ok items \<Longrightarrow> getlines (file_text items) = map item_text items"
  by (induction items) (simp_all add: file_text_def getlines_line item_line)

subsection \<open>What the parser accepts are items\<close>

lemma find_first_Some:
  assumes "find_first_not_of s cs (Some k) = Some j"
  obtains a x b where "drop k s = a @ x # b" "set a \<subseteq> set cs" "x \<notin> set cs" "j = k + length a"
proof -
  let ?a = "takeWhile (\<lambda>c. c \<in> set cs) (drop k s)" and ?r = "dropWhile (\<lambda>c. c \<in> set cs) (drop k s)"
  have j: "j = k + length ?a" "k + length ?a < length s"
    using assms by (auto simp: find_first_not_of_def Let_def split: if_splits)
  have split: "drop k s = ?a @ ?r"
    by simp
  moreover have "?r \<noteq> []"
  proof
    assume "?r = []"
    with split have "length (drop k s) = length ?a"
      by (metis append_Nil2)
    with j(2) show False by simp
  qed
  moreover from this have "hd ?r \<notin> set cs"
    by (rule hd_dropWhile)
  moreover have "set ?a \<subseteq> set cs"
    by (auto dest: set_takeWhileD)
  ultimately show thesis
    using that [of ?a "hd ?r" "tl ?r"] j(1) by simp
qed

lemma find_first_None:
  assumes "find_first_not_of s cs (Some k) = None"
  shows "set (drop k s) \<subseteq> set cs"
proof (cases "k \<le> length s")
  case True
  let ?a = "takeWhile (\<lambda>c. c \<in> set cs) (drop k s)"
  have "length (drop k s) \<le> length ?a"
    using assms True by (auto simp: find_first_not_of_def Let_def split: if_splits)
  then have "?a = drop k s"
    by (metis dual_order.antisym length_takeWhile_le takeWhile_eq_take take_all)
  then show ?thesis
    by (metis set_takeWhileD subsetI)
qed simp

lemma find_last_None: "find_last_not_of s cs = None \<Longrightarrow> set s \<subseteq> set cs"
proof -
  assume "find_last_not_of s cs = None"
  then have "find_first_not_of (rev s) cs (Some 0) = None"
    by (auto simp: find_last_not_of_def find_first_not_of_def Let_def split: if_splits)
  then show ?thesis
    using find_first_None [of "rev s" cs 0] by simp
qed

lemma find_last_Some:
  assumes "find_last_not_of s cs = Some e"
  obtains b w where "s = b @ w" "substr s 0 (Some (e + 1)) = b" "b \<noteq> []" "last b \<notin> set cs" "set w \<subseteq> set cs"
proof -
  let ?n = "length (takeWhile (\<lambda>c. c \<in> set cs) (rev s))"
  have e: "e = length s - 1 - ?n" "?n < length s"
    using assms by (auto simp: find_last_not_of_def Let_def split: if_splits)
  then have "find_first_not_of (rev s) cs (Some 0) = Some ?n"
    by (simp add: find_first_not_of_def)
  then obtain a x b where ab: "rev s = a @ x # b" "set a \<subseteq> set cs" "x \<notin> set cs" "?n = length a"
    by (rule find_first_Some) simp_all
  have s: "s = (rev b @ [x]) @ rev a"
    using arg_cong [OF ab(1), of rev] by simp
  have "e + 1 = length (rev b @ [x])"
    using e(1) unfolding ab(4) by (simp add: s)
  then have "substr s 0 (Some (e + 1)) = rev b @ [x]"
    by (simp add: substr_def s)
  with s ab(2,3) show thesis
    using that [of "rev b @ [x]" "rev a"] by simp
qed

text \<open>A pair that is accepted, in its parts; without a value nothing follows the equal sign.\<close>

lemma parse_pair_item:
  assumes ok: "parse_pair n line view sect m = Inr m'"
    and view: "view \<noteq> []" "\<not> blank [last view]" and key: "map_of (section_of m sect) [] = None"
  obtains k bef aft v where "view = k @ bef @ CHR ''='' # aft @ v" "k \<noteq> []" "set k \<subseteq> set valid_chars"
    "gap bef" "gap aft" "v \<noteq> [] \<longrightarrow> \<not> gap [hd v] \<and> \<not> blank [last v]"
proof -
  let ?g = "[CHR '' '', CHR 0x09]"
  let ?i = "find_first_not_of view valid_chars (Some 0)"
  let ?j = "find_first_not_of view ?g ?i"
  have eq: "view_at view ?j = Inr (CHR ''='')" and known: "map_of (section_of m sect) (substr view 0 ?i) \<noteq> None"
    using ok by (auto simp: parse_pair_def Let_def and_then_Inr split: if_splits option.splits)
  from eq obtain j where j: "?j = Some j" "j < length view" "view ! j = CHR ''=''"
    by (auto simp: view_at_def split: option.splits if_splits)
  then obtain i where i: "?i = Some i"
    by (cases ?i) (simp_all add: find_first_not_of_def)
  obtain k x y where k: "view = k @ x # y" "set k \<subseteq> set valid_chars" "i = length k"
    using i by (rule find_first_Some) simp_all
  have "substr view 0 (Some i) = k"
    by (simp add: substr_def k(1,3))
  with known key have nonempty: "k \<noteq> []"
    unfolding i by auto
  obtain bef z r where bef: "x # y = bef @ z # r" "set bef \<subseteq> set ?g" "j = length k + length bef"
    using j(1) unfolding i by (rule find_first_Some) (simp_all add: k(1,3))
  have "z = CHR ''=''"
    using j(3) by (simp add: k(1) bef(1,3) nth_append)
  with k(1) bef(1) have v: "view = (k @ bef @ [CHR ''='']) @ r"
    by simp
  obtain aft v where av: "r = aft @ v" "set aft \<subseteq> set ?g" "v \<noteq> [] \<longrightarrow> hd v \<notin> set ?g"
  proof (cases "find_first_not_of r ?g (Some 0)")
    case None
    then show thesis
      using that [of r "[]"] find_first_None [of r ?g 0] by simp
  next
    case (Some q)
    then obtain a c b where "r = a @ c # b" "set a \<subseteq> set ?g" "c \<notin> set ?g"
      by (rule find_first_Some) simp_all
    then show thesis
      using that [of a "c # b"] by simp
  qed
  have "v \<noteq> [] \<longrightarrow> \<not> blank [last v]"
    using view(2) by (cases "v = []") (auto simp: v av(1))
  then show thesis
    using that [of k bef aft v] nonempty k(2) bef(2) av(2,3) by (auto simp: v av(1))
qed

text \<open>A line that is accepted is the text of an item.\<close>

lemma parse_line_accepts:
  assumes ok: "parse_line n line (sect, m) = Inr st'"
    and line: "CHR 0x0a \<notin> set line" and key: "map_of (section_of m sect) [] = None"
  shows "\<exists>i. item_ok i \<and> item_text i = line"
proof (cases "find_last_not_of line [CHR 0x09, CHR 0x0d, CHR '' '']")
  case None
  then have "blank line"
    using find_last_None [OF None] by auto
  then show ?thesis
    by (intro exI [of _ "Blank line"]) simp
next
  case (Some e)
  then obtain b w where b: "line = b @ w" "substr line 0 (Some (e + 1)) = b" "b \<noteq> []" "\<not> blank [last b]" "blank w"
    by (rule find_last_Some) simp_all
  show ?thesis
  proof (cases "hd b = CHR ''#'' \<or> hd b = CHR '';''")
    case True
    then show ?thesis
      using b(1,3) line by (intro exI [of _ "Comment (hd b) (tl b @ w)"]) (cases b; auto)
  next
    case no_comment: False
    have parsed: "parse_line n (b @ w) (sect, m) =
      (if starts_with b ''['' \<and> ends_with b '']''
       then and_then (parse_section n (b @ w) b m) (\<lambda>s. Inr (s, m))
       else and_then (parse_pair n (b @ w) b sect m) (\<lambda>m'. Inr (sect, m')))"
      using no_comment b by (intro parse_line_trim) auto
    show ?thesis
    proof (cases "starts_with b ''['' \<and> ends_with b '']''")
      case True
      then obtain c where c: "b = CHR ''['' # c"
        by (cases b) (auto simp: starts_with_def)
      have "last b = CHR '']''"
        using True b(3) by (auto simp: ends_with_def drop_Suc last_drop split: if_splits)
          (metis last_ConsL last_drop One_nat_def diff_less length_greater_0_conv zero_less_one)
      then obtain s where s: "b = CHR ''['' # s @ [CHR '']'']"
        using c by (cases c rule: rev_cases) auto
      have "find_first_not_of s valid_chars (Some 0) = None"
        using ok True unfolding b(1) parsed by (auto simp: parse_section_def s substr_def and_then_Inr split: if_splits)
      then have "set s \<subseteq> set valid_chars"
        using find_first_None [of s valid_chars 0] by simp
      then show ?thesis
        using b(5) by (intro exI [of _ "Section s w"]) (simp add: b(1) s)
    next
      case False
      then obtain m' where "parse_pair n (b @ w) b sect m = Inr m'"
        using ok unfolding b(1) parsed by (auto simp: and_then_Inr)
      then obtain k bef aft v where "b = k @ bef @ CHR ''='' # aft @ v" "k \<noteq> []" "set k \<subseteq> set valid_chars"
        "gap bef" "gap aft" "v \<noteq> [] \<longrightarrow> \<not> gap [hd v] \<and> \<not> blank [last v]"
        using b(3,4) key by (rule parse_pair_item)
      then show ?thesis
        using b(5) line by (intro exI [of _ "Entry k bef aft v w"]) (simp add: b(1))
    qed
  qed
qed

lemma no_empty_key:
  assumes "kinds m = kinds default_map"
  shows "map_of (section_of m s) [] = None"
proof -
  have "kinds default_map s [] = None"
    by (simp add: kinds_def section_of_def default_map_eq)
  then have "kinds m s [] = None"
    by (simp add: assms)
  then show ?thesis
    by (simp add: kinds_def)
qed

lemma parse_lines_accepts:
  "parse_lines n ls st = Inr st' \<Longrightarrow> \<forall>l \<in> set ls. CHR 0x0a \<notin> set l \<Longrightarrow> kinds (snd st) = kinds default_map \<Longrightarrow>
   \<exists>items. list_all item_ok items \<and> map item_text items = ls"
proof (induction ls arbitrary: n st)
  case (Cons l ls)
  then obtain st1 where st1: "parse_line (n + 1) l st = Inr st1" "parse_lines (n + 1) ls st1 = Inr st'"
    by (auto simp: and_then_Inr)
  from st1(1) Cons.prems obtain i where "item_ok i" "item_text i = l"
    using parse_line_accepts [of "n + 1" l "fst st" "snd st" st1] no_empty_key [of "snd st"] by auto
  moreover have "kinds (snd st1) = kinds default_map"
    using parse_line_kinds [OF st1(1)] Cons.prems(3) by simp
  then obtain items where "list_all item_ok items" "map item_text items = ls"
    using Cons.IH [OF st1(2)] Cons.prems(2) by auto
  ultimately show ?case
    by (intro exI [of _ "i # items"]) simp
qed simp

lemma getlines_no_newline: "l \<in> set (getlines s) \<Longrightarrow> CHR 0x0a \<notin> set l"
  by (induction s arbitrary: l rule: getlines.induct) (auto split: if_splits list.splits)

subsection \<open>Errors\<close>

lemma find_first_bound: "find_first_not_of s cs off = Some k \<Longrightarrow> k < length s"
  by (auto simp: find_first_not_of_def Let_def split: option.splits if_splits)

lemma view_at_find: "view_at view (find_first_not_of view cs off) = Inl e \<Longrightarrow> e = Undefined ''view[npos]''"
  by (auto simp: view_at_def dest: find_first_bound split: option.splits if_splits)

definition line_error :: "int \<Rightarrow> string \<Rightarrow> exc \<Rightarrow> bool" where
  "line_error n line e \<longleftrightarrow> (\<exists>msg. e = Config_error msg n line) \<or> e = Undefined ''view[npos]''"

lemma read_value_error: "read_value n line v old = Inl e \<Longrightarrow> line_error n line e"
  by (auto simp: read_value_def line_error_def split: config_value.splits option.splits)

lemma parse_pair_error: "parse_pair n line view sect m = Inl e \<Longrightarrow> line_error n line e"
  by (auto simp: parse_pair_def Let_def and_then_Inl dest!: view_at_find dest: read_value_error
      split: if_splits option.splits) (auto simp: line_error_def)

lemma parse_line_error: "parse_line n line st = Inl e \<Longrightarrow> line_error n line e"
  by (auto simp: parse_line_def parse_section_def Let_def and_then_Inl dest: parse_pair_error
      split: prod.splits if_splits option.splits) (auto simp: line_error_def)

lemma parse_lines_error:
  "parse_lines n ls st = Inl e \<Longrightarrow>
   \<exists>i st'. i < length ls \<and> parse_lines n (take i ls) st = Inr st' \<and>
     parse_line (n + int i + 1) (ls ! i) st' = Inl e"
proof (induction ls arbitrary: n st)
  case (Cons l ls)
  from Cons.prems consider "parse_line (n + 1) l st = Inl e"
    | st1 where "parse_line (n + 1) l st = Inr st1" "parse_lines (n + 1) ls st1 = Inl e"
    by (auto simp: and_then_Inl)
  then show ?case
  proof cases
    case 1
    then show ?thesis by (intro exI [of _ 0]) simp
  next
    case 2
    from Cons.IH [OF 2(2)] obtain i st' where "i < length ls" "parse_lines (n + 1) (take i ls) st1 = Inr st'"
      "parse_line (n + 1 + int i + 1) (ls ! i) st' = Inl e"
      by blast
    with 2(1) show ?thesis
      by (intro exI [of _ "Suc i"] exI [of _ st']) (simp add: add_ac)
  qed
qed simp

lemma parse_ok:
  assumes "parse_lines 0 (getlines text) ([], default_map) = Inr (s, m)"
  shows "\<exists>cfg. parse text = Inr cfg \<and> cfg_map cfg = m \<and> load_members m = Inr cfg \<and> kinds m = kinds default_map"
  using parse_lines_kinds [OF assms] load_members_ok [of m] by (auto simp: parse_def assms)

text \<open>A line with a key and nothing behind it.\<close>

lemma parse_line_key_only:
  assumes "k \<noteq> []" "set k \<subseteq> set valid_chars" "blank w"
  shows "parse_line n (k @ w) (sect, m) = Inl (Undefined ''view[npos]'')"
proof -
  obtain c u where k: "k = c # u" "c \<in> set valid_chars"
    using assms(1,2) by (cases k) auto
  have "last k \<in> set valid_chars"
    using assms(1,2) by auto
  then have "\<not> blank [last k]"
    using valid_char_facts [of "last k"] by auto
  moreover have "\<not> starts_with k ''[''"
    using valid_char_facts [OF k(2)] by (simp add: k(1) starts_with_def)
  moreover have "hd k \<noteq> CHR ''#''" "hd k \<noteq> CHR '';''"
    using valid_char_facts [OF k(2)] by (simp_all add: k(1))
  ultimately have "parse_line n (k @ w) (sect, m) = and_then (parse_pair n (k @ w) k sect m) (\<lambda>m'. Inr (sect, m'))"
    using parse_line_trim [of k w n sect m] assms(1,3) by simp
  moreover have "find_first_not_of k valid_chars (Some 0) = None"
    using find_first_none [OF assms(2), of "[]"] by simp
  moreover have "find_first_not_of k cs None = None" for cs
    by (simp add: find_first_not_of_def)
  ultimately show ?thesis
    by (simp add: parse_pair_def view_at_def)
qed

lemma getlines_file_append: "list_all item_ok items \<Longrightarrow> getlines (file_text items @ s) = map item_text items @ getlines s"
  by (induction items) (simp_all add: file_text_def getlines_line item_line)

lemma parse_lines_append:
  "parse_lines n (ls @ ls') st = and_then (parse_lines n ls st) (\<lambda>st'. parse_lines (n + int (length ls)) ls' st')"
proof (induction ls arbitrary: n st)
  case (Cons l ls)
  show ?case
    by (cases "parse_line (n + 1) l st") (simp_all add: Cons add_ac)
qed simp

subsection \<open>The log does not show the credentials\<close>

text \<open>The keys of both levels are in strictly increasing order, as in every \<open>std::map\<close>.\<close>

definition ordered :: "(string \<times> 'v) list \<Rightarrow> bool" where
  "ordered m \<longleftrightarrow> sorted_wrt (<) (map fst m)"

definition well_ordered :: "config_map \<Rightarrow> bool" where
  "well_ordered m \<longleftrightarrow> ordered m \<and> (\<forall>kvs \<in> snd ` set m. ordered kvs)"

lemma keys_smap_put: "fst ` set (smap_put k v m) = insert k (fst ` set m)"
  by (induction k v m rule: smap_put.induct) auto

lemma elems_smap_put: "snd ` set (smap_put k v m) \<subseteq> insert v (snd ` set m)"
  by (induction k v m rule: smap_put.induct) auto

lemma ordered_smap_put: "ordered m \<Longrightarrow> ordered (smap_put k v m)"
proof (induction k v m rule: smap_put.induct)
  case (2 k v a b m)
  then show ?case
    using keys_smap_put [of k v m] by (auto simp: ordered_def image_def)
qed (simp add: ordered_def)

lemma ordered_section_of: "well_ordered m \<Longrightarrow> ordered (section_of m s)"
  by (force simp: well_ordered_def section_of_def ordered_def split: option.split dest: map_of_SomeD)

lemma well_ordered_put:
  assumes "well_ordered m"
  shows "well_ordered (smap_put s (smap_put k v (section_of m s)) m)"
  unfolding well_ordered_def
proof (intro conjI ballI)
  show "ordered (smap_put s (smap_put k v (section_of m s)) m)"
    using assms by (intro ordered_smap_put) (simp add: well_ordered_def)
next
  fix kvs
  assume "kvs \<in> snd ` set (smap_put s (smap_put k v (section_of m s)) m)"
  then have "kvs = smap_put k v (section_of m s) \<or> kvs \<in> snd ` set m"
    by (rule elems_smap_put [THEN subsetD, unfolded insert_iff])
  then show "ordered kvs"
    using assms ordered_smap_put [OF ordered_section_of [OF assms]] by (auto simp: well_ordered_def)
qed

lemma parse_line_ordered: "parse_line n line st = Inr st' \<Longrightarrow> well_ordered (snd st) \<Longrightarrow> well_ordered (snd st')"
  by (auto simp: parse_line_def parse_pair_def Let_def and_then_Inr intro: well_ordered_put
      split: prod.splits if_splits option.splits)

lemma parse_lines_ordered:
  "parse_lines n ls st = Inr st' \<Longrightarrow> well_ordered (snd st) \<Longrightarrow> well_ordered (snd st')"
  by (induction n ls st rule: parse_lines.induct) (auto simp: and_then_Inr dest: parse_line_ordered)

lemma default_ordered: "well_ordered default_map"
  unfolding default_map_eq by code_simp

text \<open>The values without the credentials, and the object of all values.\<close>

definition public_value :: "string \<Rightarrow> string \<Rightarrow> config_value \<Rightarrow> config_value" where
  "public_value s k v =
     (if s = ''mqtt'' \<and> (k = ''user'' \<or> k = ''password'') \<and> v \<noteq> VStr [] then VStr ''***REDACTED***'' else v)"

definition public_map :: "config_map \<Rightarrow> config_map" where
  "public_map m = map (\<lambda>(s, kvs). (s, map (\<lambda>(k, v). (k, public_value s k v)) kvs)) m"

definition map_json :: "config_map \<Rightarrow> json" where
  "map_json m = JObject (map (\<lambda>(s, kvs). (s, JObject (map (\<lambda>(k, v). (k, value_json v)) kvs))) m)"

lemma ordered_distinct: "ordered m \<Longrightarrow> distinct (map fst m)"
  by (simp add: ordered_def strict_sorted_iff)

lemma cell_member:
  assumes "well_ordered m" "(s, kvs) \<in> set m" "(k, v) \<in> set kvs"
  shows "cell m s k = v"
proof -
  have "ordered m" "ordered kvs"
    using assms by (force simp: well_ordered_def)+
  then have "map_of m s = Some kvs" "map_of kvs k = Some v"
    using assms(2,3) by (simp_all add: ordered_distinct)
  then show ?thesis
    by (simp add: cell_def section_of_def)
qed

lemma parsed:
  assumes "parse text = Inr cfg"
  shows "load_members (cfg_map cfg) = Inr cfg" "kinds (cfg_map cfg) = kinds default_map" "well_ordered (cfg_map cfg)"
proof -
  obtain s m where p: "parse_lines 0 (getlines text) ([], default_map) = Inr (s, m)" "load_members m = Inr cfg"
    using assms by (auto simp: parse_def and_then_Inr)
  from parse_ok [OF p(1)] p(2) have m: "cfg_map cfg = m" "kinds m = kinds default_map"
    by (auto simp: assms)
  then show "load_members (cfg_map cfg) = Inr cfg" "kinds (cfg_map cfg) = kinds default_map"
    using p(2) by simp_all
  show "well_ordered (cfg_map cfg)"
    using parse_lines_ordered [OF p(1)] default_ordered m(1) by simp
qed

lemma loaded_credentials:
  assumes "load_members m = Inr cfg"
  shows "cell m ''mqtt'' ''user'' = VStr (mqtt_user (cfg_mqtt cfg))"
    "cell m ''mqtt'' ''password'' = VStr (mqtt_password (cfg_mqtt cfg))"
  using assms by (auto simp: load_members_def load_mqtt_def and_then_Inr get_str_def split: config_value.splits)

lemma to_json_public:
  assumes "parse text = Inr cfg"
  shows "to_json cfg = map_json (public_map (cfg_map cfg))"
proof -
  note c = loaded_credentials [OF parsed(1) [OF assms]]
  have "entry_json cfg s (k, v) = (k, value_json (public_value s k v))"
    if "(s, kvs) \<in> set (cfg_map cfg)" "(k, v) \<in> set kvs" for s kvs k v
    using cell_member [OF parsed(3) [OF assms] that] c by (auto simp: entry_json_def public_value_def)
  then show ?thesis
    by (auto simp: to_json_def map_json_def public_map_def)
qed

subsection \<open>Properties\<close>

text \<open>The file of the witnesses: a comment, a section, and pairs in various layouts.\<close>

definition sample_items :: "item list" where
  "sample_items =
     [Comment CHR ''#'' '' broker'', Blank '' '', Section ''mqtt'' '' '',
      Entry ''port'' '' '' '' '' ''1884'' [CHR 0x0d], Entry ''user'' '''' '''' ''joe'' '''',
      Section ''rx'' '''', Entry ''antenna'' '''' '' '' '''' '''']"

lemma sample_items_ok: "list_all item_ok sample_items"
  by (simp add: sample_items_def valid_chars_def)

text \<open>
  C25. The parser gives every text its meaning: parsing succeeds with the values \<open>M\<close> exactly when
  each line of the text, as \<open>std::getline\<close> splits it, is blank, a comment, a section header or a
  key-value pair in some layout of white space, every section and key exists and every value has the
  form of its type, and \<open>M\<close> has for each section and key the last value the text gives for it, and
  the default where it gives none. So a line that is none of these, wherever it stands and whether a
  newline ends it or not, makes parsing fail. The typed members are the values of the map.
\<close>

theorem config_meaning:
  "(\<exists>cfg. parse text = Inr cfg \<and> load_members (cfg_map cfg) = Inr cfg \<and> abs_map (cfg_map cfg) = M) =
    text_means text M"
proof
  assume "\<exists>cfg. parse text = Inr cfg \<and> load_members (cfg_map cfg) = Inr cfg \<and> abs_map (cfg_map cfg) = M"
  then obtain cfg where cfg: "parse text = Inr cfg" "abs_map (cfg_map cfg) = M" by blast
  then obtain s m where st: "parse_lines 0 (getlines text) ([], default_map) = Inr (s, m)"
    by (auto simp: parse_def and_then_Inr)
  have m: "cfg_map cfg = m"
    using parse_ok [OF st] cfg(1) by auto
  obtain items where items: "list_all item_ok items" "map item_text items = getlines text"
    using parse_lines_accepts [OF st] getlines_no_newline by auto
  then have "meaning items ([], abs_map default_map) = Some (s, M)"
    using parse_lines_items [OF items(1), of 0 "([], default_map)"] cfg(2) by (simp add: st abs_state_def m)
  then show "text_means text M"
    unfolding text_means_def using items by blast
next
  assume "text_means text M"
  then obtain items s where items: "list_all item_ok items" "map item_text items = getlines text"
    "meaning items ([], abs_map default_map) = Some (s, M)"
    unfolding text_means_def by blast
  then have "map_option abs_state (success (parse_lines 0 (getlines text) ([], default_map))) = Some (s, M)"
    using parse_lines_items [OF items(1), of 0 "([], default_map)"] by (simp add: abs_state_def)
  then obtain m where "parse_lines 0 (getlines text) ([], default_map) = Inr (s, m)" "abs_map m = M"
    by (cases "parse_lines 0 (getlines text) ([], default_map)") (auto simp: abs_state_def)
  with parse_ok [of "text" s m] show "\<exists>cfg. parse text = Inr cfg \<and> load_members (cfg_map cfg) = Inr cfg \<and> abs_map (cfg_map cfg) = M"
    by blast
qed

text \<open>The theorem on a file with a meaning, whose last line has no newline, and on a line that is no pair.\<close>

theorem config_meaning_witness:
  "(\<exists>cfg. parse (file_text sample_items @ ''subdev = A:0'') = Inr cfg \<and>
      Option.bind (abs_map (cfg_map cfg) ''mqtt'') (\<lambda>kvs. kvs ''port'') = Some (VInt 1884) \<and>
      Option.bind (abs_map (cfg_map cfg) ''rx'') (\<lambda>kvs. kvs ''subdev'') = Some (VStr ''A:0'')) \<and>
   (\<nexists>M. text_means ''port 1884'' M)"
proof
  let ?items = "sample_items @ [Entry ''subdev'' '' '' '' '' ''A:0'' '''']"
  have items: "list_all item_ok ?items" "map item_text ?items = getlines (file_text sample_items @ ''subdev = A:0'')"
    using sample_items_ok by (simp_all add: getlines_file_append valid_chars_def)
  have "case meaning ?items ([], abs_map default_map) of None \<Rightarrow> False
    | Some (s, M) \<Rightarrow> Option.bind (M ''mqtt'') (\<lambda>kvs. kvs ''port'') = Some (VInt 1884) \<and>
        Option.bind (M ''rx'') (\<lambda>kvs. kvs ''subdev'') = Some (VStr ''A:0'')"
    by code_simp
  then obtain s M where M: "meaning ?items ([], abs_map default_map) = Some (s, M)"
      "Option.bind (M ''mqtt'') (\<lambda>kvs. kvs ''port'') = Some (VInt 1884)"
      "Option.bind (M ''rx'') (\<lambda>kvs. kvs ''subdev'') = Some (VStr ''A:0'')"
    by (auto split: option.splits)
  then have "text_means (file_text sample_items @ ''subdev = A:0'') M"
    unfolding text_means_def using items by blast
  then show "\<exists>cfg. parse (file_text sample_items @ ''subdev = A:0'') = Inr cfg \<and>
      Option.bind (abs_map (cfg_map cfg) ''mqtt'') (\<lambda>kvs. kvs ''port'') = Some (VInt 1884) \<and>
      Option.bind (abs_map (cfg_map cfg) ''rx'') (\<lambda>kvs. kvs ''subdev'') = Some (VStr ''A:0'')"
    using M(2,3) unfolding config_meaning [symmetric] by blast
next
  have "parse ''port 1884'' = Inl (Config_error ''not a key value pair'' 1 ''port 1884'')"
    by code_simp
  then show "\<nexists>M. text_means ''port 1884'' M"
    unfolding config_meaning [symmetric] by simp
qed

text \<open>
  C26. Parsing any text keeps the type of every value, so the copy into the typed members never
  throws, and a failure is reported for the first line that cannot be read, with its number and
  its text; the only other outcome is the read past the end of a line that has a key only.
\<close>

theorem config_types:
  "case parse text of
     Inr cfg \<Rightarrow> kinds (cfg_map cfg) = kinds default_map \<and> well_ordered (cfg_map cfg)
   | Inl e \<Rightarrow> \<exists>i st. i < length (getlines text) \<and>
       parse_lines 0 (take i (getlines text)) ([], default_map) = Inr st \<and>
       ((\<exists>msg. e = Config_error msg (int i + 1) (getlines text ! i)) \<or> e = Undefined ''view[npos]'')"
proof (cases "parse text")
  case (Inr cfg)
  then show ?thesis using parsed(2,3) by simp
next
  case (Inl e)
  have "parse_lines 0 (getlines text) ([], default_map) = Inl e"
    using Inl parse_ok [of "text"] by (auto simp: parse_def and_then_Inl)
  from parse_lines_error [OF this] show ?thesis
    using parse_line_error by (fastforce simp: Inl line_error_def add_ac)
qed

text \<open>
  C27. The JSON object of the configuration, which goes to the log file, does not depend on the
  broker's user name and password beyond whether they are empty: two configurations that agree
  otherwise have the same text.
\<close>

theorem config_redacted:
  assumes "parse text1 = Inr cfg1" "parse text2 = Inr cfg2"
    and "public_map (cfg_map cfg1) = public_map (cfg_map cfg2)"
  shows "dump (to_json cfg1) = dump (to_json cfg2)"
  using assms(3) by (simp add: to_json_public [OF assms(1)] to_json_public [OF assms(2)])

theorem config_redacted_witness:
  "\<exists>cfg1 cfg2. parse (file_text [Section ''mqtt'' '''', Entry ''user'' '''' '''' ''joe'' '''']) = Inr cfg1 \<and>
     parse (file_text [Section ''mqtt'' '''', Entry ''user'' '''' '''' ''ann'' '''']) = Inr cfg2 \<and>
     cfg_map cfg1 \<noteq> cfg_map cfg2 \<and> dump (to_json cfg1) = dump (to_json cfg2)"
proof -
  let ?t = "\<lambda>u. file_text [Section ''mqtt'' '''', Entry ''user'' '''' '''' u '''']"
  let ?m = "\<lambda>u. smap_put ''mqtt'' (smap_put ''user'' (VStr u) (section_of default_map ''mqtt'')) default_map"
  have p: "parse_lines 0 (getlines (?t ''joe'')) ([], default_map) = Inr (''mqtt'', ?m ''joe'')"
    "parse_lines 0 (getlines (?t ''ann'')) ([], default_map) = Inr (''mqtt'', ?m ''ann'')"
    by code_simp+
  obtain cfg1 cfg2 where c: "parse (?t ''joe'') = Inr cfg1" "cfg_map cfg1 = ?m ''joe''"
      "parse (?t ''ann'') = Inr cfg2" "cfg_map cfg2 = ?m ''ann''"
    using parse_ok [OF p(1)] parse_ok [OF p(2)] by blast
  have "public_map (?m ''joe'') = public_map (?m ''ann'')" "?m ''joe'' \<noteq> ?m ''ann''"
    by code_simp+
  then show ?thesis
    using c config_redacted [OF c(1,3)] by (intro exI [of _ cfg1] exI [of _ cfg2]) simp
qed

text \<open>
  A line that has a key and nothing behind it, after any well-formed lines, makes the parser
  read the view at \<open>npos\<close>, which is outside of it: instead of reporting that the line is no key
  value pair it runs into undefined behaviour.
\<close>

theorem config_key_only:
  assumes "list_all item_ok items" "meaning items ([], abs_map default_map) \<noteq> None"
    and "k \<noteq> []" "set k \<subseteq> set valid_chars" "blank w"
  shows "parse (file_text items @ k @ w) = Inl (Undefined ''view[npos]'')"
proof -
  obtain st where st: "parse_lines 0 (map item_text items) ([], default_map) = Inr st"
    using parse_lines_items [OF assms(1), of 0 "([], default_map)"] assms(2)
    by (cases "parse_lines 0 (map item_text items) ([], default_map)") (auto simp: abs_state_def)
  have "getlines (k @ w) = [k @ w]"
    using assms(3-5) no_newline by (intro getlines_last) auto
  then show ?thesis
    using parse_line_key_only [OF assms(3-5), of _ "fst st" "snd st"]
    by (simp add: parse_def getlines_file_append [OF assms(1)] parse_lines_append st)
qed

theorem config_key_only_witness:
  "parse (file_text [Section ''rx'' ''''] @ ''rate'' @ '' '') = Inl (Undefined ''view[npos]'')"
proof (rule config_key_only)
  show "meaning [Section ''rx'' ''''] ([], abs_map default_map) \<noteq> None"
    by (simp add: abs_map_def default_map_eq)
qed (simp_all add: valid_chars_def)

end
