(* ===== verification/Clock.thy ===== *)
theory Clock
  imports Text
begin

text \<open>
  Time stamps as \<^verbatim>\<open>src/logging.cpp\<close> and \<^verbatim>\<open>src/sync.cpp\<close> print them: the calendar of
  \<open>std::chrono\<close> and the formats \<open>%Y-%m-%dT%H:%M:%S\<close> and \<open>%H:%M:%S\<close> of a time point in nanoseconds,
  microseconds or milliseconds since the epoch. The lemmas show that the calendar is right (the
  day number of a date, the length of its month) and that a printed time stamp can be read back.
\<close>

subsection \<open>The calendar\<close>

text \<open>
  The proleptic Gregorian date of a day number, counted from 1970-01-01. The years are counted
  from March, so that the leap day is the last one: 400, 100, 4 and single years are split off,
  which leaves the day of the year; the months from March have a common formula.
\<close>

definition march_year :: "int \<Rightarrow> int \<times> int" where
  "march_year z =
     (let c4 = z div 146097; r = z mod 146097;
          c1 = min 3 (r div 36524); r1 = r - 36524 * c1;
          q = r1 div 1461; r2 = r1 mod 1461;
          y1 = min 3 (r2 div 365)
      in (400 * c4 + 100 * c1 + 4 * q + y1, r2 - 365 * y1))"

definition march_month :: "int \<Rightarrow> int \<times> int" where
  "march_month doy = (let mp = (5 * doy + 2) div 153 in (mp, doy - (153 * mp + 2) div 5 + 1))"

definition civil :: "int \<Rightarrow> int \<times> int \<times> int" where
  "civil days =
     (let (y, doy) = march_year (days + 719468); (mp, d) = march_month doy;
          m = (if mp < 10 then mp + 3 else mp - 9)
      in (if m \<le> 2 then y + 1 else y, m, d))"

definition leap_year :: "int \<Rightarrow> bool" where
  "leap_year y \<longleftrightarrow> y mod 4 = 0 \<and> (y mod 100 \<noteq> 0 \<or> y mod 400 = 0)"

definition month_days :: "int \<Rightarrow> int \<Rightarrow> int" where
  "month_days y m = (if m = 2 then if leap_year y then 29 else 28
                     else if m \<in> {4, 6, 9, 11} then 30 else 31)"

definition day_number :: "int \<Rightarrow> int \<Rightarrow> int \<Rightarrow> int" where
  "day_number y m d =
     (let y' = (if m \<le> 2 then y - 1 else y); mp = (if m \<le> 2 then m + 9 else m - 3)
      in 365 * y' + y' div 4 - y' div 100 + y' div 400 + (153 * mp + 2) div 5 + d - 1 - 719468)"

text \<open>The year and the day of the year, both counted from March.\<close>

lemma march_year:
  assumes "march_year z = (y, doy)"
  shows "z = 365 * y + y div 4 - y div 100 + y div 400 + doy" "0 \<le> doy" "doy \<le> 365"
    and "doy = 365 \<Longrightarrow> leap_year (y + 1)"
proof -
  define c4 r where "c4 = z div 146097" and "r = z mod 146097"
  define c1 where "c1 = min 3 (r div 36524)"
  define r1 where "r1 = r - 36524 * c1"
  define q r2 where "q = r1 div 1461" and "r2 = r1 mod 1461"
  define y1 where "y1 = min 3 (r2 div 365)"
  have doy_def: "doy = r2 - 365 * y1" and y_def: "y = 400 * c4 + 100 * c1 + 4 * q + y1"
    using assms by (simp_all add: march_year_def Let_def c4_def r_def c1_def r1_def q_def r2_def y1_def)
  have r: "0 \<le> r" "r < 146097" "z = 146097 * c4 + r"
    by (simp_all add: r_def c4_def)
  have c1: "0 \<le> c1" "c1 \<le> 3" "0 \<le> r1" "r1 \<le> 36524" "r = 36524 * c1 + r1" "c1 < 3 \<Longrightarrow> r1 < 36524"
    using r unfolding c1_def r1_def by linarith+
  have q: "0 \<le> q" "q \<le> 24" "0 \<le> r2" "r2 < 1461" "r1 = 1461 * q + r2"
    using c1(3,4) mult_div_mod_eq [of 1461 r1] unfolding q_def r2_def by linarith+
  have y1: "0 \<le> y1" "y1 \<le> 3" "0 \<le> doy" "doy \<le> 365" "r2 = 365 * y1 + doy" "doy = 365 \<Longrightarrow> y1 = 3"
    using q(3,4) unfolding y1_def doy_def by linarith+
  have d: "y div 4 = 100 * c4 + 25 * c1 + q" "y div 100 = 4 * c4 + c1" "y div 400 = c4"
    using c1(1,2) q(1,2) y1(1,2) unfolding y_def by linarith+
  show "z = 365 * y + y div 4 - y div 100 + y div 400 + doy"
    using r(3) c1(5) q(5) y1(5) d y_def by linarith
  show "0 \<le> doy" "doy \<le> 365" by (fact y1(3) y1(4))+
  show "leap_year (y + 1)" if doy: "doy = 365"
  proof -
    have "y1 = 3" using y1(6) doy by simp
    moreover have "q = 24 \<Longrightarrow> c1 = 3"
      using c1 q(5) y1(5) doy \<open>y1 = 3\<close> by linarith
    moreover have "y mod 4 = y1" "y mod 100 = 4 * q + y1" "y mod 400 = 100 * c1 + 4 * q + y1"
      using mult_div_mod_eq [of 4 y] mult_div_mod_eq [of 100 y] mult_div_mod_eq [of 400 y]
      unfolding d by (simp_all add: y_def)
    moreover have succ: "(y + 1) mod k = (if y mod k = k - 1 then 0 else y mod k + 1)" if "0 < k" for k
      using pos_mod_bound [OF that, of y] pos_mod_sign [OF that, of y]
      by (subst mod_add_left_eq [symmetric]) (auto simp: mod_pos_pos_trivial)
    ultimately show ?thesis
      using q(1,2) by (cases "q = 24") (auto simp: leap_year_def succ)
  qed
qed

text \<open>Month and day of a day of the year counted from March.\<close>

lemma march_month:
  assumes "march_month doy = (mp, d)" "0 \<le> doy" "doy \<le> 365"
  shows "0 \<le> mp" "mp \<le> 11" "1 \<le> d" "doy = (153 * mp + 2) div 5 + d - 1"
    and "d \<le> (if mp = 11 then if doy = 365 then 29 else 28 else if mp \<in> {1, 3, 6, 8} then 30 else 31)"
proof -
  have mp_def: "mp = (5 * doy + 2) div 153" and d: "d = doy - (153 * mp + 2) div 5 + 1"
    using assms(1) by (auto simp: march_month_def Let_def)
  show mp: "0 \<le> mp" "mp \<le> 11"
    using assms(2,3) unfolding mp_def by linarith+
  have b: "153 * mp \<le> 5 * doy + 2" "5 * doy + 2 < 153 * mp + 153"
    unfolding mp_def by linarith+
  then show "1 \<le> d" "doy = (153 * mp + 2) div 5 + d - 1"
    unfolding d by linarith+
  have "mp = 0 \<or> mp = 1 \<or> mp = 2 \<or> mp = 3 \<or> mp = 4 \<or> mp = 5 \<or> mp = 6 \<or> mp = 7 \<or> mp = 8 \<or> mp = 9 \<or> mp = 10 \<or> mp = 11"
    using mp by presburger
  then show "d \<le> (if mp = 11 then if doy = 365 then 29 else 28 else if mp \<in> {1, 3, 6, 8} then 30 else 31)"
    using b assms(3) unfolding d by (elim disjE) auto
qed

lemma civil_correct:
  assumes "civil n = (y, m, d)"
  shows "day_number y m d = n" "1 \<le> m" "m \<le> 12" "1 \<le> d" "d \<le> month_days y m"
proof -
  obtain y0 doy where y0: "march_year (n + 719468) = (y0, doy)" by (cases "march_year (n + 719468)")
  obtain mp d0 where mp: "march_month doy = (mp, d0)" by (cases "march_month doy")
  note year = march_year [OF y0]
  note month = march_month [OF mp year(2,3)]
  have m: "m = (if mp < 10 then mp + 3 else mp - 9)" and d: "d = d0"
    and y: "y = (if m \<le> 2 then y0 + 1 else y0)"
    using assms by (auto simp: civil_def Let_def y0 mp)
  have "(if m \<le> 2 then y - 1 else y) = y0" "(if m \<le> 2 then m + 9 else m - 3) = mp"
    using month(1,2) by (auto simp: m y)
  then have "day_number y m d = 365 * y0 + y0 div 4 - y0 div 100 + y0 div 400 + ((153 * mp + 2) div 5 + d - 1) - 719468"
    by (simp add: day_number_def Let_def)
  then show "day_number y m d = n"
    unfolding d using month(4) year(1) by linarith
  show "1 \<le> m" "m \<le> 12"
    using month(1,2) unfolding m by presburger+
  show "1 \<le> d"
    using month(3) by (simp only: d)
  have "mp = m - 3 \<and> 3 \<le> m \<or> mp = m + 9 \<and> m \<le> 2 \<and> y = y0 + 1"
    using month(1,2) by (auto simp: m y)
  then show "d \<le> month_days y m"
    using month(2,5) year(4) by (auto simp: month_days_def d split: if_splits)
qed

subsection \<open>Formats\<close>

text \<open>A number with at least \<open>w\<close> digits (\<open>{:04}\<close>, and the fields of a time).\<close>

definition pad :: "nat \<Rightarrow> nat \<Rightarrow> string" where
  "pad w n = (let s = show_nat n in replicate (w - length s) CHR ''0'' @ s)"

text \<open>
  \<open>%H:%M:%S\<close> of a time point that counts units of \<open>10 ^ - prec\<close> seconds; the seconds have \<open>prec\<close> decimals.
  \<open>%Y-%m-%d\<close> of a day number.
\<close>

definition fmt_hms :: "nat \<Rightarrow> int \<Rightarrow> string" where
  "fmt_hms prec t =
     (let u = 10 ^ prec; r = t mod (86400 * u); s = r div u
      in pad 2 (nat (s div 3600)) @ '':'' @ pad 2 (nat (s div 60 mod 60)) @ '':'' @
         pad 2 (nat (s mod 60)) @ ''.'' @ pad prec (nat (r mod u)))"

definition fmt_ymd :: "int \<Rightarrow> string" where
  "fmt_ymd days =
     (let (y, m, d) = civil days
      in (if y < 0 then ''-'' @ pad 4 (nat (- y)) else pad 4 (nat y)) @ ''-'' @
         pad 2 (nat m) @ ''-'' @ pad 2 (nat d))"

text \<open>The formats of a time point in nanoseconds.\<close>

definition iso_ns :: "int \<Rightarrow> string" where
  "iso_ns ns = fmt_ymd (ns div 86400000000000) @ ''T'' @ fmt_hms 9 ns @ ''Z''"

definition hms_ns :: "int \<Rightarrow> string" where
  "hms_ns ns = fmt_hms 9 ns @ ''Z''"

definition hms_us :: "int \<Rightarrow> string" where
  "hms_us ns = fmt_hms 6 (ns div 1000) @ ''Z''"

definition hms_ms :: "int \<Rightarrow> string" where
  "hms_ms ns = fmt_hms 3 (ns div 1000000) @ ''Z''"

subsection \<open>Reading a time stamp back\<close>

text \<open>The number at an offset, and the time that a time stamp in the format of \<open>iso_ns\<close> denotes.\<close>

definition field :: "nat \<Rightarrow> nat \<Rightarrow> string \<Rightarrow> int" where
  "field off len s = int (read_nat (take len (drop off s)))"

definition read_iso :: "string \<Rightarrow> int" where
  "read_iso s =
     ((day_number (field 0 4 s) (field 5 2 s) (field 8 2 s) * 86400 +
       field 11 2 s * 3600 + field 14 2 s * 60 + field 17 2 s) * 1000000000 + field 20 9 s)"

lemma length_show_nat: "n < 10 ^ Suc w \<Longrightarrow> length (show_nat n) \<le> Suc w"
proof (induction w arbitrary: n)
  case 0
  then show ?case by (simp add: show_nat.simps [of n])
next
  case (Suc w)
  show ?case
  proof (cases "n < 10")
    case True
    then show ?thesis by (simp add: show_nat.simps [of n])
  next
    case False
    have "n div 10 < 10 ^ Suc w"
      using Suc.prems by (simp add: less_mult_imp_div_less)
    with Suc.IH show ?thesis
      using False by (subst show_nat.simps) simp
  qed
qed

lemma length_pad: "n < 10 ^ w \<Longrightarrow> 0 < w \<Longrightarrow> length (pad w n) = w"
  using length_show_nat [of n "w - 1"] by (simp add: pad_def Let_def)

lemma read_zeros: "read_nat (replicate k CHR ''0'' @ s) = read_nat s"
proof -
  have "foldl (\<lambda>a c. 10 * a + digit_val c) 0 (replicate k CHR ''0'') = 0"
    by (induction k) (simp_all add: digit_val_def)
  then show ?thesis
    by (simp add: read_nat_def)
qed

lemma read_pad [simp]: "read_nat (pad w n) = n"
  by (simp add: pad_def read_zeros Let_def)

lemma field_pad:
  assumes "n < 10 ^ w" "0 < w" "length p = k"
  shows "field k w (p @ pad w n @ s) = int n"
  using assms length_pad [OF assms(1,2)] by (simp add: field_def)

lemma civil_year_bound:
  assumes "0 \<le> n" "n < 2900000" "civil n = (y, m, d)"
  shows "0 \<le> y" "y < 10000"
proof -
  note c = civil_correct [OF assms(3)]
  define y' mp where "y' = (if m \<le> 2 then y - 1 else y)" and "mp = (if m \<le> 2 then m + 9 else m - 3)"
  have "0 \<le> mp" "mp \<le> 11" "y' \<le> y" "y \<le> y' + 1"
    using c(2,3) by (auto simp: y'_def mp_def)
  moreover have "d \<le> 31"
    using c(5) by (auto simp: month_days_def split: if_splits)
  moreover have "n = 365 * y' + y' div 4 - y' div 100 + y' div 400 + (153 * mp + 2) div 5 + d - 1 - 719468"
    using c(1) unfolding day_number_def Let_def y'_def [symmetric] mp_def [symmetric] by simp
  ultimately show "0 \<le> y" "y < 10000"
    using assms(1,2) c(4) by linarith+
qed

lemma iso_fields:
  assumes "length Y = 4" "length M = 2" "length D = 2" "length h = 2" "length m = 2" "length s = 2" "length f = 9"
  shows "field 0 4 (Y @ ''-'' @ M @ ''-'' @ D @ ''T'' @ h @ '':'' @ m @ '':'' @ s @ ''.'' @ f @ z) = int (read_nat Y)"
    "field 5 2 (Y @ ''-'' @ M @ ''-'' @ D @ ''T'' @ h @ '':'' @ m @ '':'' @ s @ ''.'' @ f @ z) = int (read_nat M)"
    "field 8 2 (Y @ ''-'' @ M @ ''-'' @ D @ ''T'' @ h @ '':'' @ m @ '':'' @ s @ ''.'' @ f @ z) = int (read_nat D)"
    "field 11 2 (Y @ ''-'' @ M @ ''-'' @ D @ ''T'' @ h @ '':'' @ m @ '':'' @ s @ ''.'' @ f @ z) = int (read_nat h)"
    "field 14 2 (Y @ ''-'' @ M @ ''-'' @ D @ ''T'' @ h @ '':'' @ m @ '':'' @ s @ ''.'' @ f @ z) = int (read_nat m)"
    "field 17 2 (Y @ ''-'' @ M @ ''-'' @ D @ ''T'' @ h @ '':'' @ m @ '':'' @ s @ ''.'' @ f @ z) = int (read_nat s)"
    "field 20 9 (Y @ ''-'' @ M @ ''-'' @ D @ ''T'' @ h @ '':'' @ m @ '':'' @ s @ ''.'' @ f @ z) = int (read_nat f)"
  by (simp_all add: field_def assms)

lemma read_iso_ns:
  assumes "0 \<le> ns" "ns < 2 ^ 63"
  shows "read_iso (iso_ns ns) = ns" "length (iso_ns ns) = 30"
proof -
  define n where "n = ns div 86400000000000"
  define r where "r = ns mod 86400000000000"
  have n: "0 \<le> n" "n < 2900000" and r: "0 \<le> r" "r < 86400000000000" "ns = n * 86400000000000 + r"
    using assms by (simp_all add: n_def r_def)
  obtain y m d where civ: "civil n = (y, m, d)" by (cases "civil n") auto
  note c = civil_correct [OF civ] and y = civil_year_bound [OF n civ]
  have d: "d \<le> 31"
    using c(5) by (auto simp: month_days_def split: if_splits)
  define s where "s = r div 1000000000"
  have s: "0 \<le> s" "s < 86400" "r = s * 1000000000 + r mod 1000000000"
    using r(1,2) by (simp_all add: s_def)
  have "s div 3600 = s div 60 div 60"
    using zdiv_zmult2_eq [of 60 s 60] by simp
  then have u: "s = s div 3600 * 3600 + s div 60 mod 60 * 60 + s mod 60"
    using mult_div_mod_eq [of 60 s] mult_div_mod_eq [of 60 "s div 60"] by linarith
  have h: "0 \<le> s div 3600" "s div 3600 < 24"
    using s(1,2) by linarith+
  let ?Y = "pad 4 (nat y)" and ?M = "pad 2 (nat m)" and ?D = "pad 2 (nat d)"
  let ?h = "pad 2 (nat (s div 3600))" and ?m = "pad 2 (nat (s div 60 mod 60))" and ?s = "pad 2 (nat (s mod 60))"
  let ?f = "pad 9 (nat (r mod 1000000000))"
  have iso: "iso_ns ns = ?Y @ ''-'' @ ?M @ ''-'' @ ?D @ ''T'' @ ?h @ '':'' @ ?m @ '':'' @ ?s @ ''.'' @ ?f @ ''Z''"
    using y(1) by (simp add: iso_ns_def fmt_ymd_def fmt_hms_def Let_def civ flip: n_def r_def s_def)
  have b: "nat y < 10 ^ 4" "nat m < 10 ^ 2" "nat d < 10 ^ 2" "nat (s div 3600) < 10 ^ 2"
    "nat (s div 60 mod 60) < 10 ^ 2" "nat (s mod 60) < 10 ^ 2" "nat (r mod 1000000000) < 10 ^ 9"
    using y c d h by (simp_all add: nat_less_iff)
  note len = b [THEN length_pad, simplified]
  note fields = iso_fields [of ?Y ?M ?D ?h ?m ?s ?f "''Z''", OF len, folded iso, unfolded read_pad]
  have "int (nat y) = y" "int (nat m) = m" "int (nat d) = d" "int (nat (s div 3600)) = s div 3600"
    "int (nat (s div 60 mod 60)) = s div 60 mod 60" "int (nat (s mod 60)) = s mod 60"
    "int (nat (r mod 1000000000)) = r mod 1000000000"
    using y(1) c(2,4) h(1) by simp_all
  then have "read_iso (iso_ns ns) = (day_number y m d * 86400 + s div 3600 * 3600 + s div 60 mod 60 * 60 + s mod 60) * 1000000000 +
      r mod 1000000000"
    unfolding read_iso_def fields by simp
  moreover have "(n * 86400 + a + b + e) * 1000000000 + t = n * 86400000000000 + (s * 1000000000 + t)"
    if "s = a + b + e" for a b e t :: int
    using that by simp
  ultimately show "read_iso (iso_ns ns) = ns"
    using c(1) u s(3) r(3) by metis
  show "length (iso_ns ns) = 30"
    unfolding iso by (simp only: length_append len list.size)
qed

end
