(* ===== verification/Logging.thy ===== *)
theory Logging
  imports Clock Json Mpsc Rx Tx
begin

text \<open>
  The logger of \<^verbatim>\<open>src/logging.hpp\<close> and \<^verbatim>\<open>src/logging.cpp\<close>: the levels, the log entries with the
  text each writes to the console and the object it writes to the log file, the status line, and
  the thread that takes the entries from the queue of \<open>Mpsc\<close>. An entry is the time it was made
  and a payload; the level is a function of the payload, as in the constructors. The main result
  is that the log file holds one line of JSON for every entry, in the order of the queue.
\<close>

subsection \<open>Levels\<close>

text \<open>The levels of \<open>uhd::log::severity_level\<close> in their order, and any other number.\<close>

datatype level = TRACE | DEBUG | INFO | WARN | ERROR | FATAL | OFF | INVAL

fun level_rank :: "level \<Rightarrow> nat" where
  "level_rank TRACE = 0" | "level_rank DEBUG = 1" | "level_rank INFO = 2" | "level_rank WARN = 3"
| "level_rank ERROR = 4" | "level_rank FATAL = 5" | "level_rank OFF = 6" | "level_rank INVAL = 7"

lemma level_rank_inject: "level_rank a = level_rank b \<Longrightarrow> a = b"
  by (cases a; cases b) simp_all

instantiation level :: linorder
begin

definition less_eq_level :: "level \<Rightarrow> level \<Rightarrow> bool" where
  "less_eq_level a b \<longleftrightarrow> level_rank a \<le> level_rank b"

definition less_level :: "level \<Rightarrow> level \<Rightarrow> bool" where
  "less_level a b \<longleftrightarrow> level_rank a < level_rank b"

instance
  by standard (auto simp: less_eq_level_def less_level_def intro: level_rank_inject)

end

fun level_to_string :: "level \<Rightarrow> string" where
  "level_to_string TRACE = ''TRACE''"
| "level_to_string DEBUG = ''DEBUG''"
| "level_to_string INFO = ''INFO''"
| "level_to_string WARN = ''WARN''"
| "level_to_string ERROR = ''ERROR''"
| "level_to_string FATAL = ''FATAL''"
| "level_to_string OFF = ''OFF''"
| "level_to_string INVAL = ''INVAL''"

text \<open>A text in a color of the terminal: the escape character is \<open>1b\<close>.\<close>

definition ansi :: "string \<Rightarrow> string \<Rightarrow> string" where
  "ansi code s = CHR 0x1b # ''['' @ code @ ''m'' @ s @ CHR 0x1b # ''[0m''"

fun level_to_string_color :: "level \<Rightarrow> string" where
  "level_to_string_color TRACE = ansi ''90'' ''TRACE''"
| "level_to_string_color DEBUG = ansi ''90'' ''DEBUG''"
| "level_to_string_color INFO = ansi ''92'' ''INFO''"
| "level_to_string_color WARN = ansi ''93'' ''WARN''"
| "level_to_string_color ERROR = ansi ''91'' ''ERROR''"
| "level_to_string_color FATAL = ansi ''95'' ''FATAL''"
| "level_to_string_color OFF = ''OFF''"
| "level_to_string_color INVAL = ''INVAL''"

fun level_to_string_color_fixed :: "level \<Rightarrow> string" where
  "level_to_string_color_fixed TRACE = ansi ''90'' ''TRACE''"
| "level_to_string_color_fixed DEBUG = ansi ''90'' ''DEBUG''"
| "level_to_string_color_fixed INFO = ansi ''92'' ''INFO'' @ '' ''"
| "level_to_string_color_fixed WARN = ansi ''93'' ''WARN'' @ '' ''"
| "level_to_string_color_fixed ERROR = ansi ''91'' ''ERROR''"
| "level_to_string_color_fixed FATAL = ansi ''95'' ''FATAL''"
| "level_to_string_color_fixed OFF = ''OFF''"
| "level_to_string_color_fixed INVAL = ''INVAL''"

subsection \<open>The entries\<close>

text \<open>A \<open>uhd::time_spec_t\<close>: the full seconds and the fraction.\<close>

type_synonym time_spec = "int \<times> dbl"

text \<open>
  The structures of UHD, with the members that are logged. An event code, error code or stream
  mode that the code does not name comes with its number.
\<close>

record async_metadata =
  am_event_code :: tx_event
  am_number :: int
  am_channel :: u64
  am_has_time_spec :: bool
  am_time_spec :: time_spec
  am_user_payload :: "32 word list"

record rx_metadata =
  rm_error_code :: rx_error
  rm_number :: int
  rm_out_of_sequence :: bool
  rm_start_of_burst :: bool
  rm_end_of_burst :: bool
  rm_has_time_spec :: bool
  rm_time_spec :: time_spec

record tx_metadata =
  tm_start_of_burst :: bool
  tm_end_of_burst :: bool
  tm_has_time_spec :: bool
  tm_time_spec :: time_spec

datatype stream_mode =
    STREAM_MODE_START_CONTINUOUS
  | STREAM_MODE_STOP_CONTINUOUS
  | STREAM_MODE_NUM_SAMPS_AND_DONE
  | STREAM_MODE_NUM_SAMPS_AND_MORE
  | STREAM_MODE_OTHER int

record stream_cmd =
  sc_stream_mode :: stream_mode
  sc_num_samps :: u64
  sc_stream_now :: bool
  sc_time_spec :: time_spec

record tune_result =
  tr_clipped_rf_freq :: dbl
  tr_target_rf_freq :: dbl
  tr_actual_rf_freq :: dbl
  tr_target_dsp_freq :: dbl
  tr_actual_dsp_freq :: dbl

datatype path = RX | TX

text \<open>What the getters of the device return: the channels' settings and the hardware's key-value lists.\<close>

record chan_getters =
  get_num_channels :: nat
  get_antenna :: "nat \<Rightarrow> string"
  get_bandwidth :: "nat \<Rightarrow> dbl"
  get_freq :: "nat \<Rightarrow> dbl"
  get_gain :: "nat \<Rightarrow> dbl"
  get_lo_source :: "nat \<Rightarrow> string"
  get_rate :: "nat \<Rightarrow> dbl"
  get_info :: "nat \<Rightarrow> (string \<times> string) list"

record usrp =
  usrp_rx :: chan_getters
  usrp_tx :: chan_getters
  usrp_mboards :: "(string \<times> string) list list"

record status =
  st_time :: time_spec
  st_rx :: dbl
  st_tx :: dbl
  st_wr :: dbl
  st_wr_queue :: u64
  st_wr_free :: u64

text \<open>An exception is the text of its \<open>what\<close>, or none when it is no \<open>std::exception\<close>.\<close>

datatype payload =
    Misc level string
  | Exception "string option"
  | Exit int
  | RxZeropad u64 u64
  | UhdLogInfo level string string
  | UhdAsyncMetadata async_metadata
  | UhdRxMetadata rx_metadata
  | UhdStreamCmd stream_cmd
  | UhdTuneResult tune_result path u64
  | UhdTxMetadata tx_metadata
  | UsrpHardware usrp
  | UsrpChannels usrp
  | WrOpen string u64 u64

text \<open>The variant of the queue: time stamps are nanoseconds since the epoch.\<close>

datatype log_entry = Null | Status status | Entry int payload

text \<open>The level the constructor gives to the base class.\<close>

fun level_of :: "payload \<Rightarrow> level" where
  "level_of (Misc l msg) = l"
| "level_of (Exception eptr) = ERROR"
| "level_of (Exit code) = (if code = 0 then INFO else FATAL)"
| "level_of (RxZeropad off n) = (if off = 0 then DEBUG else WARN)"
| "level_of (UhdLogInfo verbosity cname msg) = verbosity"
| "level_of (UhdAsyncMetadata m) =
     (if am_event_code m = EVENT_CODE_BURST_ACK \<or> am_event_code m = EVENT_CODE_USER_PAYLOAD
      then DEBUG else ERROR)"
| "level_of (UhdRxMetadata m) = (if rm_error_code m = ERROR_CODE_NONE then DEBUG else ERROR)"
| "level_of (UhdStreamCmd c) = INFO"
| "level_of (UhdTuneResult r p chan) =
     (if deq (tr_clipped_rf_freq r) (tr_target_rf_freq r) \<and>
         deq (tr_actual_rf_freq r) (tr_target_rf_freq r) \<and>
         deq (tr_actual_dsp_freq r) (tr_target_dsp_freq r) then INFO else WARN)"
| "level_of (UhdTxMetadata m) = (if tm_start_of_burst m \<or> tm_end_of_burst m then INFO else DEBUG)"
| "level_of (UsrpHardware u) = INFO"
| "level_of (UsrpChannels u) = INFO"
| "level_of (WrOpen path start_ns off) = INFO"

subsection \<open>Names, times and common members\<close>

text \<open>The names of the codes; the number stands for a code without a name.\<close>

fun event_name :: "tx_event \<Rightarrow> int \<Rightarrow> string" where
  "event_name EVENT_CODE_BURST_ACK n = ''EVENT_CODE_BURST_ACK''"
| "event_name EVENT_CODE_USER_PAYLOAD n = ''EVENT_CODE_USER_PAYLOAD''"
| "event_name EVENT_CODE_SEQ_ERROR n = ''EVENT_CODE_SEQ_ERROR''"
| "event_name EVENT_CODE_SEQ_ERROR_IN_BURST n = ''EVENT_CODE_SEQ_ERROR_IN_BURST''"
| "event_name EVENT_CODE_TIME_ERROR n = ''EVENT_CODE_TIME_ERROR''"
| "event_name EVENT_CODE_UNDERFLOW n = ''EVENT_CODE_UNDERFLOW''"
| "event_name EVENT_CODE_UNDERFLOW_IN_PACKET n = ''EVENT_CODE_UNDERFLOW_IN_PACKET''"
| "event_name EVENT_CODE_OTHER n = ''EVENT_CODE_'' @ show_int n"

definition event_json :: "tx_event \<Rightarrow> int \<Rightarrow> json" where
  "event_json e n = (if e = EVENT_CODE_OTHER then JUint (word_of_int n) else JString (event_name e n))"

fun error_name :: "rx_error \<Rightarrow> int \<Rightarrow> string" where
  "error_name ERROR_CODE_NONE n = ''ERROR_CODE_NONE''"
| "error_name ERROR_CODE_LATE_COMMAND n = ''ERROR_CODE_LATE_COMMAND''"
| "error_name ERROR_CODE_ALIGNMENT n = ''ERROR_CODE_ALIGNMENT''"
| "error_name ERROR_CODE_BAD_PACKET n = ''ERROR_CODE_BAD_PACKET''"
| "error_name ERROR_CODE_BROKEN_CHAIN n = ''ERROR_CODE_BROKEN_CHAIN''"
| "error_name ERROR_CODE_OVERFLOW n = ''ERROR_CODE_OVERFLOW''"
| "error_name ERROR_CODE_TIMEOUT n = ''ERROR_CODE_TIMEOUT''"
| "error_name ERROR_CODE_OTHER n = ''ERROR_CODE_'' @ show_int n"

definition error_json :: "rx_error \<Rightarrow> int \<Rightarrow> json" where
  "error_json e n = (if e = ERROR_CODE_OTHER then JUint (word_of_int n) else JString (error_name e n))"

text \<open>The name of a stream mode on the console, and in the log file.\<close>

fun mode_name :: "stream_cmd \<Rightarrow> string" where
  "mode_name c =
     (case sc_stream_mode c of
        STREAM_MODE_START_CONTINUOUS \<Rightarrow> ''STREAM_MODE_START_CONTINUOUS''
      | STREAM_MODE_STOP_CONTINUOUS \<Rightarrow> ''STREAM_MODE_STOP_CONTINUOUS''
      | STREAM_MODE_NUM_SAMPS_AND_DONE \<Rightarrow>
          ''STREAM_MODE_NUM_SAMPS_AND_DONE ('' @ show_nat (unat (sc_num_samps c)) @ '' samples)''
      | STREAM_MODE_NUM_SAMPS_AND_MORE \<Rightarrow>
          ''STREAM_MODE_NUM_SAMPS_AND_MORE ('' @ show_nat (unat (sc_num_samps c)) @ '' samples)''
      | STREAM_MODE_OTHER n \<Rightarrow> ''STREAM_MODE_'' @ show_int n)"

fun mode_json :: "stream_mode \<Rightarrow> json" where
  "mode_json STREAM_MODE_START_CONTINUOUS = JString ''STREAM_MODE_START_CONTINUOUS''"
| "mode_json STREAM_MODE_STOP_CONTINUOUS = JString ''STREAM_MODE_STOP_CONTINUOUS''"
| "mode_json STREAM_MODE_NUM_SAMPS_AND_DONE = JString ''STREAM_MODE_NUM_SAMPS_AND_DONE''"
| "mode_json STREAM_MODE_NUM_SAMPS_AND_MORE = JString ''STREAM_MODE_NUM_SAMPS_AND_MORE''"
| "mode_json (STREAM_MODE_OTHER n) = JUint (word_of_int n)"

text \<open>The nanoseconds of a time; converting a negative double to \<open>uint64_t\<close> is undefined.\<close>

definition spec_ns :: "time_spec \<Rightarrow> u64 res" where
  "spec_ns ts = (case timespec_to_nsec (fst ts) (snd ts) of
     None \<Rightarrow> Inl (Undefined ''conversion to uint64_t'') | Some ns \<Rightarrow> Inr ns)"

definition time_fields :: "time_spec \<Rightarrow> (string \<times> json) list res" where
  "time_fields ts = and_then (spec_ns ts) (\<lambda>ns.
     Inr [(''time_spec'', JString (iso_ns (sint ns))), (''time_spec_ns'', JUint ns)])"

text \<open>The number of nanoseconds, converted from the signed count of the clock.\<close>

definition time_epoch_ns :: "int \<Rightarrow> u64" where
  "time_epoch_ns t = word_of_int t"

text \<open>The members every entry starts with.\<close>

definition base_fields :: "int \<Rightarrow> level \<Rightarrow> json \<Rightarrow> (string \<times> json) list" where
  "base_fields t lvl ty =
     [(''_time'', JString (iso_ns t)), (''_time_ns'', JUint (time_epoch_ns t)),
      (''_level'', JString (level_to_string lvl)), (''_type'', ty)]"

text \<open>\<open>what\<close> of an exception.\<close>

definition what_of :: "string option \<Rightarrow> string" where
  "what_of e = (case e of None \<Rightarrow> ''Unknown exception'' | Some s \<Rightarrow> s)"

definition tune_fields :: "tune_result \<Rightarrow> (string \<times> json) list" where
  "tune_fields r =
     [(''clipped_rf_freq'', JDouble (tr_clipped_rf_freq r)),
      (''target_rf_freq'', JDouble (tr_target_rf_freq r)),
      (''actual_rf_freq'', JDouble (tr_actual_rf_freq r)),
      (''target_dsp_freq'', JDouble (tr_target_dsp_freq r)),
      (''actual_dsp_freq'', JDouble (tr_actual_dsp_freq r))]"

text \<open>The settings of a channel; \<open>freq\<close> is the getter the code calls for the frequency.\<close>

definition chan_json :: "chan_getters \<Rightarrow> (nat \<Rightarrow> dbl) \<Rightarrow> nat \<Rightarrow> json" where
  "chan_json g freq chan = JObject
     [(''antenna'', JString (get_antenna g chan)), (''bandwidth'', JDouble (get_bandwidth g chan)),
      (''frequency'', JDouble (freq chan)), (''gain'', JDouble (get_gain g chan)),
      (''lo_source'', JString (get_lo_source g chan)), (''rate'', JDouble (get_rate g chan))]"

definition info_json :: "(string \<times> string) list \<Rightarrow> json" where
  "info_json kvs = JObject (map (\<lambda>(k, v). (k, JString v)) kvs)"

definition prefix :: "int \<Rightarrow> level \<Rightarrow> string" where
  "prefix t lvl = hms_us t @ '' '' @ level_to_string_color_fixed lvl"

text \<open>\<open> with time_spec \<close> and the time, where there is one.\<close>

definition with_time :: "bool \<Rightarrow> time_spec \<Rightarrow> string res" where
  "with_time has ts =
     (if has then and_then (spec_ns ts) (\<lambda>ns. Inr ('' with time_spec '' @ hms_ns (sint ns))) else Inr [])"

text \<open>\<open>std::quoted\<close>: quotes and backslashes get a backslash.\<close>

definition quoted :: "string \<Rightarrow> string" where
  "quoted s = CHR 0x22 # concat (map (\<lambda>c. if c = CHR 0x22 \<or> c = CHR 0x5c then [CHR 0x5c, c] else [c]) s) @ [CHR 0x22]"

definition line :: "string \<Rightarrow> string" where
  "line s = s @ [CHR 0x0a]"

subsection \<open>The functions \<open>serialize\<close>\<close>

text \<open>
  One function for each class of entry, with its time: the text for the console and the object for the log
  file. The only way to fail is a time that does not fit into \<open>uint64_t\<close>.
\<close>

type_synonym written = "(string \<times> (string \<times> json) list) res"

definition serialize_Misc :: "int \<Rightarrow> level \<Rightarrow> string \<Rightarrow> written" where
  "serialize_Misc t lvl msg =
     Inr (line (prefix t lvl @ '': '' @ msg), base_fields t lvl JNull @ [(''message'', JString msg)])"

definition serialize_Exception :: "int \<Rightarrow> string option \<Rightarrow> written" where
  "serialize_Exception t e =
     Inr (line (prefix t ERROR @ '': Exception: '' @ what_of e),
          base_fields t ERROR (JString ''exception'') @ [(''what'', JString (what_of e))])"

definition serialize_Exit :: "int \<Rightarrow> int \<Rightarrow> written" where
  "serialize_Exit t code =
     (let lvl = level_of (Exit code)
      in Inr (line (prefix t lvl @
                (if code = 0 then '': Exiting successfully with exit code '' else '': Exiting abnormally with exit code '') @
                show_int code @ ''.''),
              base_fields t lvl (JString ''exit'') @ [(''exit_code'', JInt (word_of_int code))]))"

definition serialize_RxZeropad :: "int \<Rightarrow> u64 \<Rightarrow> u64 \<Rightarrow> written" where
  "serialize_RxZeropad t off n =
     (let lvl = level_of (RxZeropad off n)
      in Inr (line (prefix t lvl @ '': Rx zero padded '' @ show_nat (unat n) @
                '' samples at ring buffer offset '' @ show_nat (unat off) @ '' samples.''),
              base_fields t lvl (JString ''rx_zeropad'') @ [(''offset'', JUint off), (''samples'', JUint n)]))"

definition serialize_UhdLogInfo :: "int \<Rightarrow> level \<Rightarrow> string \<Rightarrow> string \<Rightarrow> written" where
  "serialize_UhdLogInfo t verbosity cname msg =
     Inr (if INFO \<le> verbosity then line (prefix t verbosity @ '': UHD/'' @ cname @ '': '' @ msg) else [],
          base_fields t verbosity (JString ''uhd'') @ [(''component'', JString cname), (''message'', JString msg)])"

definition serialize_UhdAsyncMetadata :: "int \<Rightarrow> async_metadata \<Rightarrow> written" where
  "serialize_UhdAsyncMetadata t m =
     (let lvl = level_of (UhdAsyncMetadata m)
      in and_then (with_time (am_has_time_spec m) (am_time_spec m)) (\<lambda>ts.
         and_then (time_fields (am_time_spec m)) (\<lambda>fs.
         Inr (line (prefix t lvl @ '': Tx received uhd::async_metadata_t::'' @
                event_name (am_event_code m) (am_number m) @ '' on channel '' @ show_nat (unat (am_channel m)) @ ts @ ''.''),
              base_fields t lvl (JString ''uhd::async_metadata_t'') @
              [(''event_code'', event_json (am_event_code m) (am_number m)), (''channel'', JUint (am_channel m)),
               (''has_time_spec'', JBool (am_has_time_spec m))] @ fs @
              [(''user_payload'', JArray (if am_event_code m = EVENT_CODE_USER_PAYLOAD
                 then map (\<lambda>w. JUint (ucast w)) (take 4 (am_user_payload m)) else []))]))))"

definition serialize_UhdRxMetadata :: "int \<Rightarrow> rx_metadata \<Rightarrow> written" where
  "serialize_UhdRxMetadata t m =
     (let lvl = level_of (UhdRxMetadata m)
      in and_then (with_time (rm_has_time_spec m) (rm_time_spec m)) (\<lambda>ts.
         and_then (time_fields (rm_time_spec m)) (\<lambda>fs.
         Inr (line (prefix t lvl @
                (if rm_error_code m = ERROR_CODE_NONE
                 then '': Rx received'' @ (if rm_end_of_burst m then '' end_of_burst'' else '' start_of_burst'')
                 else '': Rx received uhd::rx_metadata_t::'' @ error_name (rm_error_code m) (rm_number m)) @ ts @ ''.''),
              base_fields t lvl (JString ''uhd::rx_metadata_t'') @
              [(''error_code'', error_json (rm_error_code m) (rm_number m)),
               (''out_of_sequence'', JBool (rm_out_of_sequence m)), (''start_of_burst'', JBool (rm_start_of_burst m)),
               (''end_of_burst'', JBool (rm_end_of_burst m)), (''has_time_spec'', JBool (rm_has_time_spec m))] @ fs))))"

definition serialize_UhdStreamCmd :: "int \<Rightarrow> stream_cmd \<Rightarrow> written" where
  "serialize_UhdStreamCmd t c =
     and_then (with_time (\<not> sc_stream_now c) (sc_time_spec c)) (\<lambda>ts.
     and_then (time_fields (sc_time_spec c)) (\<lambda>fs.
     Inr (line (prefix t INFO @ '': Rx sent uhd::stream_cmd_t::'' @ mode_name c @ ts @ ''.''),
          base_fields t INFO (JString ''uhd::rx_stream_cmd_t'') @
          [(''stream_mode'', mode_json (sc_stream_mode c)), (''num_samps'', JUint (sc_num_samps c)),
           (''stream_now'', JBool (sc_stream_now c))] @ fs)))"

definition serialize_UhdTuneResult :: "int \<Rightarrow> tune_result \<Rightarrow> path \<Rightarrow> u64 \<Rightarrow> written" where
  "serialize_UhdTuneResult t r p chan =
     (let lvl = level_of (UhdTuneResult r p chan)
      in Inr (line (prefix t lvl @ (if p = RX then '': Tuned Rx channel '' else '': Tuned Tx channel '') @
                show_nat (unat chan) @ '': '' @ dump (JObject (tune_fields r))),
              base_fields t lvl (JString ''uhd::tune_result_t'') @
              [(''path'', JString (if p = RX then ''rx'' else ''tx'')), (''channel'', JUint chan)] @ tune_fields r))"

definition serialize_UhdTxMetadata :: "int \<Rightarrow> tx_metadata \<Rightarrow> written" where
  "serialize_UhdTxMetadata t m =
     (let lvl = level_of (UhdTxMetadata m); edge = tm_start_of_burst m \<or> tm_end_of_burst m
      in and_then (with_time (edge \<and> tm_has_time_spec m) (tm_time_spec m)) (\<lambda>ts.
         and_then (time_fields (tm_time_spec m)) (\<lambda>fs.
         Inr (if edge
              then line (prefix t lvl @ (if tm_start_of_burst m then '': Tx sent start_of_burst'' else '': Tx sent end_of_burst'') @ ts @ ''.'')
              else [],
              base_fields t lvl (JString ''uhd::tx_metadata_t'') @
              [(''start_of_burst'', JBool (tm_start_of_burst m)), (''end_of_burst'', JBool (tm_end_of_burst m)),
               (''has_time_spec'', JBool (tm_has_time_spec m))] @ fs))))"

text \<open>Both loops of \<open>UsrpChannels\<close> ask for the receive frequency.\<close>

definition serialize_UsrpChannels :: "int \<Rightarrow> usrp \<Rightarrow> written" where
  "serialize_UsrpChannels t u =
     (let rx = usrp_rx u; tx = usrp_tx u;
          chans_rx = map (chan_json rx (get_freq rx)) [0..<get_num_channels rx];
          chans_tx = map (chan_json tx (get_freq rx)) [0..<get_num_channels tx]
      in Inr ([], base_fields t INFO (JString ''channels'') @ [(''rx'', JArray chans_rx), (''tx'', JArray chans_tx)]))"

definition serialize_UsrpHardware :: "int \<Rightarrow> usrp \<Rightarrow> written" where
  "serialize_UsrpHardware t u =
     (let info_mboard = map info_json (usrp_mboards u);
          info_rx = map (\<lambda>chan. info_json (get_info (usrp_rx u) chan)) [0..<get_num_channels (usrp_rx u)];
          info_tx = map (\<lambda>chan. info_json (get_info (usrp_tx u) chan)) [0..<get_num_channels (usrp_tx u)]
      in Inr ([], base_fields t INFO (JString ''hardware'') @
           [(''motherboards'', JArray info_mboard), (''daughterboards_rx'', JArray info_rx),
            (''daughterboards_tx'', JArray info_tx)]))"

definition serialize_WrOpen :: "int \<Rightarrow> string \<Rightarrow> u64 \<Rightarrow> u64 \<Rightarrow> written" where
  "serialize_WrOpen t path start_ns off =
     Inr (line (prefix t INFO @ '': Writing file '' @ quoted path @ '' starting from '' @ hms_ns (sint start_ns) @
            '' (ring buffer offset '' @ show_nat (unat off) @ '' samples).''),
          base_fields t INFO (JString ''wr_open'') @
          [(''file'', JString path), (''time_start'', JString (iso_ns (sint start_ns))),
           (''time_start_ns'', JUint start_ns), (''offset_samples'', JUint off)])"

text \<open>The visitor: every alternative has its function.\<close>

fun write_entry :: "int \<Rightarrow> payload \<Rightarrow> written" where
  "write_entry t (Misc lvl msg) = serialize_Misc t lvl msg"
| "write_entry t (Exception e) = serialize_Exception t e"
| "write_entry t (Exit code) = serialize_Exit t code"
| "write_entry t (RxZeropad off n) = serialize_RxZeropad t off n"
| "write_entry t (UhdLogInfo verbosity cname msg) = serialize_UhdLogInfo t verbosity cname msg"
| "write_entry t (UhdAsyncMetadata m) = serialize_UhdAsyncMetadata t m"
| "write_entry t (UhdRxMetadata m) = serialize_UhdRxMetadata t m"
| "write_entry t (UhdStreamCmd c) = serialize_UhdStreamCmd t c"
| "write_entry t (UhdTuneResult r p chan) = serialize_UhdTuneResult t r p chan"
| "write_entry t (UhdTxMetadata m) = serialize_UhdTxMetadata t m"
| "write_entry t (UsrpHardware u) = serialize_UsrpHardware t u"
| "write_entry t (UsrpChannels u) = serialize_UsrpChannels t u"
| "write_entry t (WrOpen path start_ns off) = serialize_WrOpen t path start_ns off"

lemmas serialize_defs = serialize_Misc_def serialize_Exception_def serialize_Exit_def serialize_RxZeropad_def
  serialize_UhdLogInfo_def serialize_UhdAsyncMetadata_def serialize_UhdRxMetadata_def serialize_UhdStreamCmd_def
  serialize_UhdTuneResult_def serialize_UhdTxMetadata_def serialize_UsrpChannels_def serialize_UsrpHardware_def
  serialize_WrOpen_def

subsection \<open>The status line\<close>

text \<open>
  \<open>{:05.01f}\<close>: one decimal, at least five characters; zeros are filled in after the sign, and blanks
  before an infinity or a NaN.
\<close>

definition fixed1 :: "dbl \<Rightarrow> string" where
  "fixed1 d =
     (case d of
        Fin x \<Rightarrow>
          (let n = nat \<bar>rne (x * 10)\<bar>; sign = (if x < 0 then ''-'' else '''');
               body = show_nat (n div 10) @ ''.'' @ show_nat (n mod 10)
           in sign @ replicate (5 - length sign - length body) CHR ''0'' @ body)
      | Inf neg \<Rightarrow> (if neg then '' -inf'' else ''  inf'')
      | NaN \<Rightarrow> ''  nan'')"

definition status_rx :: "dbl \<Rightarrow> string" where
  "status_rx rx = (if deq rx (Fin (- 1)) then '' rx='' @ ansi ''90'' ''DISABLED'' else '' rx='' @ fixed1 rx)"

definition status_tx :: "dbl \<Rightarrow> string" where
  "status_tx tx =
     (if deq tx (Fin (- 1)) then '' tx='' @ ansi ''90'' ''DISABLED''
      else if deq tx (Fin 0) then '' tx='' @ ansi ''93'' ''MUTED''
      else '' tx='' @ fixed1 tx)"

definition status_wr :: "dbl \<Rightarrow> string" where
  "status_wr wr =
     (if deq wr (Fin (- 1)) then '' wr='' @ ansi ''93'' ''READY''
      else if deq wr (Fin (- 2)) then '' wr='' @ ansi ''91'' ''ERROR''
      else '' wr='' @ fixed1 wr)"

definition status_queue :: "u64 \<Rightarrow> string" where
  "status_queue q =
     (let mib = drop_bit 20 q; s = pad 4 (unat mib) @ ''M''
      in if mib < 64 then '' wr_queue='' @ s
         else if mib < 256 then '' wr_queue='' @ ansi ''93'' s else '' wr_queue='' @ ansi ''91'' s)"

definition status_free :: "u64 \<Rightarrow> string" where
  "status_free f =
     (let gib = drop_bit 30 f; s = pad 4 (unat gib) @ ''G''
      in if 256 < gib then '' wr_free='' @ s
         else if 64 < gib then '' wr_free='' @ ansi ''93'' s else '' wr_free='' @ ansi ''91'' s)"

definition status_line :: "status \<Rightarrow> string res" where
  "status_line s = and_then (spec_ns (st_time s)) (\<lambda>ns.
     let buf = hms_ms (sint ns) @ status_rx (st_rx s) @ status_tx (st_tx s)
     in if dless (st_rx s) (Fin 0) then Inr buf
        else Inr (buf @ status_wr (st_wr s) @ status_queue (st_wr_queue s) @ status_free (st_wr_free s)))"

subsection \<open>The logger\<close>

text \<open>The members, with what was written to the log file and to the console, and the static status line.\<close>

record logger =
  lg_run :: bool
  lg_queue :: "log_entry mpsc"
  lg_file :: string
  lg_console :: string
  lg_status :: string

text \<open>
  The constructor: what \<open>gethostname\<close>, \<open>uname\<close> and opening the file return (a failure is an error
  number), the time in seconds, the path prefix, the commit the binary was built from, and the
  configuration. The result is the path of the log file and the logger.
\<close>

definition log_header :: "string \<Rightarrow> string \<Rightarrow> string \<Rightarrow> string \<Rightarrow> json \<Rightarrow> json list" where
  "log_header git_origin git_hash hostname uname config =
     [JObject [(''_level'', JString ''DEBUG''), (''_type'', JString ''software''),
        (''git_origin'', JString git_origin), (''git_hash'', JString git_hash)],
      JObject [(''_level'', JString ''DEBUG''), (''_type'', JString ''host''),
        (''hostname'', JString hostname), (''uname'', JString uname)],
      JObject [(''_level'', JString ''DEBUG''), (''_type'', JString ''config''), (''config'', config)]]"

definition json_lines :: "json list \<Rightarrow> string" where
  "json_lines objs = concat (map (\<lambda>obj. line (dump obj)) objs)"

definition logger_new ::
  "int + string \<Rightarrow> int + string \<Rightarrow> int option \<Rightarrow> nat \<Rightarrow> string \<Rightarrow> string \<Rightarrow> string \<Rightarrow> json \<Rightarrow> (string \<times> logger) res" where
  "logger_new hostname uname open_error secs path_prefix git_origin git_hash config =
     (case hostname of
        Inl e \<Rightarrow> Inl (Syscall_error ''gethostname() failed'' e)
      | Inr host \<Rightarrow>
          (case uname of
             Inl e \<Rightarrow> Inl (Syscall_error ''uname() failed'' e)
           | Inr un \<Rightarrow>
               (let path = path_prefix @ ''_'' @ show_nat secs @ ''.log''
                in case open_error of
                     Some e \<Rightarrow> Inl (Syscall_error (''error opening log file: '' @ path) e)
                   | None \<Rightarrow>
                       Inr (path, \<lparr>lg_run = True, lg_queue = mpsc_new log_capacity Null,
                         lg_file = json_lines (log_header git_origin git_hash host un config),
                         lg_console = [], lg_status = []\<rparr>))))"

text \<open>\<open>log\<close>, \<open>set_status\<close>, \<open>log_exception\<close>, ...: an entry is pushed; a full queue drops it.\<close>

definition log_push :: "log_entry \<Rightarrow> logger \<Rightarrow> logger" where
  "log_push e lg = lg\<lparr>lg_queue := snd (mpsc_push log_capacity e (lg_queue lg))\<rparr>"

text \<open>One entry written out.\<close>

definition serialize :: "log_entry \<Rightarrow> logger \<Rightarrow> logger res" where
  "serialize e lg =
     (case e of
        Null \<Rightarrow> Inr lg
      | Status s \<Rightarrow> and_then (status_line s) (\<lambda>l. Inr (lg\<lparr>lg_status := l\<rparr>))
      | Entry t p \<Rightarrow> and_then (write_entry t p) (\<lambda>(c, fs).
          Inr (lg\<lparr>lg_console := lg_console lg @ c, lg_file := lg_file lg @ line (dump (JObject fs))\<rparr>)))"

text \<open>
  The loop over the queue: \<open>None\<close> when the fuel runs out, otherwise the exception that ended the loop,
  if any, and the state.
\<close>

fun drain :: "nat \<Rightarrow> logger \<Rightarrow> (exc option \<times> logger) option" where
  "drain 0 lg = None"
| "drain (Suc n) lg =
     (case mpsc_pop log_capacity (lg_queue lg) of
        (None, q) \<Rightarrow> Some (None, lg\<lparr>lg_queue := q\<rparr>)
      | (Some e, q) \<Rightarrow>
          (case serialize e (lg\<lparr>lg_queue := q\<rparr>) of
             Inl x \<Rightarrow> Some (Some x, lg\<lparr>lg_queue := q\<rparr>)
           | Inr lg' \<Rightarrow> drain n lg'))"

definition erase_line :: string where
  "erase_line = CHR 0x1b # ''[2K'' @ [CHR 0x0d]"

definition serialize_messages :: "nat \<Rightarrow> logger \<Rightarrow> (exc option \<times> logger) option" where
  "serialize_messages fuel lg =
     (case mpsc_pop log_capacity (lg_queue lg) of
        (None, q) \<Rightarrow> Some (None, lg\<lparr>lg_queue := q\<rparr>)
      | (Some _, _) \<Rightarrow>
          (case drain fuel lg of
             None \<Rightarrow> None
           | Some (Some x, lg') \<Rightarrow> Some (Some x, lg')
           | Some (None, lg') \<Rightarrow>
               Some (None, lg'\<lparr>lg_console := lg_console lg' @ lg_status lg' @ erase_line\<rparr>)))"

text \<open>One turn of the thread, which an exception ends, and the destructor.\<close>

definition logger_turn :: "nat \<Rightarrow> logger \<Rightarrow> logger option" where
  "logger_turn fuel lg =
     (if \<not> lg_run lg then Some lg
      else case serialize_messages fuel lg of
             None \<Rightarrow> None
           | Some (None, lg') \<Rightarrow> Some lg'
           | Some (Some x, lg') \<Rightarrow> Some (lg'\<lparr>lg_run := False\<rparr>))"

definition logger_delete :: "nat \<Rightarrow> logger \<Rightarrow> (exc option \<times> logger) option" where
  "logger_delete fuel lg = serialize_messages fuel (lg\<lparr>lg_run := False\<rparr>)"

subsection \<open>The log file has one line for every entry\<close>

text \<open>The objects of the entries that are logged to the file, where all conversions are defined.\<close>

fun entry_objects :: "log_entry \<Rightarrow> json list" where
  "entry_objects (Entry t p) = (case write_entry t p of Inl e \<Rightarrow> [] | Inr (c, fs) \<Rightarrow> [JObject fs])"
| "entry_objects e = []"

definition log_objects :: "log_entry list \<Rightarrow> json list" where
  "log_objects es = concat (map entry_objects es)"

fun serializable :: "log_entry \<Rightarrow> bool" where
  "serializable Null = True"
| "serializable (Status s) = (\<exists>l. status_line s = Inr l)"
| "serializable (Entry t p) = (\<exists>w. write_entry t p = Inr w)"

lemma serialize_ok:
  assumes "serializable e"
  shows "\<exists>lg'. serialize e lg = Inr lg' \<and> lg_queue lg' = lg_queue lg \<and> lg_run lg' = lg_run lg \<and>
    lg_file lg' = lg_file lg @ json_lines (entry_objects e)"
  using assms by (cases e) (auto simp: serialize_def json_lines_def)

lemma json_lines_append: "json_lines (xs @ ys) = json_lines xs @ json_lines ys"
  by (simp add: json_lines_def)

lemma drain_ok:
  assumes "mpsc_repr log_capacity (lg_queue lg) es" "list_all serializable es" "length es < fuel"
  shows "\<exists>lg'. drain fuel lg = Some (None, lg') \<and> mpsc_repr log_capacity (lg_queue lg') [] \<and>
    lg_run lg' = lg_run lg \<and> lg_file lg' = lg_file lg @ json_lines (log_objects es)"
  using assms
proof (induction fuel arbitrary: es lg)
  case (Suc n)
  show ?case
  proof (cases es)
    case Nil
    then have q: "mpsc_repr log_capacity (lg_queue lg) []"
      using Suc.prems(1) by simp
    from Nil show ?thesis
      by (simp add: log_fifo.get_none [OF q] q json_lines_def log_objects_def)
  next
    case (Cons e es')
    obtain q where q: "mpsc_pop log_capacity (lg_queue lg) = (Some e, q)" "mpsc_repr log_capacity q es'"
      using log_fifo.get_some [OF Suc.prems(1) [unfolded Cons]] by blast
    obtain lg1 where lg1: "serialize e (lg\<lparr>lg_queue := q\<rparr>) = Inr lg1" "lg_queue lg1 = q"
      "lg_run lg1 = lg_run lg" "lg_file lg1 = lg_file lg @ json_lines (entry_objects e)"
      using serialize_ok [of e "lg\<lparr>lg_queue := q\<rparr>"] Suc.prems(2) Cons by auto
    have "mpsc_repr log_capacity (lg_queue lg1) es'" "list_all serializable es'" "length es' < n"
      using q(2) lg1(2) Suc.prems(2,3) Cons by simp_all
    from Suc.IH [OF this] show ?thesis
      using lg1 by (auto simp: Cons q(1) log_objects_def json_lines_append)
  qed
qed simp

lemma dump_no_newline: "CHR 0x0a \<notin> set (dump v)"
  using dump_printable [of v] by (auto simp: list_all_iff printable_def)

lemma getlines_json: "getlines (json_lines objs) = map dump objs"
  by (induction objs) (simp_all add: json_lines_def line_def getlines_line dump_no_newline)

text \<open>A log file: some objects, one on each line. \<open>read_log\<close> reads the lines with the JSON grammar.\<close>

definition read_line :: "string \<Rightarrow> jv option" where
  "read_line l = (case parse_value (Suc (length l)) l of Some (v, []) \<Rightarrow> Some v | _ \<Rightarrow> None)"

definition read_log :: "string \<Rightarrow> jv option list" where
  "read_log text = map read_line (getlines text)"

lemma json_dump_read: "json_finite v \<Longrightarrow> parse_value (Suc (length (dump v))) (dump v) = Some (json_view v, [])"
  using parse_dump [of v "Suc (length (dump v))" "[]"] by (simp del: parse_value.simps)

lemma read_log_json: "list_all json_finite objs \<Longrightarrow> read_log (json_lines objs) = map (\<lambda>v. Some (json_view v)) objs"
  unfolding read_log_def getlines_json
  using json_dump_read by (auto simp: list_all_iff read_line_def simp del: parse_value.simps)

text \<open>
  Messages that arrive between two turns of the thread: the queue keeps the first ones that fit.
\<close>

definition log_all :: "log_entry list \<Rightarrow> logger \<Rightarrow> logger" where
  "log_all es lg = fold log_push es lg"

lemma log_all_fields:
  "lg_file (log_all es lg) = lg_file lg" "lg_run (log_all es lg) = lg_run lg"
  "lg_queue (log_all es lg) = fold (\<lambda>x q. snd (mpsc_push log_capacity x q)) es (lg_queue lg)"
  by (induction es arbitrary: lg) (simp_all add: log_all_def log_push_def)

lemma log_turn_ok:
  assumes "mpsc_repr log_capacity (lg_queue lg) []" "list_all serializable (take 1024 es)" "1025 \<le> fuel"
    and "lg_run lg"
  shows "\<exists>lg'. logger_turn fuel (log_all es lg) = Some lg' \<and> lg_run lg' \<and>
    mpsc_repr log_capacity (lg_queue lg') [] \<and>
    lg_file lg' = lg_file lg @ json_lines (log_objects (take 1024 es))"
proof -
  let ?lg = "log_all es lg"
  have q: "mpsc_repr log_capacity (lg_queue ?lg) (take 1024 es)"
    using log_fifo.put_all [OF assms(1), of es] by (simp add: log_all_fields log_capacity_def)
  have len: "length (take 1024 es) < fuel"
    using assms(3) by simp
  obtain lg' where d: "drain fuel ?lg = Some (None, lg')" "mpsc_repr log_capacity (lg_queue lg') []"
    "lg_run lg' = lg_run ?lg" "lg_file lg' = lg_file ?lg @ json_lines (log_objects (take 1024 es))"
    using drain_ok [OF q assms(2) len] by blast
  show ?thesis
  proof (cases "take 1024 es")
    case Nil
    have e: "mpsc_repr log_capacity (lg_queue ?lg) []"
      using q Nil by simp
    have "serialize_messages fuel ?lg = Some (None, ?lg)"
      by (simp add: serialize_messages_def log_fifo.get_none [OF e])
    then have "logger_turn fuel ?lg = Some ?lg"
      using assms(4) by (simp add: logger_turn_def log_all_fields)
    then show ?thesis
      using assms(4) e unfolding Nil by (simp add: log_all_fields(1,2) json_lines_def log_objects_def)
  next
    case (Cons x xs)
    obtain q' where "mpsc_pop log_capacity (lg_queue ?lg) = (Some x, q')"
      using log_fifo.get_some [OF q [unfolded Cons]] by blast
    then show ?thesis
      using d assms(4) by (simp add: logger_turn_def serialize_messages_def log_all_fields)
  qed
qed

subsection \<open>Time and level of an entry\<close>

lemma write_entry_base: "write_entry t p = Inr (c, fs) \<Longrightarrow>
   \<exists>rest. fs = (''_time'', JString (iso_ns t)) # (''_time_ns'', JUint (time_epoch_ns t)) #
     (''_level'', JString (level_to_string (level_of p))) # rest"
  by (cases p) (auto simp: serialize_defs Let_def and_then_Inr base_fields_def)

lemma word_of_time: "0 \<le> t \<Longrightarrow> t < 2 ^ 63 \<Longrightarrow> uint (time_epoch_ns t) = t"
  by (simp add: time_epoch_ns_def uint_word_of_int)

subsection \<open>Properties\<close>

text \<open>
  C29. The log file is complete and readable: after the logger was created, any entries pushed to it
  and one turn of its thread, the lines of the file are the header's three objects and then one
  object for each entry, in the order the entries were pushed (the queue keeps the first 1024), and
  a JSON reader gets every object back.
\<close>

theorem log_file_complete:
  assumes "logger_new hostname uname open_error secs path_prefix git_origin git_hash config = Inr (path, lg)"
    and "list_all serializable (take 1024 es)" "1025 \<le> fuel"
    and "json_finite config" "list_all json_finite (log_objects (take 1024 es))"
  shows "\<exists>lg' header. logger_turn fuel (log_all es lg) = Some lg' \<and> lg_run lg' \<and> length header = 3 \<and>
    getlines (lg_file lg') = map dump (header @ log_objects (take 1024 es)) \<and>
    read_log (lg_file lg') = map (\<lambda>v. Some (json_view v)) (header @ log_objects (take 1024 es))"
proof -
  obtain host un where lg: "lg = \<lparr>lg_run = True, lg_queue = mpsc_new log_capacity Null,
      lg_file = json_lines (log_header git_origin git_hash host un config), lg_console = [], lg_status = []\<rparr>"
    using assms(1) by (auto simp: logger_new_def Let_def split: sum.splits option.splits)
  let ?h = "log_header git_origin git_hash host un config"
  have "mpsc_repr log_capacity (lg_queue lg) []"
    using mpsc_repr_new [OF log_capacity_ok] by (simp add: lg)
  from log_turn_ok [OF this assms(2,3)] obtain lg' where lg': "logger_turn fuel (log_all es lg) = Some lg'"
    "lg_run lg'" "lg_file lg' = json_lines (?h @ log_objects (take 1024 es))"
    by (auto simp: lg json_lines_append)
  have "list_all json_finite (?h @ log_objects (take 1024 es))"
    using assms(4,5) by (simp add: log_header_def)
  from read_log_json [OF this] show ?thesis
    using lg' by (intro exI [of _ lg'] exI [of _ ?h]) (simp add: getlines_json log_header_def)
qed

theorem log_file_complete_witness:
  "\<exists>lg'. logger_turn 1025 (log_all [Entry 5 (Misc INFO ''a''), Null, Entry 9 (Exit 0)]
       (snd (projr (logger_new (Inr ''h'') (Inr ''u'') None 7 ''p'' ''o'' ''c'' JNull)))) = Some lg' \<and>
     lg_run lg' \<and> length (read_log (lg_file lg')) = 5"
proof -
  let ?es = "[Entry 5 (Misc INFO ''a''), Null, Entry 9 (Exit 0)]"
  obtain path lg where lg: "logger_new (Inr ''h'') (Inr ''u'') None 7 ''p'' ''o'' ''c'' JNull = Inr (path, lg)"
    by (simp add: logger_new_def Let_def)
  have "list_all serializable (take 1024 ?es)" "list_all json_finite (log_objects (take 1024 ?es))"
    "length (log_objects (take 1024 ?es)) = 2"
    by (simp_all add: log_objects_def base_fields_def serialize_defs Let_def)
  with log_file_complete [OF lg, of ?es 1025] show ?thesis
    by (auto simp: lg)
qed

text \<open>
  C30. Every object in the log file carries the time of its entry twice, as text and in nanoseconds,
  and the two agree: reading the text gives exactly the nanoseconds since the epoch, for all times
  until 2262; and it carries the level its constructor chose.
\<close>

theorem log_time_readable:
  assumes "0 \<le> t" "t < 2 ^ 63" "write_entry t p = Inr (c, fs)"
  shows "\<exists>s w. map_of fs ''_time'' = Some (JString s) \<and> length s = 30 \<and> read_iso s = t \<and>
    map_of fs ''_time_ns'' = Some (JUint w) \<and> uint w = t \<and>
    map_of fs ''_level'' = Some (JString (level_to_string (level_of p)))"
proof -
  note write_entry_base [OF assms(3)]
  then show ?thesis
    using read_iso_ns [OF assms(1,2)] word_of_time [OF assms(1,2)] by auto
qed

theorem log_time_readable_witness:
  "\<exists>c fs s. write_entry 1700000000123456789 (Exit 1) = Inr (c, fs) \<and> map_of fs ''_time'' = Some (JString s) \<and>
     read_iso s = 1700000000123456789 \<and> map_of fs ''_level'' = Some (JString ''FATAL'')"
proof -
  obtain c fs where fs: "write_entry 1700000000123456789 (Exit 1) = Inr (c, fs)"
    by (simp add: serialize_defs Let_def)
  show ?thesis
    using log_time_readable [OF _ _ fs] fs by auto
qed

end
