(* ===== verification/Sync.thy ===== *)
theory Sync
  imports Logging
begin

text \<open>
  Setting the device's clock, \<^verbatim>\<open>src/sync.hpp\<close> and \<^verbatim>\<open>src/sync.cpp\<close>: the reference oscillator, the
  pulse per second and the host's clock. The operations are functions of what the device's sensors
  and the two host clocks return, one value for each time they are read; the result is the commands
  sent to the device and the messages logged. A loop that polls the device may not end, so the
  operations are partial functions. Here the calls to the device return; \<open>Setup\<close>, which runs the
  operations, also lets them throw. The lemmas show when the polls end, that a pulse gets the
  second it belongs to, and how exactly the host's time is set.
\<close>

subsection \<open>Polling\<close>

text \<open>\<open>while (!sensor.to_bool()) sleep\<close>: the reading that ends it.\<close>

partial_function (option) wait_lock :: "(nat \<Rightarrow> bool) \<Rightarrow> nat \<Rightarrow> nat option" where
  "wait_lock locked n = (if locked n then Some n else wait_lock locked (n + 1))"

definition same_time :: "time_spec \<Rightarrow> time_spec \<Rightarrow> bool" where
  "same_time a b \<longleftrightarrow> fst a = fst b \<and> deq (snd a) (snd b)"

text \<open>
  \<open>wait_pps\<close>: \<open>pps n\<close> is the time of the last pulse at reading \<open>n\<close>, \<open>clock n\<close> the steady clock in
  nanoseconds when reading \<open>n\<close> was compared.
\<close>

partial_function (option) pps_poll ::
  "(nat \<Rightarrow> time_spec) \<Rightarrow> (nat \<Rightarrow> int) \<Rightarrow> int \<Rightarrow> nat \<Rightarrow> time_spec res option" where
  "pps_poll pps clock timeout n =
     (if same_time (pps n) (pps 0)
      then if timeout \<le> clock n then Some (Inl (Generic_error ''Timed out waiting for PPS signal.''))
           else pps_poll pps clock timeout (n + 1)
      else Some (Inr (pps n)))"

definition wait_pps :: "(nat \<Rightarrow> time_spec) \<Rightarrow> (nat \<Rightarrow> int) \<Rightarrow> int \<Rightarrow> time_spec res option" where
  "wait_pps pps clock start = pps_poll pps clock (start + 2000000000) 0"

subsection \<open>The operations\<close>

datatype sync_cmd =
    Set_clock_source string
  | Set_time_source string
  | Set_time_next_pps time_spec
  | Set_time_now time_spec
  | Sync_log string level

text \<open>
  What the operations read, at times after the epoch: the lock sensors, the two waits for a pulse with the steady clock at
  their start, and the system clock in nanoseconds since the epoch.
\<close>

record sync_io =
  si_ref_locked :: "nat \<Rightarrow> bool"
  si_gps_locked :: bool
  si_pps1 :: "nat \<Rightarrow> time_spec"
  si_clock1 :: "nat \<Rightarrow> int"
  si_start1 :: int
  si_now :: int
  si_pps2 :: "nat \<Rightarrow> time_spec"
  si_clock2 :: "nat \<Rightarrow> int"
  si_start2 :: int

definition sync_lock :: "sync_io \<Rightarrow> sync_cmd run" where
  "sync_lock io = map_option (\<lambda>_. (None, [])) (wait_lock (si_ref_locked io) 0)"

definition sync_10mhz :: "sync_io \<Rightarrow> sync_cmd run" where
  "sync_10mhz io = run_then (run_do [Set_clock_source ''external'']) (sync_lock io)"

text \<open>\<open>std::chrono::round\<close> to seconds: the closest one, and the even one of two.\<close>

definition round_seconds :: "int \<Rightarrow> int" where
  "round_seconds ns =
     (let q = ns div 1000000000; r = ns mod 1000000000
      in if 2 * r < 1000000000 then q else if 1000000000 < 2 * r then q + 1
         else if even q then q else q + 1)"

text \<open>The part that \<open>sync_1pps\<close> and \<open>sync_gpsdo\<close> share: set the time at the next pulse.\<close>

definition sync_pulse :: "sync_io \<Rightarrow> string \<Rightarrow> sync_cmd run" where
  "sync_pulse io msg =
     (case wait_pps (si_pps1 io) (si_clock1 io) (si_start1 io) of
        None \<Rightarrow> None
      | Some (Inl e) \<Rightarrow> Some (Some e, [])
      | Some (Inr _) \<Rightarrow>
          (let cmd = Set_time_next_pps (round_seconds (si_now io) + 1, Fin 0)
           in case wait_pps (si_pps2 io) (si_clock2 io) (si_start2 io) of
                None \<Rightarrow> None
              | Some (Inl e) \<Rightarrow> Some (Some e, [cmd])
              | Some (Inr pps) \<Rightarrow>
                  (case spec_ns pps of
                     Inl e \<Rightarrow> Some (Some e, [cmd])
                   | Inr ns \<Rightarrow> Some (None, [cmd, Sync_log (msg @ iso_ns (sint ns)) INFO]))))"

definition sync_1pps :: "sync_io \<Rightarrow> sync_cmd run" where
  "sync_1pps io = run_then (run_do [Set_time_source ''external''])
     (sync_pulse io ''Synchronized USRP to host time and external PPS: '')"

definition sync_host :: "sync_io \<Rightarrow> sync_cmd run" where
  "sync_host io =
     (let secs = si_now io div 1000000000; ns = si_now io mod 1000000000
      in run_do [Set_time_now (secs, dmul (of_integer ns) (mkd (1 / 1000000000))),
                  Sync_log (''Synchronized USRP to host time: '' @ iso_ns (si_now io)) INFO])"

definition sync_gpsdo :: "sync_io \<Rightarrow> sync_cmd run" where
  "sync_gpsdo io =
     run_then (run_do [Set_clock_source ''gpsdo'', Set_time_source ''gpsdo''])
     (run_then (sync_lock io)
     (run_then (run_do (if si_gps_locked io then [] else [Sync_log ''Synchronizing to unlocked GPSDO.'' ERROR]))
       (sync_pulse io ''Synchronized USRP to host time and internal GPSDO PPS: '')))"

subsection \<open>The polls\<close>

lemma wait_lock_first: "\<forall>i. k \<le> i \<and> i < n \<longrightarrow> \<not> locked i \<Longrightarrow> locked n \<Longrightarrow> k \<le> n \<Longrightarrow> wait_lock locked k = Some n"
proof (induction "n - k" arbitrary: k)
  case 0
  then show ?case by (subst wait_lock.simps) auto
next
  case (Suc d)
  then have "\<not> locked k" "wait_lock locked (k + 1) = Some n"
    by simp_all
  then show ?case by (simp add: wait_lock.simps [of _ k])
qed

lemma wait_lock_iff: "(\<exists>n. wait_lock locked 0 = Some n) \<longleftrightarrow> (\<exists>n. locked n)"
proof
  assume "\<exists>n. locked n"
  then obtain n where "locked n" "\<forall>i < n. \<not> locked i"
    by (meson exists_least_iff)
  then show "\<exists>n. wait_lock locked 0 = Some n"
    using wait_lock_first [of 0 n] by blast
next
  have "wait_lock locked k = Some n \<Longrightarrow> locked n" for k n
    by (rule wait_lock.raw_induct [of "\<lambda>l k r. l r"]) (auto split: if_splits)
  then show "\<exists>n. wait_lock locked 0 = Some n \<Longrightarrow> \<exists>n. locked n" by blast
qed

lemma pps_poll_same:
  assumes "\<forall>i. k \<le> i \<and> i < n \<longrightarrow> same_time (pps i) (pps 0) \<and> clock i < timeout" "k \<le> n"
  shows "pps_poll pps clock timeout k = pps_poll pps clock timeout n"
  using assms
proof (induction "n - k" arbitrary: k)
  case (Suc d)
  then have "pps_poll pps clock timeout k = pps_poll pps clock timeout (k + 1)"
    by (subst pps_poll.simps) (auto simp: not_le)
  also have "\<dots> = pps_poll pps clock timeout n"
    using Suc by (intro Suc.hyps) auto
  finally show ?case .
qed simp

lemma wait_pps_cases:
  assumes "\<And>n. start + int n * 1000000 \<le> clock n"
  obtains (pulse) n where "n \<le> 2000" "\<not> same_time (pps n) (pps 0)" "\<forall>i < n. same_time (pps i) (pps 0)"
      "wait_pps pps clock start = Some (Inr (pps n))"
    | (timeout) n where "n \<le> 2000" "start + 2000000000 \<le> clock n" "\<forall>i \<le> n. same_time (pps i) (pps 0)"
      "wait_pps pps clock start = Some (Inl (Generic_error ''Timed out waiting for PPS signal.''))"
proof -
  let ?stop = "\<lambda>n. \<not> same_time (pps n) (pps 0) \<or> start + 2000000000 \<le> clock n"
  have stop: "?stop 2000"
    using assms [of 2000] by simp
  define n where "n = (LEAST n. ?stop n)"
  have n: "?stop n" "\<forall>i < n. \<not> ?stop i" "n \<le> 2000"
    unfolding n_def using LeastI [of ?stop, OF stop] not_less_Least [of _ ?stop] Least_le [of ?stop, OF stop] by blast+
  then have "wait_pps pps clock start = pps_poll pps clock (start + 2000000000) n"
    unfolding wait_pps_def by (intro pps_poll_same) auto
  moreover have "same_time (pps n) (pps 0) \<Longrightarrow> \<forall>i \<le> n. same_time (pps i) (pps 0)"
    using n(2) by (auto simp: le_less)
  ultimately show thesis
    using n that by (cases "same_time (pps n) (pps 0)") (auto simp: pps_poll.simps [of _ _ _ n])
qed

subsection \<open>The second that a pulse gets\<close>

lemma round_seconds_near:
  assumes "2 * \<bar>e\<bar> < 1000000000"
  shows "round_seconds (k * 1000000000 + e) = k"
proof (cases "0 \<le> e")
  case True
  then have "(k * 1000000000 + e) div 1000000000 = k" "(k * 1000000000 + e) mod 1000000000 = e"
    using assms by simp_all
  then show ?thesis using assms True by (simp add: round_seconds_def)
next
  case False
  define f j where "f = e + 1000000000" and "j = k - 1"
  have f: "k * 1000000000 + e = j * 1000000000 + f" "0 \<le> f" "f < 1000000000" "1000000000 < 2 * f"
    using assms False by (simp_all add: f_def j_def)
  have "(j * 1000000000 + f) div 1000000000 = j" "(j * 1000000000 + f) mod 1000000000 = f"
    using f(2,3) by simp_all
  then show ?thesis unfolding f(1) using f(4) by (simp add: round_seconds_def j_def)
qed

definition is_set_time :: "sync_cmd \<Rightarrow> bool" where
  "is_set_time c = (case c of Set_time_next_pps _ \<Rightarrow> True | Set_time_now _ \<Rightarrow> True | _ \<Rightarrow> False)"

lemma sync_pulse_sets:
  assumes "wait_pps (si_pps1 io) (si_clock1 io) (si_start1 io) = Some (Inr t)"
    and "si_now io = k * 1000000000 + e" "2 * \<bar>e\<bar> < 1000000000"
    and "sync_pulse io msg = Some (r, cs)"
  shows "filter is_set_time cs = [Set_time_next_pps (k + 1, Fin 0)]"
  using assms by (auto simp: sync_pulse_def Let_def round_seconds_near is_set_time_def
      split: option.splits sum.splits)

subsection \<open>Properties\<close>

text \<open>
  C33. Waiting for a pulse ends: with a steady clock that advances by at least the millisecond of the
  sleep, \<open>wait_pps\<close> reads the device at most 2001 times, and either returns the first time that
  differs from the one at the start, or throws once two seconds are over and the time never changed.
\<close>

theorem sync_wait_pps_ends:
  assumes "\<And>n. start + int n * 1000000 \<le> clock n"
  shows "\<exists>n. n \<le> 2000 \<and> (\<forall>i < n. same_time (pps i) (pps 0)) \<and>
    (\<not> same_time (pps n) (pps 0) \<and> wait_pps pps clock start = Some (Inr (pps n)) \<or>
     same_time (pps n) (pps 0) \<and> start + 2000000000 \<le> clock n \<and>
     wait_pps pps clock start = Some (Inl (Generic_error ''Timed out waiting for PPS signal.'')))"
  using wait_pps_cases [where pps = pps, OF assms] by (metis order.refl less_imp_le)

theorem sync_wait_pps_ends_witness:
  "wait_pps (\<lambda>n. (if n < 3 then 7 else 8, Fin 0)) (\<lambda>n. 5 + int n * 2000000) 5 = Some (Inr (8, Fin 0))"
proof -
  have "5 + int n * 1000000 \<le> 5 + int n * 2000000" for n
    by simp
  from sync_wait_pps_ends [where clock = "\<lambda>n. 5 + int n * 2000000" and pps = "\<lambda>n. (if n < 3 then 7 else 8, Fin 0)", OF this]
  obtain n where n: "n \<le> 2000" "\<forall>i < n. i < 3"
    "\<not> n < 3 \<and> wait_pps (\<lambda>n. (if n < 3 then 7 else 8, Fin 0)) (\<lambda>n. 5 + int n * 2000000) 5 = Some (Inr (8, Fin 0)) \<or>
     n < 3 \<and> 2000000000 \<le> int n * 2000000"
    by (auto simp: same_time_def deq_def split: if_splits)
  then show ?thesis by auto
qed

text \<open>
  C31. With an external pulse per second, or the GPSDO's, the device gets the time of the next pulse
  exactly, and nothing else sets its clock: if the host's clock, read after pulse \<open>k\<close> was seen, is less
  than half a second away from \<open>k\<close> seconds, the device is told that the next pulse is second \<open>k + 1\<close>.
\<close>

theorem sync_pulse_second:
  assumes "wait_pps (si_pps1 io) (si_clock1 io) (si_start1 io) = Some (Inr t)"
    and "si_now io = k * 1000000000 + e" "2 * \<bar>e\<bar> < 1000000000"
    and "sync_1pps io = Some (r, cs) \<or> sync_gpsdo io = Some (r, cs)"
  shows "filter is_set_time cs = [Set_time_next_pps (k + 1, Fin 0)]"
  using assms(4)
proof
  assume "sync_1pps io = Some (r, cs)"
  then show ?thesis
    by (auto simp: sync_1pps_def run_then_Some run_do_def is_set_time_def dest: sync_pulse_sets [OF assms(1-3)])
next
  assume "sync_gpsdo io = Some (r, cs)"
  then show ?thesis
    by (auto simp: sync_gpsdo_def run_then_Some run_do_def sync_lock_def is_set_time_def
        dest: sync_pulse_sets [OF assms(1-3)])
qed

text \<open>The device for the witness: the pulses of the seconds 10 and 11 are seen at the second reading.\<close>

definition demo_sync :: sync_io where
  "demo_sync = \<lparr>si_ref_locked = \<lambda>_. True, si_gps_locked = True,
     si_pps1 = \<lambda>n. (if n = 0 then 9 else 10, Fin 0), si_clock1 = \<lambda>n. int n * 1000000, si_start1 = 0,
     si_now = 10003000000,
     si_pps2 = \<lambda>n. (if n = 0 then 10 else 11, Fin 0), si_clock2 = \<lambda>n. int n * 1000000, si_start2 = 0\<rparr>"

lemma demo_sync_waits:
  "wait_pps (si_pps1 demo_sync) (si_clock1 demo_sync) (si_start1 demo_sync) = Some (Inr (10, Fin 0))"
  "wait_pps (si_pps2 demo_sync) (si_clock2 demo_sync) (si_start2 demo_sync) = Some (Inr (11, Fin 0))"
  by (simp_all add: demo_sync_def wait_pps_def same_time_def deq_def pps_poll.simps [of _ _ _ 0]
      pps_poll.simps [of _ _ _ "Suc 0"])

theorem sync_pulse_second_witness:
  "\<exists>r cs. sync_1pps demo_sync = Some (r, cs) \<and> filter is_set_time cs = [Set_time_next_pps (11, Fin 0)]"
proof -
  obtain r cs where s: "sync_1pps demo_sync = Some (r, cs)"
    using demo_sync_waits by (cases "spec_ns (11, Fin 0)")
      (simp_all add: sync_1pps_def run_then_def run_do_def sync_pulse_def Let_def)
  have "si_now demo_sync = 10 * 1000000000 + 3000000"
    by (simp add: demo_sync_def)
  from sync_pulse_second [OF demo_sync_waits(1) this _ disjI1 [OF s]] s show ?thesis
    by simp
qed

text \<open>
  C32. With the host's clock the device gets the host's time to a fraction of a nanosecond: the full
  seconds are exact, and the product with the double closest to a billionth is off by at most
  3 units of \<open>2 ^ -53\<close> seconds.
\<close>

theorem sync_host_exact:
  assumes "0 \<le> si_now io"
  shows "\<exists>secs fr. sync_host io = Some (None, [Set_time_now (secs, Fin fr),
      Sync_log (''Synchronized USRP to host time: '' @ iso_ns (si_now io)) INFO]) \<and>
    secs = si_now io div 1000000000 \<and>
    \<bar>of_int secs + fr - of_int (si_now io) / 1000000000\<bar> \<le> 3 / 2 ^ 53"
proof -
  define n where "n = si_now io mod 1000000000"
  define secs where "secs = si_now io div 1000000000"
  have n: "0 \<le> n" "n < 1000000000"
    by (simp_all add: n_def)
  have now: "of_int (si_now io) = (of_int secs * 1000000000 + of_int n :: rat)"
    unfolding n_def secs_def by (metis div_mult_mod_eq of_int_add of_int_mult of_int_numeral)
  let ?x = "1 / 1000000000 :: rat"
  obtain a where a: "rnd ?x = ?x * a" "\<bar>a - 1\<bar> \<le> ulp1"
    by (rule rnd_factor [of ?x]) (rule p2_tiny, simp)
  have ulp: "ulp1 \<le> 1 / 4" "0 < ulp1"
    by (simp_all add: ulp1_def)
  have ra: "0 \<le> a" "a \<le> 2"
    using a(2) ulp(1) by linarith+
  have "\<exists>b. rnd (of_int n * (?x * a)) = of_int n * (?x * a) * b \<and> \<bar>b - 1\<bar> \<le> ulp1"
  proof (cases "n = 0")
    case True
    then show ?thesis using ulp(2) by (intro exI [of _ 1]) simp
  next
    case False
    then have "1 \<le> (of_int n :: rat)"
      using n(1) by simp
    moreover have "1 / 2 \<le> a"
      using a(2) ulp(1) by linarith
    ultimately have "1 * (1 / 2) \<le> of_int n * a"
      by (intro mult_mono) simp_all
    then have "p2 (- 1022) \<le> of_int n * (?x * a)"
      by (intro p2_tiny) simp
    then show ?thesis
      by (rule rnd_factor) blast
  qed
  then obtain b where b: "rnd (of_int n * (?x * a)) = of_int n * (?x * a) * b" "\<bar>b - 1\<bar> \<le> ulp1" by blast
  define fr where "fr = of_int n * ?x * (a * b)"
  have nx: "0 \<le> of_int n * ?x" "of_int n * ?x \<le> 1"
    using n by (simp_all add: field_simps)
  have "\<bar>a * b - 1\<bar> \<le> ulp1 + ulp1 + ulp1 * ulp1"
    by (rule factor_mult [OF a(2) b(2)])
  also have "\<dots> \<le> 3 / 2 ^ 53"
    by (simp add: ulp1_def)
  finally have ab: "\<bar>a * b - 1\<bar> \<le> 3 / 2 ^ 53" .
  have "fr - of_int n * ?x = of_int n * ?x * (a * b - 1)"
    by (simp add: fr_def algebra_simps)
  then have "\<bar>fr - of_int n * ?x\<bar> = of_int n * ?x * \<bar>a * b - 1\<bar>"
    using nx(1) by (simp only: abs_mult [of "of_int n * ?x"] abs_of_nonneg)
  also have "\<dots> \<le> 1 * (3 / 2 ^ 53)"
    using nx ab by (intro mult_mono) simp_all
  finally have err: "\<bar>fr - of_int n * ?x\<bar> \<le> 3 / 2 ^ 53" by simp
  have "p2 1 < p2 1024"
    by (simp add: p2_less_iff)
  then have small: "2 < p2 1024"
    by (simp add: p2_def)
  have "3 / 2 ^ 53 \<le> (1 :: rat)"
    by simp
  then have "\<bar>fr\<bar> \<le> 2"
    using err nx by linarith
  moreover have r: "rnd (of_int n * (?x * a)) = fr"
    by (simp only: b(1) fr_def mult.assoc)
  ultimately have "\<bar>rnd (of_int n * (?x * a))\<bar> < p2 1024"
    unfolding r using small by linarith
  then have "mkd (of_int n * (?x * a)) = Fin fr"
    unfolding r [symmetric] by (rule mkd_Fin_rnd)
  moreover have "of_integer n = Fin (of_int n)"
  proof -
    have "\<bar>of_int n\<bar> < (2 ^ 30 :: rat)" and "\<bar>n\<bar> < 2 ^ 53"
      using n by simp_all
    moreover have "p2 30 < p2 1024"
      by (simp add: p2_less_iff)
    ultimately show ?thesis
      by (simp add: of_integer_def mkd_small p2_def)
  qed
  moreover have "mkd ?x = Fin (?x * a)"
    using mkd_moderate(1) [of ?x] a(1) by simp
  ultimately have d: "dmul (of_integer n) (mkd ?x) = Fin fr"
    by (simp only: dmul.simps)
  have "of_int secs + fr - of_int (si_now io) / 1000000000 = fr - of_int n * ?x"
    by (simp add: now field_simps)
  then have "\<bar>of_int secs + fr - of_int (si_now io) / 1000000000\<bar> \<le> 3 / 2 ^ 53"
    using err by (simp only:)
  then show ?thesis
    using d by (intro exI [of _ secs] exI [of _ fr])
      (simp only: sync_host_def run_do_def Let_def n_def [symmetric] secs_def [symmetric] simp_thms)
qed

theorem sync_host_exact_witness:
  "\<exists>secs fr. sync_host demo_sync = Some (None, [Set_time_now (secs, Fin fr),
      Sync_log (''Synchronized USRP to host time: '' @ iso_ns (si_now demo_sync)) INFO]) \<and>
    secs = 10 \<and> \<bar>of_int secs + fr - 10003000000 / 1000000000\<bar> \<le> 3 / 2 ^ 53"
proof -
  have "0 \<le> si_now demo_sync" "si_now demo_sync div 1000000000 = 10"
    "of_int (si_now demo_sync) = (10003000000 :: rat)"
    by (simp_all add: demo_sync_def)
  with sync_host_exact [of demo_sync] show ?thesis by simp
qed

end
