(* ===== verification/Mqtt.thy ===== *)
theory Mqtt
  imports Errors Config
begin

text \<open>
  The MQTT client of \<^verbatim>\<open>src/mqtt.hpp\<close> and \<^verbatim>\<open>src/mqtt.cpp\<close> over libmosquitto: construction with its
  error paths, publishing with the check of the send buffer, the network thread with its
  reconnection loop, and destruction. What the library and the system return are parameters, what
  they are told and what is logged are results, in order. The thread is a machine that makes one
  step for each check of the run flag. The theorems: the handle is neither leaked nor freed twice nor used when it does not live, and
  the thread stops within two checks once it is told to.
\<close>

subsection \<open>The calls\<close>

datatype mq_act =
    Lib_init
  | Mosq_new
  | Int_option_nodelay
  | Username_pw_set "string option" "string option"
  | Threaded_set
  | Connect string "32 word" nat
  | Get_socket
  | Set_sndbuf
  | Mosq_publish string "8 word list"
  | Mosq_loop
  | Mosq_reconnect
  | Disconnect
  | Destroy
  | Lib_cleanup
  | Mq_log exc
  | Sleep_until int

text \<open>\<open>MOSQ_ERR_SUCCESS\<close> is 0.\<close>

type_synonym mosq_rc = int

abbreviation MOSQ_ERR_SUCCESS :: mosq_rc where
  "MOSQ_ERR_SUCCESS \<equiv> 0"

text \<open>
  What the constructor's calls return: the hostname or an error number, whether there is a handle,
  the codes of the library, the socket (none for \<open>-1\<close>), and of \<open>setsockopt\<close> its error number.
\<close>

record mqtt_io =
  mi_hostname :: "int + string"
  mi_new :: bool
  mi_int_option :: mosq_rc
  mi_username :: mosq_rc
  mi_threaded :: mosq_rc
  mi_connect :: mosq_rc
  mi_socket :: "int option"
  mi_setsockopt :: "int option"

text \<open>The members: the run flag and the prefix of the topics.\<close>

record mqtt_client =
  mq_run :: bool
  mq_prefix :: string

definition opt_str :: "string \<Rightarrow> string option" where
  "opt_str s = (if s = [] then None else Some s)"

text \<open>
  A call that has to succeed: what it does, its code, and the text of the error; a failure destroys
  the handle.
\<close>

definition mq_require :: "mq_act \<Rightarrow> mosq_rc \<Rightarrow> string \<Rightarrow> mqtt_client res \<times> mq_act list \<Rightarrow> mqtt_client res \<times> mq_act list" where
  "mq_require act rc msg rest =
     (if rc \<noteq> MOSQ_ERR_SUCCESS then (Inl (Mqtt_error msg rc), [act, Destroy])
      else (fst rest, act # snd rest))"

definition mqtt_new :: "config \<Rightarrow> mqtt_io \<Rightarrow> mqtt_client res \<times> mq_act list" where
  "mqtt_new cfg io =
     (case mi_hostname io of
        Inl e \<Rightarrow> (Inl (Syscall_error ''gethostname() failed'' e), [])
      | Inr hostname \<Rightarrow>
          (let pre = mqtt_prefix (cfg_mqtt cfg) @ ''/'' @ hostname @ ''/'' @ usrp_args (cfg_usrp cfg);
               q = cfg_mqtt cfg
           in if \<not> mi_new io then (Inl (Mqtt_error ''mosquitto_new() failed'' 0), [Lib_init, Mosq_new])
              else let r =
                mq_require Int_option_nodelay (mi_int_option io) ''mosquitto_int_option() failed''
               (mq_require (Username_pw_set (opt_str (mqtt_user q)) (opt_str (mqtt_password q))) (mi_username io)
                  ''mosquitto_username_pw_set() failed''
               (mq_require Threaded_set (mi_threaded io) ''mosquitto_threaded_set() failed''
               (mq_require (Connect (mqtt_host q) (mqtt_port q) 5) (mi_connect io) ''mosquitto_connect() failed''
               (case mi_socket io of
                  None \<Rightarrow> (Inl (Generic_error ''mosquitto_socket() failed''), [Get_socket, Destroy])
                | Some _ \<Rightarrow>
                    (case mi_setsockopt io of
                       Some e \<Rightarrow> (Inl (Syscall_error ''setsockopt() failed'' e), [Get_socket, Set_sndbuf, Destroy])
                     | None \<Rightarrow> (Inr \<lparr>mq_run = True, mq_prefix = pre\<rparr>, [Get_socket, Set_sndbuf]))))))
              in (fst r, Lib_init # Mosq_new # snd r)))"

definition mqtt_delete :: "mqtt_client \<Rightarrow> mqtt_client \<times> mq_act list" where
  "mqtt_delete c = (c\<lparr>mq_run := False\<rparr>, [Disconnect, Destroy, Lib_cleanup])"

text \<open>
  \<open>publish\<close>, for text and for samples: \<open>poll_ret\<close> is the return value of \<open>poll\<close> or its error number,
  \<open>writable\<close> whether \<open>POLLOUT\<close> is set, \<open>rc\<close> the library's code.
\<close>

definition publish :: "mqtt_client \<Rightarrow> int + int \<Rightarrow> bool \<Rightarrow> mosq_rc \<Rightarrow> string \<Rightarrow> 8 word list \<Rightarrow> mq_act list" where
  "publish c poll_ret writable rc topic payload =
     Get_socket #
     (case poll_ret of
        Inl e \<Rightarrow> [Mq_log (Syscall_error ''poll() failed'' e)]
      | Inr ret \<Rightarrow>
          if ret < 1 \<or> \<not> writable then []
          else Mosq_publish (if topic = [] then mq_prefix c else mq_prefix c @ ''/'' @ topic) payload #
            (if rc \<noteq> MOSQ_ERR_SUCCESS then [Mq_log (Mqtt_error ''mosquitto_publish() failed'' rc)] else []))"

subsection \<open>The thread\<close>

text \<open>
  The thread is at the head of the outer loop, or at the head of the reconnection loop, or done. A
  step takes what it meets: the run flag, the code of the library call, the steady clock before a
  reconnection, and the socket and \<open>setsockopt\<close> after leaving the reconnection loop.
\<close>

datatype mq_phase = Looping | Reconnecting | Done

record mq_turn =
  mt_run :: bool
  mt_rc :: mosq_rc
  mt_clock :: int
  mt_socket :: "int option"
  mt_setsockopt :: "int option"

text \<open>The end of the outer loop's body: the buffer size of the new socket.\<close>

definition mq_sndbuf :: "mq_turn \<Rightarrow> mq_act list" where
  "mq_sndbuf t =
     Get_socket #
     (case mt_socket t of None \<Rightarrow> []
      | Some _ \<Rightarrow> Set_sndbuf #
          (case mt_setsockopt t of None \<Rightarrow> [] | Some e \<Rightarrow> [Mq_log (Syscall_error ''setsockopt() failed'' e)]))"

fun mq_step :: "mq_phase \<Rightarrow> mq_turn \<Rightarrow> mq_phase \<times> mq_act list" where
  "mq_step Looping t =
     (if \<not> mt_run t then (Done, [])
      else if mt_rc t = MOSQ_ERR_SUCCESS then (Looping, [Mosq_loop])
      else (Reconnecting, [Mosq_loop, Mq_log (Mqtt_error ''mosquitto_loop() failed'' (mt_rc t))]))"
| "mq_step Reconnecting t =
     (if \<not> mt_run t then (Looping, mq_sndbuf t)
      else if mt_rc t = MOSQ_ERR_SUCCESS then (Looping, Mosq_reconnect # mq_sndbuf t)
      else (Reconnecting, [Mosq_reconnect, Mq_log (Mqtt_error ''mosquitto_reconnect() failed'' (mt_rc t)),
              Sleep_until (mt_clock t + 5000000000)]))"
| "mq_step Done t = (Done, [])"

fun mq_worker :: "mq_phase \<Rightarrow> mq_turn list \<Rightarrow> mq_phase \<times> mq_act list" where
  "mq_worker p [] = (p, [])"
| "mq_worker p (t # ts) =
     (let (q, as) = mq_step p t; (r, bs) = mq_worker q ts in (r, as @ bs))"

subsection \<open>Properties\<close>

text \<open>
  The specification of a handle: the calls that are made on it, and whether there is a handle after
  a sequence of calls that starts with one or without. \<open>None\<close> is a misuse: a second handle while the
  first one lives, a handle destroyed twice or without having been created, or a call on a handle
  that does not live.
\<close>

fun on_handle :: "mq_act \<Rightarrow> bool" where
  "on_handle Int_option_nodelay = True"
| "on_handle (Username_pw_set u p) = True"
| "on_handle Threaded_set = True"
| "on_handle (Connect h p k) = True"
| "on_handle Get_socket = True"
| "on_handle (Mosq_publish t d) = True"
| "on_handle Mosq_loop = True"
| "on_handle Mosq_reconnect = True"
| "on_handle Disconnect = True"
| "on_handle Destroy = True"
| "on_handle _ = False"

fun handle_after :: "bool \<Rightarrow> mq_act list \<Rightarrow> bool option" where
  "handle_after live [] = Some live"
| "handle_after live (a # as) =
     (if a = Mosq_new then if live then None else handle_after True as
      else if on_handle a \<and> \<not> live then None
      else if a = Destroy then handle_after False as
      else handle_after live as)"

lemma handle_after_append:
  "handle_after live (as @ bs) = (case handle_after live as of None \<Rightarrow> None | Some l \<Rightarrow> handle_after l bs)"
  by (induction as arbitrary: live) auto

lemma handle_kept: "\<forall>a \<in> set as. a \<noteq> Mosq_new \<and> a \<noteq> Destroy \<Longrightarrow> handle_after True as = Some True"
  by (induction as) auto

lemma mq_step_keeps: "\<forall>a \<in> set (snd (mq_step p t)). a \<noteq> Mosq_new \<and> a \<noteq> Destroy"
  by (cases p) (auto simp: mq_sndbuf_def split: option.splits)

lemma mq_worker_keeps: "\<forall>a \<in> set (snd (mq_worker p ts)). a \<noteq> Mosq_new \<and> a \<noteq> Destroy"
proof (induction ts arbitrary: p)
  case (Cons t ts)
  have "set (snd (mq_worker p (t # ts))) = set (snd (mq_step p t)) \<union> set (snd (mq_worker (fst (mq_step p t)) ts))"
    by (simp split: prod.split)
  then show ?case
    using mq_step_keeps [of p t] Cons [of "fst (mq_step p t)"] by blast
qed simp

lemma publish_keeps: "\<forall>a \<in> set (publish c r w rc topic payload). a \<noteq> Mosq_new \<and> a \<noteq> Destroy"
  by (auto simp: publish_def split: sum.splits)

text \<open>
  C34. The client's handle is neither leaked nor freed twice nor used when it does not live: when the
  constructor throws after it got a handle, it has destroyed the handle exactly once, on every path;
  when it succeeds there is one handle, which the network thread, whatever it meets, and any
  publication use and leave alive, and which the destructor uses and then destroys once. The topics
  of the client start with the configured prefix, the host's name and the device's arguments.
\<close>

theorem mqtt_no_leak:
  assumes "mi_new io"
  shows "case mqtt_new cfg io of
      (Inl e, as) \<Rightarrow> handle_after False as = Some False \<and>
        count_list as Destroy = (case mi_hostname io of Inl _ \<Rightarrow> 0 | Inr _ \<Rightarrow> 1)
    | (Inr c, as) \<Rightarrow> handle_after False as = Some True \<and>
        (\<forall>ts r w rc topic payload. handle_after False
          (as @ snd (mq_worker Looping ts) @ publish c r w rc topic payload @ snd (mqtt_delete c)) = Some False) \<and>
        mq_run c \<and>
        (\<exists>host. mi_hostname io = Inr host \<and>
          mq_prefix c = mqtt_prefix (cfg_mqtt cfg) @ ''/'' @ host @ ''/'' @ usrp_args (cfg_usrp cfg))"
proof -
  have deleted: "handle_after True (snd (mq_worker Looping ts) @ publish c r w rc topic payload @ snd (mqtt_delete c)) = Some False"
    for ts r w rc topic payload c
    by (simp add: handle_after_append handle_kept [OF mq_worker_keeps] handle_kept [OF publish_keeps] mqtt_delete_def)
  then show ?thesis
    using assms
    by (auto simp: mqtt_new_def mq_require_def Let_def split: sum.splits option.splits)
qed

lemma mq_worker_append:
  "mq_worker p (ts @ us) =
    (fst (mq_worker (fst (mq_worker p ts)) us), snd (mq_worker p ts) @ snd (mq_worker (fst (mq_worker p ts)) us))"
  by (induction p ts rule: mq_worker.induct) (auto split: prod.split)

lemma mq_worker_done: "mq_worker Done ts = (Done, [])"
  by (induction ts) simp_all

text \<open>
  The network thread stops soon after it is told to: whatever the state it is in, two checks of
  the run flag that find it cleared end the thread, and it does not touch the connection in between
  except for the send buffer of a new socket.
\<close>

theorem mqtt_worker_stops:
  assumes "\<not> mt_run t" "\<not> mt_run u"
  shows "\<exists>bs. mq_worker p (ts @ t # u # us) = (Done, snd (mq_worker p ts) @ bs) \<and>
    set bs \<subseteq> set (mq_sndbuf t)"
  using assms by (cases "fst (mq_worker p ts)") (auto simp: mq_worker_append mq_worker_done)

text \<open>A connection that is refused, and a client that loses its connection once before it is deleted.\<close>

theorem mqtt_no_leak_witness:
  "(let io = \<lparr>mi_hostname = Inr ''h'', mi_new = True, mi_int_option = 0, mi_username = 0, mi_threaded = 0,
        mi_connect = 14, mi_socket = Some 3, mi_setsockopt = None\<rparr>;
       lost = \<lparr>mt_run = True, mt_rc = 7, mt_clock = 0, mt_socket = Some 4, mt_setsockopt = None\<rparr>
    in (\<exists>e. fst (mqtt_new default_config io) = Inl e) \<and>
      handle_after False (snd (mqtt_new default_config io)) = Some False \<and>
      count_list (snd (mqtt_new default_config io)) Destroy = 1 \<and>
      (\<exists>c. fst (mqtt_new default_config (io\<lparr>mi_connect := 0\<rparr>)) = Inr c \<and>
        handle_after False (snd (mqtt_new default_config (io\<lparr>mi_connect := 0\<rparr>)) @ snd (mq_worker Looping [lost, lost]) @
          publish c (Inr 1) True 0 [] [] @ snd (mqtt_delete c)) = Some False))"
proof -
  let ?io = "\<lparr>mi_hostname = Inr ''h'', mi_new = True, mi_int_option = 0, mi_username = 0, mi_threaded = 0,
        mi_connect = 14, mi_socket = Some 3, mi_setsockopt = None\<rparr>"
  have new: "mi_new ?io" "mi_new (?io\<lparr>mi_connect := 0\<rparr>)" by simp_all
  have "\<exists>e. fst (mqtt_new default_config ?io) = Inl e"
    by (simp add: mqtt_new_def mq_require_def Let_def)
  moreover obtain c where c: "fst (mqtt_new default_config (?io\<lparr>mi_connect := 0\<rparr>)) = Inr c"
    by (simp add: mqtt_new_def mq_require_def Let_def)
  ultimately show ?thesis
    using mqtt_no_leak [OF new(1), of default_config] mqtt_no_leak [OF new(2), of default_config]
    by (auto simp: Let_def simp del: mq_worker.simps split: prod.splits sum.splits)
qed

theorem mqtt_worker_stops_witness:
  "\<exists>bs. mq_worker Looping [\<lparr>mt_run = True, mt_rc = 7, mt_clock = 0, mt_socket = None, mt_setsockopt = None\<rparr>,
      \<lparr>mt_run = False, mt_rc = 0, mt_clock = 0, mt_socket = Some 4, mt_setsockopt = None\<rparr>,
      \<lparr>mt_run = False, mt_rc = 0, mt_clock = 0, mt_socket = None, mt_setsockopt = None\<rparr>] =
    (Done, [Mosq_loop, Mq_log (Mqtt_error ''mosquitto_loop() failed'' 7)] @ bs) \<and> set bs \<subseteq> {Get_socket, Set_sndbuf}"
proof -
  let ?s = "\<lparr>mt_run = True, mt_rc = 7, mt_clock = 0, mt_socket = None, mt_setsockopt = None\<rparr>"
  let ?t = "\<lparr>mt_run = False, mt_rc = 0, mt_clock = 0, mt_socket = Some 4, mt_setsockopt = None\<rparr>"
  let ?u = "\<lparr>mt_run = False, mt_rc = 0, mt_clock = 0, mt_socket = None, mt_setsockopt = None\<rparr>"
  have "\<not> mt_run ?t" "\<not> mt_run ?u" by simp_all
  from mqtt_worker_stops [OF this, of Looping "[?s]" "[]"] show ?thesis
    by (simp add: mq_sndbuf_def)
qed

end
