(* ===== verification/Shm.thy ===== *)
theory Shm
  imports Config Rx
begin

text \<open>
  The shared memory files that the ring buffers live in, \<^verbatim>\<open>src/ringbuf.cpp\<close>, and the constructor of
  \<^verbatim>\<open>src/rx.cpp\<close> that makes two of them for every channel. A constructor creates the file, grows it
  and maps it, and undoes what it did when a step fails; a failure for one channel destroys the
  ring buffers of the channels before it. The operating system is the set of the files, of the open
  descriptors and of the mappings; the kernel's choice of a new descriptor and a new address is a
  parameter, as are the errors. The theorems: nothing is left behind, and the rings the receive
  thread gets satisfy the invariant its proof starts from.
\<close>

subsection \<open>The operating system\<close>

record os =
  os_files :: "string set"
  os_fds :: "int set"
  os_maps :: "(nat \<times> nat) set"

record kernel =
  k_fd :: "int set \<Rightarrow> int"
  k_addr :: "(nat \<times> nat) set \<Rightarrow> nat \<Rightarrow> nat"

text \<open>What the kernel promises: a new descriptor, and a mapping that is none of the existing ones.\<close>

definition fresh_kernel :: "kernel \<Rightarrow> bool" where
  "fresh_kernel k \<longleftrightarrow>
     (\<forall>fds. finite fds \<longrightarrow> k_fd k fds \<notin> fds) \<and>
     (\<forall>maps len. finite maps \<longrightarrow> (k_addr k maps len, len) \<notin> maps)"

text \<open>\<open>O_CREAT | O_EXCL\<close> fails with \<open>EEXIST\<close>, 17, when the file exists.\<close>

definition os_open :: "kernel \<Rightarrow> string \<Rightarrow> int option \<Rightarrow> os \<Rightarrow> (int + int) \<times> os" where
  "os_open k path err os =
     (if path \<in> os_files os then (Inl 17, os)
      else case err of Some e \<Rightarrow> (Inl e, os)
           | None \<Rightarrow> (let fd = k_fd k (os_fds os)
                     in (Inr fd, os\<lparr>os_files := insert path (os_files os), os_fds := insert fd (os_fds os)\<rparr>)))"

definition os_close :: "int \<Rightarrow> os \<Rightarrow> os" where
  "os_close fd os = os\<lparr>os_fds := os_fds os - {fd}\<rparr>"

definition os_unlink :: "string \<Rightarrow> os \<Rightarrow> os" where
  "os_unlink path os = os\<lparr>os_files := os_files os - {path}\<rparr>"

definition os_mmap :: "kernel \<Rightarrow> nat \<Rightarrow> int option \<Rightarrow> os \<Rightarrow> (int + nat) \<times> os" where
  "os_mmap k len err os =
     (case err of Some e \<Rightarrow> (Inl e, os)
      | None \<Rightarrow> (let addr = k_addr k (os_maps os) len
                in (Inr addr, os\<lparr>os_maps := insert (addr, len) (os_maps os)\<rparr>)))"

definition os_munmap :: "nat \<Rightarrow> nat \<Rightarrow> os \<Rightarrow> os" where
  "os_munmap addr len os = os\<lparr>os_maps := os_maps os - {(addr, len)}\<rparr>"

subsection \<open>A shared memory file\<close>

record shm =
  sh_path :: string
  sh_size :: nat
  sh_fd :: int
  sh_addr :: nat
  sh_memory :: "8 word list"

text \<open>The error numbers of the calls that fail.\<close>

record shm_io =
  sm_open :: "int option"
  sm_ftruncate :: "int option"
  sm_mmap :: "int option"

definition shm_new :: "kernel \<Rightarrow> string \<Rightarrow> u64 \<Rightarrow> shm_io \<Rightarrow> os \<Rightarrow> shm res \<times> os" where
  "shm_new k path len io os =
     (case os_open k path (sm_open io) os of
        (Inl e, os) \<Rightarrow>
          (Inl (Syscall_error (''open('' @ [CHR 0x22] @ path @ [CHR 0x22] @ '', ...) failed'') e), os)
      | (Inr fd, os) \<Rightarrow>
          (case sm_ftruncate io of
             Some e \<Rightarrow> (Inl (Syscall_error ''ftruncate() failed'' e), os_unlink path (os_close fd os))
           | None \<Rightarrow>
               (case os_mmap k (unat len) (sm_mmap io) os of
                  (Inl e, os) \<Rightarrow> (Inl (Syscall_error ''mmap() failed'' e), os_unlink path (os_close fd os))
                | (Inr addr, os) \<Rightarrow>
                    (Inr \<lparr>sh_path = path, sh_size = unat len, sh_fd = fd, sh_addr = addr,
                       sh_memory = replicate (unat len) 0\<rparr>, os))))"

definition shm_delete :: "shm \<Rightarrow> os \<Rightarrow> os" where
  "shm_delete s os = os_unlink (sh_path s) (os_close (sh_fd s) (os_munmap (sh_addr s) (sh_size s) os))"

subsection \<open>The ring buffers of all channels\<close>

text \<open>A ring buffer object: the two files, the descriptor's first, and the ring.\<close>

record ring_obj =
  ro_desc :: shm
  ro_ring :: shm
  ro_buf :: "sample ringbuf"

definition ring_delete :: "ring_obj \<Rightarrow> os \<Rightarrow> os" where
  "ring_delete r os = shm_delete (ro_desc r) (shm_delete (ro_ring r) os)"

text \<open>A sample has four bytes.\<close>

definition ring_new :: "kernel \<Rightarrow> string \<Rightarrow> u64 \<Rightarrow> string \<Rightarrow> u64 \<Rightarrow> shm_io \<Rightarrow> shm_io \<Rightarrow> os \<Rightarrow> ring_obj res \<times> os" where
  "ring_new k desc_path desc_size ring_path ring_size io1 io2 os =
     (case shm_new k desc_path desc_size io1 os of
        (Inl e, os) \<Rightarrow> (Inl e, os)
      | (Inr d, os) \<Rightarrow>
          (case shm_new k ring_path ring_size io2 os of
             (Inl e, os) \<Rightarrow> (Inl e, shm_delete d os)
           | (Inr r, os) \<Rightarrow>
               (Inr \<lparr>ro_desc = d, ro_ring = r, ro_buf = ringbuf_new ring_size 4 zero_sample\<rparr>, os)))"

definition ring_file :: "string \<Rightarrow> string \<Rightarrow> nat \<Rightarrow> string \<Rightarrow> string" where
  "ring_file mount args ch suffix =
     path_join mount (''usrp_rxtx_'' @ args @ ''_ch'' @ show_nat ch @ suffix)"

definition rx_ring :: "kernel \<Rightarrow> config \<Rightarrow> nat \<Rightarrow> shm_io \<times> shm_io \<Rightarrow> os \<Rightarrow> ring_obj res \<times> os" where
  "rx_ring k cfg ch io os =
     (let sh = cfg_shmem cfg; args = usrp_args (cfg_usrp cfg)
      in ring_new k (ring_file (shmem_mount_desc sh) args ch ''_desc'') (push_bit 20 (shmem_size_desc_mib sh))
           (ring_file (shmem_mount_ring sh) args ch ''_ring'') (push_bit 20 (shmem_size_ring_mib sh))
           (fst io) (snd io) os)"

text \<open>
  The loop of the constructor from channel \<open>ch\<close>, with one pair of inputs for each channel; an
  exception destroys the ring buffers made so far.
\<close>

fun rx_rings :: "kernel \<Rightarrow> config \<Rightarrow> nat \<Rightarrow> (shm_io \<times> shm_io) list \<Rightarrow> ring_obj list \<Rightarrow> os \<Rightarrow> ring_obj list res \<times> os" where
  "rx_rings k cfg ch [] acc os = (Inr acc, os)"
| "rx_rings k cfg ch (io # ios) acc os =
     (case rx_ring k cfg ch io os of
        (Inl e, os) \<Rightarrow> (Inl e, fold ring_delete acc os)
      | (Inr r, os) \<Rightarrow> rx_rings k cfg (ch + 1) ios (acc @ [r]) os)"

subsection \<open>Nothing is left behind\<close>

definition os_finite :: "os \<Rightarrow> bool" where
  "os_finite s \<longleftrightarrow> finite (os_fds s) \<and> finite (os_maps s)"

text \<open>
  A state \<open>s\<close> with the files, descriptors and mappings of some objects in addition, and that they are
  new in \<open>s\<close>: destroying the objects, in any order, gives back \<open>s\<close>.
\<close>

definition handles_of :: "shm \<Rightarrow> nat \<times> nat" where
  "handles_of sh = (sh_addr sh, sh_size sh)"

definition os_with :: "shm set \<Rightarrow> os \<Rightarrow> os" where
  "os_with S s = s\<lparr>os_files := os_files s \<union> sh_path ` S, os_fds := os_fds s \<union> sh_fd ` S,
     os_maps := os_maps s \<union> handles_of ` S\<rparr>"

definition os_new :: "shm set \<Rightarrow> os \<Rightarrow> bool" where
  "os_new S s \<longleftrightarrow> os_files s \<inter> sh_path ` S = {} \<and> os_fds s \<inter> sh_fd ` S = {} \<and>
     os_maps s \<inter> handles_of ` S = {} \<and> finite S"

definition os_without :: "shm set \<Rightarrow> os \<Rightarrow> os" where
  "os_without S s = s\<lparr>os_files := os_files s - sh_path ` S, os_fds := os_fds s - sh_fd ` S,
     os_maps := os_maps s - handles_of ` S\<rparr>"

lemma os_without_with: "os_new S s \<Longrightarrow> os_without S (os_with S s) = s"
  by (simp add: os_new_def os_without_def os_with_def Un_Diff Diff_triv)

lemma shm_delete_without: "shm_delete sh s = os_without {sh} s"
  by (simp add: shm_delete_def os_without_def os_unlink_def os_close_def os_munmap_def handles_of_def)

lemma os_without_union: "os_without S (os_without T s) = os_without (T \<union> S) s"
  by (simp add: os_without_def image_Un Diff_Un Diff_Int2 set_diff_eq conj_ac)

lemma os_with_empty [simp]: "os_with {} s = s" "os_new {} s" "os_without {} s = s"
  by (simp_all add: os_with_def os_new_def os_without_def)

lemma shm_new_cases:
  assumes "fresh_kernel k" "os_finite s" "os_new S s"
  obtains (fail) e where "shm_new k path len io (os_with S s) = (Inl e, os_with S s)"
    | (ok) sh where "shm_new k path len io (os_with S s) = (Inr sh, os_with (insert sh S) s)"
      "os_new (insert sh S) s" "os_new {sh} (os_with S s)" "sh_size sh = unat len" "sh_memory sh = replicate (unat len) 0"
proof -
  let ?s = "os_with S s"
  let ?sh = "\<lparr>sh_path = path, sh_size = unat len, sh_fd = k_fd k (os_fds ?s), sh_addr = k_addr k (os_maps ?s) (unat len),
      sh_memory = replicate (unat len) 0\<rparr>"
  have fin: "finite (os_fds ?s)" "finite (os_maps ?s)"
    using assms(2,3) by (simp_all add: os_with_def os_finite_def os_new_def)
  then have fresh: "k_fd k (os_fds ?s) \<notin> os_fds ?s" "(k_addr k (os_maps ?s) (unat len), unat len) \<notin> os_maps ?s"
    using assms(1) by (simp_all add: fresh_kernel_def)
  consider "path \<in> os_files ?s \<or> sm_open io \<noteq> None"
    | "path \<notin> os_files ?s" "sm_open io = None" "sm_ftruncate io \<noteq> None \<or> sm_mmap io \<noteq> None"
    | "path \<notin> os_files ?s" "sm_open io = None" "sm_ftruncate io = None" "sm_mmap io = None"
    by blast
  then show thesis
  proof cases
    case 1
    then have "\<exists>e. shm_new k path len io ?s = (Inl e, ?s)"
      by (auto simp: shm_new_def os_open_def)
    then show thesis using fail by blast
  next
    case 2
    then have "os_files ?s - {path} = os_files ?s" "os_fds ?s - {k_fd k (os_fds ?s)} = os_fds ?s"
      using fresh by simp_all
    then have "\<exists>e. shm_new k path len io ?s = (Inl e, ?s)"
      using 2 by (auto simp: shm_new_def os_open_def os_unlink_def os_close_def os_mmap_def Let_def
          split: option.splits)
    then show thesis using fail by blast
  next
    case 3
    have "shm_new k path len io ?s = (Inr ?sh, os_with (insert ?sh S) s)"
      using 3 by (simp add: shm_new_def os_open_def os_mmap_def os_with_def Let_def handles_of_def)
    moreover have "os_new (insert ?sh S) s" "os_new {?sh} ?s"
      using assms(3) 3(1) fresh by (simp_all add: os_new_def os_with_def handles_of_def)
    ultimately show thesis
      using ok by simp
  qed
qed

definition files_of :: "ring_obj list \<Rightarrow> shm set" where
  "files_of rs = (\<Union>r \<in> set rs. {ro_desc r, ro_ring r})"

lemma files_of_simps [simp]:
  "files_of [] = {}" "files_of (rs @ [r]) = insert (ro_desc r) (insert (ro_ring r) (files_of rs))"
  by (auto simp: files_of_def)

lemma ring_delete_without: "fold ring_delete rs s = os_without (files_of rs) s"
  by (induction rs rule: rev_induct)
    (simp_all add: ring_delete_def shm_delete_without os_without_union insert_commute Un_commute)

lemma ring_new_cases:
  assumes "fresh_kernel k" "os_finite s" "os_new (files_of rs) s"
  obtains (fail) e where "ring_new k dp dl rp rl io1 io2 (os_with (files_of rs) s) = (Inl e, os_with (files_of rs) s)"
    | (ok) r where "ring_new k dp dl rp rl io1 io2 (os_with (files_of rs) s) = (Inr r, os_with (files_of (rs @ [r])) s)"
      "os_new (files_of (rs @ [r])) s" "ro_buf r = ringbuf_new rl 4 zero_sample"
      "sh_memory (ro_ring r) = replicate (unat rl) 0"
proof (cases rule: shm_new_cases [OF assms, of dp dl io1])
  case (1 e)
  then show thesis using fail by (simp add: ring_new_def)
next
  case (2 d)
  note d = this
  show thesis
  proof (cases rule: shm_new_cases [OF assms(1,2) d(2), of rp rl io2])
    case (1 e)
    have "os_with (insert d (files_of rs)) s = os_with {d} (os_with (files_of rs) s)"
      by (simp add: os_with_def)
    then have "os_without {d} (os_with (insert d (files_of rs)) s) = os_with (files_of rs) s"
      using os_without_with [OF d(3)] by simp
    then show thesis
      using fail d(1) 1 by (simp add: ring_new_def shm_delete_without)
  next
    case (2 r)
    then show thesis
      using ok [of "\<lparr>ro_desc = d, ro_ring = r, ro_buf = ringbuf_new rl 4 zero_sample\<rparr>"] d
      by (simp add: ring_new_def insert_commute)
  qed
qed

lemma rx_rings_cases:
  assumes "fresh_kernel k" "os_finite s" "os_new (files_of acc) s"
    and "rx_rings k cfg ch ios acc (os_with (files_of acc) s) = (r, s')"
  shows "case r of Inl e \<Rightarrow> s' = s
    | Inr rs \<Rightarrow> (\<exists>new. rs = acc @ new \<and> length new = length ios \<and> s' = os_with (files_of rs) s \<and> os_new (files_of rs) s \<and>
        (\<forall>r \<in> set new. ro_buf r = ringbuf_new (push_bit 20 (shmem_size_ring_mib (cfg_shmem cfg))) 4 zero_sample))"
  using assms(3,4)
proof (induction ios arbitrary: ch acc)
  case Nil
  then show ?case by (auto intro: exI [of _ "[]"])
next
  case (Cons io ios)
  define sh args where "sh = cfg_shmem cfg" and "args = usrp_args (cfg_usrp cfg)"
  note def = rx_ring_def Let_def sh_def [symmetric] args_def [symmetric]
  show ?case
  proof (cases rule: ring_new_cases [OF assms(1,2) Cons.prems(1), of "ring_file (shmem_mount_desc sh) args ch ''_desc''"
      "push_bit 20 (shmem_size_desc_mib sh)" "ring_file (shmem_mount_ring sh) args ch ''_ring''"
      "push_bit 20 (shmem_size_ring_mib sh)" "fst io" "snd io"])
    case (1 e)
    then show ?thesis
      using Cons.prems os_without_with by (auto simp: def ring_delete_without)
  next
    case (2 x)
    then have "rx_rings k cfg (ch + 1) ios (acc @ [x]) (os_with (files_of (acc @ [x])) s) = (r, s')"
      using Cons.prems(2) by (simp add: def)
    from Cons.IH [OF 2(2) this] 2(3) show ?thesis
      by (cases r) (auto simp: sh_def)
  qed
qed

subsection \<open>Properties\<close>

text \<open>
  C35. Constructing the receiver leaves nothing behind when it fails: whichever call fails for
  whichever channel, all files, descriptors and mappings of the channels before it are gone and
  existing files stay. When it succeeds there is one ring buffer for every channel, and destroying
  them restores the state from before; a ring size of a power of two MiB gives rings that are
  well-formed and empty.
\<close>

theorem rx_rings_no_leak:
  assumes "fresh_kernel k" "finite (os_fds s)" "finite (os_maps s)"
  shows "case rx_rings k cfg 0 ios [] s of
      (Inl e, s') \<Rightarrow> s' = s
    | (Inr rs, s') \<Rightarrow> length rs = length ios \<and> fold ring_delete rs s' = s \<and>
        ((\<exists>j < 42. shmem_size_ring_mib (cfg_shmem cfg) = 2 ^ j) \<longrightarrow>
          (\<forall>r \<in> set rs. ring_wf (ro_buf r) \<and> ring_repr (ro_buf r) []))"
proof -
  obtain r s' where rr: "rx_rings k cfg 0 ios [] s = (r, s')" by fastforce
  have "os_finite s"
    using assms(2,3) by (simp add: os_finite_def)
  from rx_rings_cases [OF assms(1) this, of "[]" cfg 0 ios r s'] rr
  have c: "case r of Inl e \<Rightarrow> s' = s
    | Inr rs \<Rightarrow> length rs = length ios \<and> s' = os_with (files_of rs) s \<and> os_new (files_of rs) s \<and>
        (\<forall>r \<in> set rs. ro_buf r = ringbuf_new (push_bit 20 (shmem_size_ring_mib (cfg_shmem cfg))) 4 zero_sample)"
    by (auto split: sum.splits)
  show ?thesis
  proof (cases r)
    case (Inl e)
    then show ?thesis using c rr by simp
  next
    case (Inr rs)
    have ok: "ring_wf (ringbuf_new (push_bit 20 m) 4 zero_sample) \<and> ring_repr (ringbuf_new (push_bit 20 m) 4 zero_sample) []"
      if "m = 2 ^ j" "j < 42" for m :: u64 and j
    proof -
      have "push_bit 20 m div 4 = drop_bit 2 (push_bit 20 m)"
        by (simp add: drop_bit_eq_div)
      also have "\<dots> = 2 ^ (j + 18)"
        using that by (intro bit_word_eqI) (auto simp: bit_simps)
      finally have "push_bit 20 m div 4 = 2 ^ (j + 18)" .
      from ringbuf_new_ok [OF _ this, of zero_sample] that(2) show ?thesis by simp
    qed
    then show ?thesis
      using c rr Inr os_without_with by (auto simp: ring_delete_without)
  qed
qed

text \<open>A kernel that counts, and a second channel whose second file does not fit.\<close>

definition demo_kernel :: kernel where
  "demo_kernel = \<lparr>k_fd = \<lambda>fds. Max (insert 0 fds) + 1, k_addr = \<lambda>maps len. Max (insert 0 (fst ` maps)) + 1\<rparr>"

definition demo_shm_io :: "int option \<Rightarrow> shm_io" where
  "demo_shm_io e = \<lparr>sm_open = None, sm_ftruncate = e, sm_mmap = None\<rparr>"

lemma demo_fresh: "fresh_kernel demo_kernel"
proof -
  have fds: "Max (insert 0 A) + 1 \<notin> A" if "finite A" for A :: "int set"
    using Max_ge [of "insert 0 A" "Max (insert 0 A) + 1"] that by auto
  have maps: "Max (insert 0 A) + 1 \<notin> A" if "finite A" for A :: "nat set"
  proof
    assume "Max (insert 0 A) + 1 \<in> A"
    then have "Max (insert 0 A) + 1 \<le> Max (insert 0 A)"
      using that by (intro Max_ge) simp_all
    then show False by simp
  qed
  have "(Max (insert 0 (fst ` A)) + 1, len) \<notin> A" if "finite A" for A :: "(nat \<times> nat) set" and len
    using maps [of "fst ` A"] that image_eqI [of _ fst "(Max (insert 0 (fst ` A)) + 1, len)" A] by auto
  with fds show ?thesis
    by (simp add: fresh_kernel_def demo_kernel_def)
qed

theorem rx_rings_no_leak_witness:
  "rx_rings demo_kernel default_config 0
      [(demo_shm_io None, demo_shm_io None), (demo_shm_io None, demo_shm_io (Some 28))] []
      \<lparr>os_files = {''y''}, os_fds = {0, 1, 2}, os_maps = {}\<rparr> =
     (Inl (Syscall_error ''ftruncate() failed'' 28), \<lparr>os_files = {''y''}, os_fds = {0, 1, 2}, os_maps = {}\<rparr>)"
proof -
  let ?ios = "[(demo_shm_io None, demo_shm_io None), (demo_shm_io None, demo_shm_io (Some 28))]"
  let ?s = "\<lparr>os_files = {''y''}, os_fds = {0, 1, 2}, os_maps = {}\<rparr>"
  have "fst (rx_rings demo_kernel default_config 0 ?ios [] ?s) = Inl (Syscall_error ''ftruncate() failed'' 28)"
    by (simp add: rx_ring_def ring_new_def shm_new_def os_open_def os_mmap_def Let_def ring_file_def path_join_def
        starts_with_def ends_with_def demo_shm_io_def default_config_def show_nat.simps digit_def)
  moreover have "case rx_rings demo_kernel default_config 0 ?ios [] ?s of
      (Inl e, s') \<Rightarrow> s' = ?s
    | (Inr rs, s') \<Rightarrow> length rs = length ?ios \<and> fold ring_delete rs s' = ?s \<and>
        ((\<exists>j < 42. shmem_size_ring_mib (cfg_shmem default_config) = 2 ^ j) \<longrightarrow>
          (\<forall>r \<in> set rs. ring_wf (ro_buf r) \<and> ring_repr (ro_buf r) []))"
    by (rule rx_rings_no_leak [OF demo_fresh]) simp_all
  ultimately show ?thesis
    by (cases "rx_rings demo_kernel default_config 0 ?ios [] ?s") auto
qed

end
