(* ===== verification/Setup.thy ===== *)
theory Setup
  imports Sync Mqtt
begin

text \<open>
  Setting up the device, the first half of \<open>main\<close> in \<^verbatim>\<open>src/main.cpp\<close>: the MQTT client, the latency
  request, the scheduler, connecting, subdevices and rates, synchronization, tuning and the
  front ends. A part is a procedure (type \<open>run\<close>): the actions in order, up to the exception that
  ends it, or nothing when a loop that polls the device does not end. What the device and the
  system return, and which calls to the device throw, is a record of inputs. The lemmas show when the set-up succeeds and in which order
  it does things.
\<close>

subsection \<open>Actions and inputs\<close>

text \<open>A tune request with both policies manual.\<close>

record tune_request =
  tq_args :: "(string \<times> string) list"
  tq_target_freq :: dbl
  tq_rf_freq :: dbl
  tq_dsp_freq :: dbl

text \<open>\<open>Set_lo_source\<close> and \<open>Lo_export\<close> are for all oscillators of the channel.\<close>

datatype setup_cmd =
    Mqtt_call mq_act
  | Dma_latency "32 word"
  | Sched_fifo nat
  | Make_usrp string
  | Sched_restore
  | Set_subdev path string
  | Set_rate path dbl
  | Sync_call sync_cmd
  | Set_freq path nat tune_request
  | Set_antenna path nat string
  | Set_bandwidth path nat dbl
  | Set_gain path nat dbl
  | Set_lo_source path nat string
  | Lo_export path nat bool
  | Logged payload

text \<open>
  Error numbers of the calls that fail, the exception of connecting to the device, the channel
  counts, tune results, and reading \<open>n\<close> of the sensor \<open>lo_locked\<close> of a channel. Every call to the
  device may throw, with the text of the exception: a command (\<open>su_throws\<close>), asking for the channels
  of a path (\<open>su_count_throws\<close>), reading a sensor (\<open>su_sensor_throws\<close>), and in the synchronization
  the call that follows a number of its actions (\<open>su_sync_throws\<close>).
\<close>

record setup_io =
  su_mqtt :: mqtt_io
  su_latency_open :: "int option"
  su_latency_write :: "int option"
  su_getscheduler :: "int option"
  su_getparam :: "int option"
  su_setscheduler :: "int option"
  su_make :: "string option"
  su_restore :: "int option"
  su_channels :: "path \<Rightarrow> nat"
  su_sync :: sync_io
  su_tuned :: "path \<Rightarrow> nat \<Rightarrow> tune_result"
  su_locked :: "path \<Rightarrow> nat \<Rightarrow> nat \<Rightarrow> bool"
  su_throws :: "setup_cmd \<Rightarrow> string option"
  su_count_throws :: "path \<Rightarrow> string option"
  su_sensor_throws :: "path \<Rightarrow> nat \<Rightarrow> nat \<Rightarrow> string option"
  su_sync_throws :: "(nat \<times> string) option"
  su_usrp :: usrp

text \<open>A call that sets \<open>errno\<close> when it fails.\<close>

definition syscall :: "string \<Rightarrow> int option \<Rightarrow> 'c list \<Rightarrow> 'c run" where
  "syscall msg err cs = (case err of Some e \<Rightarrow> run_throw (Syscall_error msg e) | None \<Rightarrow> run_do cs)"

text \<open>
  A call to the device that returns nothing the program uses, a list of them, and one that is only asked for
  a value. A call that throws has no effect and ends the run.
\<close>

definition device_check :: "string option \<Rightarrow> 'c run" where
  "device_check throws = (case throws of Some msg \<Rightarrow> run_throw (Library_error msg) | None \<Rightarrow> run_do [])"

definition device_call :: "setup_io \<Rightarrow> setup_cmd \<Rightarrow> setup_cmd run" where
  "device_call io c = run_then (device_check (su_throws io c)) (run_do [c])"

definition run_when :: "bool \<Rightarrow> 'c run \<Rightarrow> 'c run" where
  "run_when b r = (if b then r else run_do [])"

definition run_all :: "'c run list \<Rightarrow> 'c run" where
  "run_all rs = foldr run_then rs (run_do [])"

definition device_calls :: "setup_io \<Rightarrow> setup_cmd list \<Rightarrow> setup_cmd run" where
  "device_calls io cs = run_all (map (device_call io) cs)"

text \<open>
  A run that ends with an exception after \<open>k\<close> of its actions, if it gets there. A reading of the device
  that throws stands for any reading that would have let the run go on.
\<close>

definition run_cut :: "(nat \<times> string) option \<Rightarrow> 'c run \<Rightarrow> 'c run" where
  "run_cut throws r =
     (case throws of None \<Rightarrow> r
      | Some (k, msg) \<Rightarrow>
          map_option (\<lambda>(e, cs). if k < length cs then (Some (Library_error msg), take k cs) else (e, cs)) r)"

subsection \<open>The steps\<close>

definition main_mqtt :: "config \<Rightarrow> setup_io \<Rightarrow> setup_cmd run" where
  "main_mqtt cfg io = run_when (mqtt_host (cfg_mqtt cfg) \<noteq> ''0.0.0.0'')
     (case mqtt_new cfg (su_mqtt io) of
        (Inl e, as) \<Rightarrow> Some (Some e, map Mqtt_call as)
      | (Inr c, as) \<Rightarrow> run_do (map Mqtt_call as))"

definition main_latency :: "config \<Rightarrow> setup_io \<Rightarrow> setup_cmd run" where
  "main_latency cfg io = run_when (0 \<le>s cfg_dma_latency_usec cfg)
     (run_then (syscall ''error opening /dev/cpu_dma_latency'' (su_latency_open io) [])
       (syscall ''error writing to /dev/cpu_dma_latency'' (su_latency_write io)
          [Dma_latency (cfg_dma_latency_usec cfg)]))"

definition main_connect :: "config \<Rightarrow> setup_io \<Rightarrow> setup_cmd run" where
  "main_connect cfg io =
     run_all [syscall ''sched_getscheduler() failed'' (su_getscheduler io) [],
       syscall ''sched_getparam() failed'' (su_getparam io) [],
       syscall ''sched_setscheduler() failed'' (su_setscheduler io) [Sched_fifo 99],
       (case su_make io of
          Some msg \<Rightarrow> run_throw (Library_error msg) | None \<Rightarrow> run_do [Make_usrp (usrp_args (cfg_usrp cfg))]),
       syscall ''sched_setscheduler() failed'' (su_restore io) [Sched_restore]]"

definition path_used :: "radio_config \<Rightarrow> bool" where
  "path_used rc \<longleftrightarrow> radio_subdev rc \<noteq> []"

definition main_rates :: "config \<Rightarrow> setup_io \<Rightarrow> setup_cmd run" where
  "main_rates cfg io =
     run_then
       (run_when (path_used (cfg_rx cfg))
         (device_calls io [Set_subdev RX (radio_subdev (cfg_rx cfg)), Set_rate RX (radio_rate (cfg_rx cfg))]))
       (run_when (path_used (cfg_tx cfg))
         (device_calls io [Set_subdev TX (radio_subdev (cfg_tx cfg)), Set_rate TX (radio_rate (cfg_tx cfg))]))"

definition main_sync :: "config \<Rightarrow> setup_io \<Rightarrow> setup_cmd run" where
  "main_sync cfg io =
     (let s = usrp_sync (cfg_usrp cfg); throws = su_sync_throws io; io = su_sync io in run_map Sync_call
       (run_cut throws (if s = ''10mhz'' then run_then (sync_10mhz io) (sync_host io)
        else if s = ''1pps'' then sync_1pps io
        else if s = ''10mhz+1pps'' then run_then (sync_10mhz io) (sync_1pps io)
        else if s = ''host'' then sync_host io
        else if s = ''gpsdo'' then sync_gpsdo io
        else if s \<noteq> [] then run_throw (Generic_error (''unknown usrp.sync setting: '' @ s))
        else run_do [])))"

definition tune_request :: "radio_config \<Rightarrow> tune_request" where
  "tune_request rc =
     \<lparr>tq_args = [(''mode_n'', ''integer'')], tq_target_freq = radio_freq_rf rc, tq_rf_freq = radio_freq_rf rc,
      tq_dsp_freq = radio_freq_dsp rc\<rparr>"

text \<open>\<open>while (!get_sensor().to_bool()) sleep\<close>, where a reading may throw.\<close>

partial_function (option) lock_poll :: "(nat \<Rightarrow> string option) \<Rightarrow> (nat \<Rightarrow> bool) \<Rightarrow> nat \<Rightarrow> exc option option" where
  "lock_poll throws locked n =
     (case throws n of Some msg \<Rightarrow> Some (Some (Library_error msg))
      | None \<Rightarrow> if locked n then Some None else lock_poll throws locked (n + 1))"

definition wait_lo :: "setup_io \<Rightarrow> path \<Rightarrow> nat \<Rightarrow> setup_cmd run" where
  "wait_lo io p ch = map_option (\<lambda>e. (e, [])) (lock_poll (su_sensor_throws io p ch) (su_locked io p ch) 0)"

definition tune_channel :: "path \<Rightarrow> radio_config \<Rightarrow> setup_io \<Rightarrow> nat \<Rightarrow> setup_cmd run" where
  "tune_channel p rc io ch =
     run_then (device_call io (Set_freq p ch (tune_request rc)))
       (run_do [Logged (UhdTuneResult (su_tuned io p ch) p (of_nat ch))])"

definition tune_channels :: "path \<Rightarrow> radio_config \<Rightarrow> setup_io \<Rightarrow> setup_cmd run" where
  "tune_channels p rc io = run_when (path_used rc)
     (run_then (device_check (su_count_throws io p))
     (run_then
       (run_all (map (tune_channel p rc io) [0..<su_channels io p]))
       (run_all (map (wait_lo io p) [0..<su_channels io p]))))"

definition main_tune :: "config \<Rightarrow> setup_io \<Rightarrow> setup_cmd run" where
  "main_tune cfg io = run_then (tune_channels RX (cfg_rx cfg) io) (tune_channels TX (cfg_tx cfg) io)"

text \<open>The settings of one channel that both front ends have, and the oscillator source if asked for.\<close>

definition set_channel :: "path \<Rightarrow> radio_config \<Rightarrow> bool \<Rightarrow> nat \<Rightarrow> setup_cmd list" where
  "set_channel p rc with_lo ch =
     (if radio_antenna rc \<noteq> [] then [Set_antenna p ch (radio_antenna rc)] else []) @
     (if dless (Fin 0) (radio_bandwidth rc) then [Set_bandwidth p ch (radio_bandwidth rc)] else []) @
     [Set_gain p ch (radio_gain rc)] @
     (if with_lo then [Set_lo_source p ch (radio_lo_source rc)] else [])"

definition main_rx_frontend :: "radio_config \<Rightarrow> setup_io \<Rightarrow> setup_cmd run" where
  "main_rx_frontend rc io = run_when (path_used rc)
     (let lo = radio_lo_source rc in
      run_then
        (device_calls io (concat (map (set_channel RX rc (lo \<noteq> [] \<and> \<not> starts_with lo ''twinrx_'')) [0..<su_channels io RX])))
        (if lo = ''twinrx_shared''
         then device_calls io [Lo_export RX 0 True, Set_lo_source RX 0 ''internal'', Set_lo_source RX 1 ''companion'',
                Set_lo_source RX 2 ''external'', Set_lo_source RX 3 ''external'']
         else if lo \<noteq> [] then run_throw (Generic_error (''invalid rx.lo_source config value: '' @ lo))
         else run_do []))"

definition main_tx_frontend :: "radio_config \<Rightarrow> setup_io \<Rightarrow> setup_cmd run" where
  "main_tx_frontend rc io = run_when (path_used rc)
     (device_calls io (concat (map (set_channel TX rc (radio_lo_source rc \<noteq> [])) [0..<su_channels io TX])))"

definition setup_done :: "setup_io \<Rightarrow> setup_cmd run" where
  "setup_done io = run_do [Logged (UsrpHardware (su_usrp io)), Logged (UsrpChannels (su_usrp io)),
     Logged (Misc INFO ''Initialization complete.'')]"

definition main_setup :: "config \<Rightarrow> setup_io \<Rightarrow> setup_cmd run" where
  "main_setup cfg io =
     run_all [main_mqtt cfg io, main_latency cfg io, main_connect cfg io, main_rates cfg io, main_sync cfg io,
       main_tune cfg io, main_rx_frontend (cfg_rx cfg) io, main_tx_frontend (cfg_tx cfg) io, setup_done io]"

subsection \<open>The order of the set-up\<close>

text \<open>The stage an action belongs to.\<close>

fun stage :: "setup_cmd \<Rightarrow> nat" where
  "stage (Mqtt_call a) = 0"
| "stage (Dma_latency w) = 1"
| "stage (Sched_fifo n) = 2"
| "stage (Make_usrp args) = 3"
| "stage Sched_restore = 4"
| "stage (Set_subdev p s) = 5"
| "stage (Set_rate p r) = 5"
| "stage (Sync_call c) = 6"
| "stage (Set_freq p ch q) = 7"
| "stage (Set_antenna p ch a) = (if p = RX then 8 else 9)"
| "stage (Set_bandwidth p ch b) = (if p = RX then 8 else 9)"
| "stage (Set_gain p ch g) = (if p = RX then 8 else 9)"
| "stage (Set_lo_source p ch s) = (if p = RX then 8 else 9)"
| "stage (Lo_export p ch b) = (if p = RX then 8 else 9)"
| "stage (Logged l) = (case l of UhdTuneResult r p ch \<Rightarrow> 7 | _ \<Rightarrow> 10)"

definition staged :: "nat \<Rightarrow> nat \<Rightarrow> setup_cmd run \<Rightarrow> bool" where
  "staged a b r \<longleftrightarrow> (\<forall>e cs. r = Some (e, cs) \<longrightarrow>
     sorted (map stage cs) \<and> (\<forall>c \<in> set cs. a \<le> stage c \<and> stage c \<le> b))"

named_theorems staged_rules

lemma staged_then [staged_rules]:
  assumes "staged a b r" "staged b' c r'" "b \<le> b'" "a \<le> b'" "b \<le> c"
  shows "staged a c (run_then r r')"
  using assms unfolding staged_def
  by (auto simp: run_then_Some sorted_append split: option.splits) (meson order_trans)+

lemma staged_same: "(\<And>e cs c. r = Some (e, cs) \<Longrightarrow> c \<in> set cs \<Longrightarrow> stage c = k) \<Longrightarrow> staged k k r"
proof -
  have "(\<forall>c \<in> set cs. stage c = k) \<Longrightarrow> sorted (map stage cs)" for cs
    by (induction cs) auto
  then show "(\<And>e cs c. r = Some (e, cs) \<Longrightarrow> c \<in> set cs \<Longrightarrow> stage c = k) \<Longrightarrow> staged k k r"
    unfolding staged_def by (metis order.refl)
qed

lemma run_all_simps [simp]: "run_all [] = run_do []" "run_all (r # rs) = run_then r (run_all rs)"
  by (simp_all add: run_all_def)

lemma staged_none [staged_rules]: "a \<le> b \<Longrightarrow> staged a b (run_do [])"
  by (simp add: staged_def run_do_def)

lemma staged_when [staged_rules]: "staged a b r \<Longrightarrow> a \<le> b \<Longrightarrow> staged a b (run_when x r)"
  by (simp add: run_when_def staged_none)

lemma run_all_set:
  "run_all rs = Some (e, cs) \<Longrightarrow> c \<in> set cs \<Longrightarrow> \<exists>r \<in> set rs. \<exists>x ds. r = Some (x, ds) \<and> c \<in> set ds"
proof (induction rs arbitrary: e cs)
  case (Cons r rs)
  from Cons.prems(1) have "run_then r (run_all rs) = Some (e, cs)" by simp
  then show ?case
    using Cons.prems(2) Cons.IH by (cases rule: run_then_cases) fastforce+
qed (simp add: run_do_def)

lemma run_all_map:
  assumes "\<And>x d. f x = Some (None, d) \<longleftrightarrow> P x \<and> d = g x"
  shows "run_all (map f xs) = Some (None, cs) \<longleftrightarrow> (\<forall>x \<in> set xs. P x) \<and> cs = concat (map g xs)"
  by (induction xs arbitrary: cs) (auto simp: run_do_def run_then_Some assms split: option.splits)

lemma device_check_Some: "device_check t = Some (e, cs) \<longleftrightarrow> e = map_option Library_error t \<and> cs = []"
  by (cases t) (auto simp: device_check_def run_throw_def run_do_def)

lemma device_call_None: "device_call io c = Some (None, cs) \<longleftrightarrow> su_throws io c = None \<and> cs = [c]"
  by (auto simp: device_call_def run_then_Some device_check_Some run_do_def split: option.splits)

lemma device_call_set: "device_call io c = Some (e, cs) \<Longrightarrow> d \<in> set cs \<Longrightarrow> d = c"
  by (auto simp: device_call_def run_then_Some device_check_Some run_do_def split: option.splits)

lemma device_calls_None:
  "device_calls io cs = Some (None, ds) \<longleftrightarrow> (\<forall>c \<in> set cs. su_throws io c = None) \<and> ds = cs"
  unfolding device_calls_def by (subst run_all_map [where g = "\<lambda>c. [c]"]) (rule device_call_None, simp)

lemma device_calls_set: "device_calls io cs = Some (e, ds) \<Longrightarrow> d \<in> set ds \<Longrightarrow> d \<in> set cs"
  unfolding device_calls_def by (drule (1) run_all_set) (auto dest: device_call_set)

lemma concat_map_nil: "concat (map (\<lambda>_. []) xs) = []"
  by (induction xs) simp_all

text \<open>The poll ends well when a reading finds the oscillator locked and none up to there throws.\<close>

lemma lock_poll_first:
  "\<forall>i. k \<le> i \<and> i < n \<longrightarrow> throws i = None \<and> \<not> locked i \<Longrightarrow> throws n = None \<Longrightarrow> locked n \<Longrightarrow> k \<le> n \<Longrightarrow>
   lock_poll throws locked k = Some None"
proof (induction "n - k" arbitrary: k)
  case 0
  then show ?case by (subst lock_poll.simps) auto
next
  case (Suc d)
  then have "throws k = None" "\<not> locked k" "lock_poll throws locked (k + 1) = Some None"
    by simp_all
  then show ?case by (simp add: lock_poll.simps [of _ _ k])
qed

lemma lock_poll_locked:
  "lock_poll throws locked k = Some None \<Longrightarrow> \<exists>n \<ge> k. locked n \<and> (\<forall>i. k \<le> i \<and> i \<le> n \<longrightarrow> throws i = None)"
proof (rule lock_poll.raw_induct [of "\<lambda>t l k r. r = None \<longrightarrow> (\<exists>n \<ge> k. l n \<and> (\<forall>i. k \<le> i \<and> i \<le> n \<longrightarrow> t i = None))", THEN mp])
  fix poll t l and k :: nat and r :: "exc option"
  assume IH: "\<And>t l k r. poll t l k = Some r \<Longrightarrow> r = None \<longrightarrow> (\<exists>n \<ge> k. l n \<and> (\<forall>i. k \<le> i \<and> i \<le> n \<longrightarrow> t i = None))"
    and r: "(case t k of None \<Rightarrow> if l k then Some None else poll t l (k + 1) | Some msg \<Rightarrow> Some (Some (Library_error msg))) = Some r"
  show "r = None \<longrightarrow> (\<exists>n \<ge> k. l n \<and> (\<forall>i. k \<le> i \<and> i \<le> n \<longrightarrow> t i = None))"
  proof
    assume "r = None"
    with r have t: "t k = None" by (auto split: option.splits)
    show "\<exists>n \<ge> k. l n \<and> (\<forall>i. k \<le> i \<and> i \<le> n \<longrightarrow> t i = None)"
    proof (cases "l k")
      case True
      then show ?thesis using t by (intro exI [of _ k]) auto
    next
      case False
      with r t IH [of t l "k + 1" r] \<open>r = None\<close> obtain n where
        "k + 1 \<le> n" "l n" "\<forall>i. k + 1 \<le> i \<and> i \<le> n \<longrightarrow> t i = None" by auto
      with t show ?thesis
        by (intro exI [of _ n]) (metis Suc_eq_plus1 Suc_leD Suc_leI le_less)
    qed
  qed
qed simp_all

definition seen_locked :: "setup_io \<Rightarrow> path \<Rightarrow> nat \<Rightarrow> bool" where
  "seen_locked io p ch \<longleftrightarrow> (\<exists>n. su_locked io p ch n \<and> (\<forall>i \<le> n. su_sensor_throws io p ch i = None))"

lemma wait_lo_None: "wait_lo io p ch = Some (None, cs) \<longleftrightarrow> seen_locked io p ch \<and> cs = []"
proof -
  have "lock_poll (su_sensor_throws io p ch) (su_locked io p ch) 0 = Some None" if l: "seen_locked io p ch"
  proof -
    obtain n where n: "su_locked io p ch n" "\<forall>i \<le> n. su_sensor_throws io p ch i = None"
      using l unfolding seen_locked_def by blast
    obtain m where "su_locked io p ch m" "\<forall>i < m. \<not> su_locked io p ch i" "m \<le> n"
      using n(1) by (metis exists_least_iff not_le)
    with n(2) show ?thesis
      by (intro lock_poll_first [of 0 m]) auto
  qed
  then show ?thesis
    using lock_poll_locked [of "su_sensor_throws io p ch" "su_locked io p ch" 0]
    by (auto simp: wait_lo_def seen_locked_def)
qed

lemma wait_lo_set: "wait_lo io p ch = Some (e, cs) \<Longrightarrow> cs = []"
  by (auto simp: wait_lo_def)

lemma tune_channels_None:
  "tune_channels p rc io = Some (None, cs) \<longleftrightarrow>
     (if path_used rc
      then su_count_throws io p = None \<and>
        (\<forall>ch < su_channels io p. su_throws io (Set_freq p ch (tune_request rc)) = None \<and> seen_locked io p ch) \<and>
        cs = concat (map (\<lambda>ch. [Set_freq p ch (tune_request rc), Logged (UhdTuneResult (su_tuned io p ch) p (of_nat ch))])
                [0..<su_channels io p])
      else cs = [])"
proof -
  let ?cmds = "\<lambda>ch. [Set_freq p ch (tune_request rc), Logged (UhdTuneResult (su_tuned io p ch) p (of_nat ch))]"
  have tuned: "run_all (map (tune_channel p rc io) xs) = Some (None, ds) \<longleftrightarrow>
      (\<forall>ch \<in> set xs. su_throws io (Set_freq p ch (tune_request rc)) = None) \<and> ds = concat (map ?cmds xs)" for xs ds
    by (rule run_all_map) (auto simp: tune_channel_def run_then_Some device_call_None run_do_def split: option.splits)
  have locked: "run_all (map (wait_lo io p) xs) = Some (None, ds) \<longleftrightarrow> (\<forall>ch \<in> set xs. seen_locked io p ch) \<and> ds = []" for xs ds
    using run_all_map [of "wait_lo io p" "seen_locked io p" "\<lambda>_. []" xs ds] wait_lo_None
    by (simp add: concat_map_nil)
  show ?thesis
    by (auto simp: tune_channels_def run_when_def run_then_Some device_check_Some tuned locked run_do_def
        split: option.splits)
qed

lemma tune_channels_stage: "tune_channels p rc io = Some (e, cs) \<Longrightarrow> c \<in> set cs \<Longrightarrow> stage c = 7"
proof -
  assume t: "tune_channels p rc io = Some (e, cs)" "c \<in> set cs"
  have one: "stage c = 7" if "tune_channel p rc io ch = Some (x, ds)" "c \<in> set ds" for ch x ds
    using that device_call_set [of io "Set_freq p ch (tune_request rc)"]
    by (auto simp: tune_channel_def run_then_Some run_do_def split: option.splits) fastforce+
  have tuned: "stage c = 7" if "run_all (map (tune_channel p rc io) xs) = Some (x, ds)" "c \<in> set ds" for xs x ds
    using run_all_set [OF that] one by auto
  have waited: "c \<notin> set ds" if "run_all (map (wait_lo io p) xs) = Some (x, ds)" for xs x ds
  proof
    assume "c \<in> set ds"
    from run_all_set [OF that this] obtain r y es where
      r: "r \<in> set (map (wait_lo io p) xs)" "r = Some (y, es)" "c \<in> set es" by blast
    then obtain ch where "wait_lo io p ch = Some (y, es)" by auto
    with wait_lo_set [of io p ch y es] r(3) show False by simp
  qed
  show "stage c = 7"
    using t tuned waited
    by (auto simp: tune_channels_def run_when_def run_then_Some device_check_Some run_do_def
        split: if_splits option.splits)
qed

lemma run_cut_set: "run_cut t r = Some (e, cs) \<Longrightarrow> \<exists>x ds. r = Some (x, ds) \<and> set cs \<subseteq> set ds"
  by (auto simp: run_cut_def split: option.splits if_splits dest: in_set_takeD)

lemma staged_both: "staged k k r \<Longrightarrow> staged k k r' \<Longrightarrow> staged k k (run_then r r')"
  by (rule staged_then [OF _ _ order.refl order.refl order.refl])

lemma staged_calls: "\<forall>c \<in> set cs. stage c = k \<Longrightarrow> staged k k (device_calls io cs)"
  by (rule staged_same) (blast dest: device_calls_set)

lemma staged_if: "staged a b r \<Longrightarrow> staged a b r' \<Longrightarrow> staged a b (if x then r else r')"
  by simp

lemma staged_throw: "staged a b (run_throw e)"
  by (simp add: staged_def run_throw_def)

lemma staged_steps [staged_rules]:
  "staged 0 0 (main_mqtt cfg io)" "staged 1 1 (main_latency cfg io)" "staged 2 4 (main_connect cfg io)"
  "staged 5 5 (main_rates cfg io)" "staged 6 6 (main_sync cfg io)" "staged 7 7 (tune_channels p rc io)"
  "staged 8 8 (main_rx_frontend rc io)" "staged 9 9 (main_tx_frontend rc io)" "staged 10 10 (setup_done io)"
proof -
  note cmd_defs = run_when_def run_do_def run_throw_def run_map_def run_then_Some syscall_def
  show "staged 0 0 (main_mqtt cfg io)"
    by (rule staged_same) (auto simp: main_mqtt_def cmd_defs split: if_splits prod.splits sum.splits)
  show "staged 1 1 (main_latency cfg io)"
    by (rule staged_same) (auto simp: main_latency_def cmd_defs split: if_splits option.splits)
  show "staged 2 4 (main_connect cfg io)"
    by (auto simp: staged_def main_connect_def cmd_defs split: option.splits)
  show "staged 5 5 (main_rates cfg io)"
    unfolding main_rates_def by (intro staged_both staged_when staged_calls) simp_all
  show "staged 6 6 (main_sync cfg io)"
    by (rule staged_same) (auto simp: main_sync_def Let_def run_map_def)
  show "staged 8 8 (main_rx_frontend rc io)"
    unfolding main_rx_frontend_def Let_def
    by (intro staged_both staged_when staged_calls staged_if staged_throw staged_none) (auto simp: set_channel_def)
  show "staged 9 9 (main_tx_frontend rc io)"
    unfolding main_tx_frontend_def by (intro staged_when staged_calls) (auto simp: set_channel_def)
  show "staged 10 10 (setup_done io)"
    by (rule staged_same) (auto simp: setup_done_def cmd_defs)
  show "staged 7 7 (tune_channels p rc io)"
    by (rule staged_same) (rule tune_channels_stage)
qed

lemma staged_setup:
  "staged 0 7 (run_all [main_mqtt cfg io, main_latency cfg io, main_connect cfg io, main_rates cfg io, main_sync cfg io,
    main_tune cfg io])"
  "staged 0 10 (main_setup cfg io)"
  unfolding main_setup_def run_all_simps main_tune_def
  by (rule staged_rules order.refl | simp)+

definition radio_of :: "config \<Rightarrow> path \<Rightarrow> radio_config" where
  "radio_of cfg p = (if p = RX then cfg_rx cfg else cfg_tx cfg)"

text \<open>
  C36. The set-up does its work in the order the hardware needs, wherever it ends: MQTT, the latency
  request, real-time priority, connecting, the old priority, subdevices and sample rates (which may
  change the master clock), then the synchronization of the clock, then tuning, then the receive
  and the transmit front ends. Nothing of a front end, in particular no gain, is set before the
  oscillators of all channels of both directions were seen locked.
\<close>

theorem setup_order:
  assumes "main_setup cfg io = Some (e, cs)"
  shows "sorted (map stage cs) \<and>
    (\<forall>c \<in> set cs. 8 \<le> stage c \<longrightarrow>
      (\<forall>p ch. path_used (radio_of cfg p) \<and> ch < su_channels io p \<longrightarrow> (\<exists>n. su_locked io p ch n)))"
proof (intro conjI ballI impI allI)
  show "sorted (map stage cs)"
    using staged_setup(2) [of cfg io] assms by (simp add: staged_def)
next
  fix c p ch
  assume c: "c \<in> set cs" "8 \<le> stage c" and ch: "path_used (radio_of cfg p) \<and> ch < su_channels io p"
  let ?a = "run_all [main_mqtt cfg io, main_latency cfg io, main_connect cfg io, main_rates cfg io, main_sync cfg io,
    main_tune cfg io]"
  let ?b = "run_then (main_rx_frontend (cfg_rx cfg) io) (run_then (main_tx_frontend (cfg_tx cfg) io) (setup_done io))"
  have "main_setup cfg io = run_then ?a ?b"
    by (simp add: main_setup_def run_then_assoc)
  with assms have "run_then ?a ?b = Some (e, cs)" by simp
  then obtain as where "?a = Some (None, as)"
  proof (cases rule: run_then_cases)
    case first
    then have "\<forall>c \<in> set cs. stage c \<le> 7"
      using staged_setup(1) unfolding staged_def by blast
    with c show ?thesis by force
  qed blast
  then have "\<exists>es. main_tune cfg io = Some (None, es)"
    by (auto simp: run_then_Some split: option.splits)
  then have "seen_locked io p ch"
    using ch by (cases p) (auto simp: main_tune_def run_then_Some tune_channels_None radio_of_def split: option.splits if_splits)
  then show "\<exists>n. su_locked io p ch n"
    by (auto simp: seen_locked_def)
qed

text \<open>The channel an action is about.\<close>

fun chan_of :: "setup_cmd \<Rightarrow> (path \<times> nat) option" where
  "chan_of (Set_freq p ch q) = Some (p, ch)"
| "chan_of (Set_antenna p ch a) = Some (p, ch)"
| "chan_of (Set_bandwidth p ch b) = Some (p, ch)"
| "chan_of (Set_gain p ch g) = Some (p, ch)"
| "chan_of (Set_lo_source p ch s) = Some (p, ch)"
| "chan_of (Lo_export p ch b) = Some (p, ch)"
| "chan_of c = None"

lemma setup_parts:
  assumes "main_setup cfg io = Some (None, cs)"
  obtains as rates s t frx ftx es where
    "cs = as @ rates @ s @ t @ frx @ ftx @ es" "\<forall>c \<in> set as. stage c \<le> 4"
    "main_rates cfg io = Some (None, rates)" "main_sync cfg io = Some (None, s)" "main_tune cfg io = Some (None, t)"
    "main_rx_frontend (cfg_rx cfg) io = Some (None, frx)" "main_tx_frontend (cfg_tx cfg) io = Some (None, ftx)"
    "setup_done io = Some (None, es)"
proof -
  let ?a = "run_all [main_mqtt cfg io, main_latency cfg io, main_connect cfg io]"
  have "run_then ?a (run_then (main_rates cfg io) (run_then (main_sync cfg io) (run_then (main_tune cfg io)
      (run_then (main_rx_frontend (cfg_rx cfg) io) (run_then (main_tx_frontend (cfg_tx cfg) io) (setup_done io)))))) =
    Some (None, cs)"
    using assms by (simp add: main_setup_def run_then_assoc)
  then obtain as bs where as: "?a = Some (None, as)" and bs: "cs = as @ bs" "run_then (main_rates cfg io)
      (run_then (main_sync cfg io) (run_then (main_tune cfg io) (run_then (main_rx_frontend (cfg_rx cfg) io)
      (run_then (main_tx_frontend (cfg_tx cfg) io) (setup_done io))))) = Some (None, bs)"
    by (cases rule: run_then_cases) blast+
  have "staged 0 4 ?a"
    unfolding run_all_simps by (rule staged_rules order.refl | simp)+
  with as have "\<forall>c \<in> set as. stage c \<le> 4"
    unfolding staged_def by blast
  with bs that show thesis
    by (auto simp: run_then_Some split: option.splits)
qed

lemma concat_upt_single: "concat (map (\<lambda>c. if c = ch then xs else []) [0..<n]) = (if ch < n then xs else [])"
  by (induction n) auto

lemma chan_stage: "chan_of c = Some x \<Longrightarrow> stage c \<in> {7, 8, 9}"
  by (cases c) (auto split: payload.splits)

lemma filter_chan_none: "(\<forall>c \<in> set cs. stage c \<notin> {7, 8, 9}) \<Longrightarrow> filter (\<lambda>c. chan_of c = Some x) cs = []"
  by (cases x) (metis (mono_tags, lifting) chan_stage filter_False)

lemma filter_chan_tune:
  "filter (\<lambda>c. chan_of c = Some (p, ch)) (concat (map (\<lambda>c. [Set_freq q c r, Logged (l c)]) [0..<n])) =
    (if q = p \<and> ch < n then [Set_freq p ch r] else [])"
proof -
  have "filter (\<lambda>c. chan_of c = Some (p, ch)) [Set_freq q c r, Logged (l c)] =
      (if c = ch then if q = p then [Set_freq p ch r] else [] else [])" for c
    by auto
  then show ?thesis
    by (simp add: filter_concat o_def concat_upt_single)
qed

lemma filter_chan_settings:
  "filter (\<lambda>c. chan_of c = Some (p, ch)) (concat (map (set_channel q rc w) [0..<n])) =
    (if q = p \<and> ch < n then set_channel p rc w ch else [])"
proof -
  have "filter (\<lambda>c. chan_of c = Some (p, ch)) (set_channel q rc w c) =
      (if c = ch then if q = p then set_channel p rc w ch else [] else [])" for c
    by (auto simp: set_channel_def)
  then show ?thesis
    by (simp add: filter_concat o_def concat_upt_single)
qed

lemma filter_chan_main_tune:
  assumes "main_tune cfg io = Some (None, t)"
  shows "filter (\<lambda>c. chan_of c = Some (p, ch)) t =
    (if path_used (radio_of cfg p) \<and> ch < su_channels io p then [Set_freq p ch (tune_request (radio_of cfg p))] else [])"
  using assms
  by (cases p) (auto simp: main_tune_def run_then_Some tune_channels_None radio_of_def filter_chan_tune split: option.splits if_splits)

lemma filter_chan_rx_frontend:
  assumes "main_rx_frontend rc io = Some (None, fs)"
  shows "\<exists>lo. filter (\<lambda>c. chan_of c = Some (p, ch)) fs =
      (if p = RX \<and> path_used rc \<and> ch < su_channels io p then set_channel p rc False ch @ lo else lo) \<and>
      (\<forall>c \<in> set lo. c = Lo_export p ch True \<or> (\<exists>s. c = Set_lo_source p ch s)) \<and>
      (\<not> (p = RX \<and> path_used rc) \<longrightarrow> lo = [])"
proof (cases "path_used rc")
  case True
  let ?sets = "concat (map (set_channel RX rc False) [0..<su_channels io RX])"
  let ?F = "filter (\<lambda>c. chan_of c = Some (p, ch))"
  have "radio_lo_source rc = [] \<or> radio_lo_source rc = ''twinrx_shared''"
    using assms True
    by (auto simp: main_rx_frontend_def run_when_def Let_def run_then_Some run_throw_def run_do_def split: option.splits if_splits)
  then obtain tw where tw: "fs = ?sets @ tw" "tw = [] \<or> tw = [Lo_export RX 0 True, Set_lo_source RX 0 ''internal'',
      Set_lo_source RX 1 ''companion'', Set_lo_source RX 2 ''external'', Set_lo_source RX 3 ''external'']"
    using assms True
    by (auto simp: main_rx_frontend_def run_when_def Let_def run_then_Some run_do_def device_calls_None starts_with_def
        split: option.splits if_splits)
  show ?thesis
    using tw(2) by (intro exI [of _ "?F tw"]) (auto simp: tw(1) True filter_chan_settings)
qed (use assms in \<open>auto simp: main_rx_frontend_def run_when_def run_do_def\<close>)

lemma filter_chan_tx_frontend:
  assumes "main_tx_frontend rc io = Some (None, fs)"
  shows "filter (\<lambda>c. chan_of c = Some (p, ch)) fs =
      (if p = TX \<and> path_used rc \<and> ch < su_channels io p then set_channel p rc (radio_lo_source rc \<noteq> []) ch else [])"
  using assms by (auto simp: main_tx_frontend_def run_when_def run_do_def device_calls_None filter_chan_settings split: if_splits)

lemma setup_split:
  assumes "main_setup cfg io = Some (None, cs)"
  obtains t frx ftx where
    "filter (\<lambda>c. \<exists>s r. c = Set_subdev p s \<or> c = Set_rate p r) cs =
      (if path_used (radio_of cfg p)
       then [Set_subdev p (radio_subdev (radio_of cfg p)), Set_rate p (radio_rate (radio_of cfg p))] else [])"
    "filter (\<lambda>c. chan_of c = Some x) cs = filter (\<lambda>c. chan_of c = Some x) (t @ frx @ ftx)"
    "main_tune cfg io = Some (None, t)"
    "main_rx_frontend (cfg_rx cfg) io = Some (None, frx)" "main_tx_frontend (cfg_tx cfg) io = Some (None, ftx)"
proof -
  from assms obtain as rates s t frx ftx es where
    cs: "cs = as @ rates @ s @ t @ frx @ ftx @ es" and as: "\<forall>c \<in> set as. stage c \<le> 4"
    and parts: "main_rates cfg io = Some (None, rates)" "main_sync cfg io = Some (None, s)" "main_tune cfg io = Some (None, t)"
    "main_rx_frontend (cfg_rx cfg) io = Some (None, frx)" "main_tx_frontend (cfg_tx cfg) io = Some (None, ftx)"
    "setup_done io = Some (None, es)"
    by (rule setup_parts)
  have "staged 7 7 (main_tune cfg io)"
    unfolding main_tune_def by (rule staged_rules order.refl)+
  with staged_steps parts have st: "\<forall>c \<in> set rates. stage c = 5" "\<forall>c \<in> set s. stage c = 6" "\<forall>c \<in> set t. stage c = 7"
    "\<forall>c \<in> set frx. stage c = 8" "\<forall>c \<in> set ftx. stage c = 9" "\<forall>c \<in> set es. stage c = 10"
    unfolding staged_def by (meson order.antisym)+
  let ?R = "filter (\<lambda>c. \<exists>s r. c = Set_subdev p s \<or> c = Set_rate p r)"
  have R: "\<forall>c \<in> set xs. stage c \<noteq> 5 \<Longrightarrow> ?R xs = []" for xs
    by (auto simp: filter_empty_conv)
  have "?R rates = (if path_used (radio_of cfg p)
      then [Set_subdev p (radio_subdev (radio_of cfg p)), Set_rate p (radio_rate (radio_of cfg p))] else [])"
    using parts(1) by (cases p) (auto simp: main_rates_def run_when_def run_then_Some run_do_def device_calls_None radio_of_def
        split: option.splits if_splits)
  moreover have "?R as = []" "?R s = []" "?R t = []" "?R frx = []" "?R ftx = []" "?R es = []"
    using as st by (intro R; force)+
  ultimately have 1: "?R cs = (if path_used (radio_of cfg p)
      then [Set_subdev p (radio_subdev (radio_of cfg p)), Set_rate p (radio_rate (radio_of cfg p))] else [])"
    by (simp add: cs)
  let ?F = "filter (\<lambda>c. chan_of c = Some x)"
  have "?F as = []" "?F rates = []" "?F s = []" "?F es = []"
    using as st by (intro filter_chan_none; force)+
  then have 2: "?F cs = ?F (t @ frx @ ftx)"
    by (simp add: cs)
  show thesis by (rule that [OF 1 2 parts(3-5)])
qed

text \<open>
  C37. A set-up that succeeds has configured what the configuration says: the subdevice and the rate
  of a path are set iff the path is used, and what a channel of a used path gets is, in this order,
  one tune request with the RF and DSP frequencies, the antenna if one is named, the bandwidth if
  it is positive, its gain, and then at most oscillator settings. A path that is not used gets
  nothing.
\<close>

theorem setup_settings:
  assumes "main_setup cfg io = Some (None, cs)"
  shows "filter (\<lambda>c. \<exists>s r. c = Set_subdev p s \<or> c = Set_rate p r) cs =
      (if path_used (radio_of cfg p)
       then [Set_subdev p (radio_subdev (radio_of cfg p)), Set_rate p (radio_rate (radio_of cfg p))] else []) \<and>
    (\<exists>lo. filter (\<lambda>c. chan_of c = Some (p, ch)) cs =
      (let rc = radio_of cfg p in
       if path_used rc \<and> ch < su_channels io p
       then Set_freq p ch (tune_request rc) #
         (if radio_antenna rc \<noteq> [] then [Set_antenna p ch (radio_antenna rc)] else []) @
         (if dless (Fin 0) (radio_bandwidth rc) then [Set_bandwidth p ch (radio_bandwidth rc)] else []) @
         Set_gain p ch (radio_gain rc) # lo
       else lo) \<and>
      (\<forall>c \<in> set lo. c = Lo_export p ch True \<or> (\<exists>s. c = Set_lo_source p ch s)) \<and>
      (\<not> path_used (radio_of cfg p) \<longrightarrow> lo = []))"
proof -
  let ?F = "filter (\<lambda>c. chan_of c = Some (p, ch))"
  from assms obtain t frx ftx where 1: "filter (\<lambda>c. \<exists>s r. c = Set_subdev p s \<or> c = Set_rate p r) cs =
      (if path_used (radio_of cfg p)
       then [Set_subdev p (radio_subdev (radio_of cfg p)), Set_rate p (radio_rate (radio_of cfg p))] else [])"
    and F: "?F cs = ?F (t @ frx @ ftx)" and parts: "main_tune cfg io = Some (None, t)"
    "main_rx_frontend (cfg_rx cfg) io = Some (None, frx)" "main_tx_frontend (cfg_tx cfg) io = Some (None, ftx)"
    by (rule setup_split)
  show ?thesis
  proof (cases p)
    case RX
    obtain lo where "?F frx = (if path_used (cfg_rx cfg) \<and> ch < su_channels io p
        then set_channel p (cfg_rx cfg) False ch @ lo else lo)"
      "\<forall>c \<in> set lo. c = Lo_export p ch True \<or> (\<exists>s. c = Set_lo_source p ch s)" "\<not> path_used (cfg_rx cfg) \<longrightarrow> lo = []"
      using filter_chan_rx_frontend [OF parts(2), of p ch] RX by auto
    then show ?thesis
      using 1 F filter_chan_main_tune [OF parts(1), of p ch] filter_chan_tx_frontend [OF parts(3), of p ch] RX
      by (intro conjI exI [of _ lo]) (auto simp: radio_of_def set_channel_def Let_def)
  next
    case TX
    let ?rc = "cfg_tx cfg"
    let ?lo = "if path_used ?rc \<and> ch < su_channels io p \<and> radio_lo_source ?rc \<noteq> [] then [Set_lo_source p ch (radio_lo_source ?rc)] else []"
    have "?F frx = []"
      using filter_chan_rx_frontend [OF parts(2), of p ch] TX by auto
    then show ?thesis
      using 1 F filter_chan_main_tune [OF parts(1), of p ch] filter_chan_tx_frontend [OF parts(3), of p ch] TX
      by (intro conjI exI [of _ ?lo]) (auto simp: radio_of_def set_channel_def Let_def)
  qed
qed

subsection \<open>When the set-up succeeds\<close>

definition run_ok :: "'c run \<Rightarrow> bool" where
  "run_ok r \<longleftrightarrow> (\<exists>cs. r = Some (None, cs))"

lemma run_ok_simps [simp]:
  "run_ok (run_do cs)" "\<not> run_ok (run_throw e)" "run_ok (run_then a b) \<longleftrightarrow> run_ok a \<and> run_ok b"
  "run_ok (run_when x a) \<longleftrightarrow> x \<longrightarrow> run_ok a" "run_ok (syscall msg err cs) \<longleftrightarrow> err = None"
  by (auto simp: run_ok_def run_do_def run_throw_def run_then_Some run_when_def syscall_def split: option.splits)

lemma run_ok_device [simp]:
  "run_ok (device_check t) \<longleftrightarrow> t = None"
  "run_ok (device_calls io cs) \<longleftrightarrow> (\<forall>c \<in> set cs. su_throws io c = None)"
  by (auto simp: run_ok_def device_check_Some device_calls_None)

lemma run_ok_tune:
  "run_ok (tune_channels p rc io) \<longleftrightarrow> (path_used rc \<longrightarrow> su_count_throws io p = None \<and>
     (\<forall>ch < su_channels io p. su_throws io (Set_freq p ch (tune_request rc)) = None \<and> seen_locked io p ch))"
  by (auto simp: run_ok_def tune_channels_None)

lemma run_ok_mqtt: "run_ok (main_mqtt cfg io) \<longleftrightarrow>
    (mqtt_host (cfg_mqtt cfg) \<noteq> ''0.0.0.0'' \<longrightarrow> (\<exists>c as. mqtt_new cfg (su_mqtt io) = (Inr c, as)))"
  by (auto simp: main_mqtt_def run_ok_def run_when_def run_do_def split: sum.split prod.split)

text \<open>The commands for a path, from its subdevice to the sharing of the receivers' oscillators.\<close>

definition path_cmds :: "config \<Rightarrow> setup_io \<Rightarrow> path \<Rightarrow> setup_cmd list" where
  "path_cmds cfg io p =
     (let rc = radio_of cfg p; lo = radio_lo_source rc; chs = [0..<su_channels io p] in
      if path_used rc
      then [Set_subdev p (radio_subdev rc), Set_rate p (radio_rate rc)] @ map (\<lambda>ch. Set_freq p ch (tune_request rc)) chs @
        concat (map (set_channel p rc (lo \<noteq> [] \<and> (p = RX \<longrightarrow> \<not> starts_with lo ''twinrx_''))) chs) @
        (if p = RX \<and> lo = ''twinrx_shared''
         then [Lo_export RX 0 True, Set_lo_source RX 0 ''internal'', Set_lo_source RX 1 ''companion'',
           Set_lo_source RX 2 ''external'', Set_lo_source RX 3 ''external'']
         else [])
      else [])"

text \<open>
  C38. The set-up succeeds exactly when the system calls, the MQTT client (if there is one), the
  connection and the synchronization do, no call to the device throws (asking for the channels,
  each command for a used path, and each reading of an oscillator's sensor up to the one that finds it
  locked, which has to come), and \<open>rx.lo_source\<close> is empty or \<^verbatim>\<open>twinrx_shared\<close> where the receiver is
  used: every other value of it ends the program, even where the device accepts it. For the
  transmitter the program accepts every value.
\<close>

theorem setup_succeeds:
  "(\<exists>cs. main_setup cfg io = Some (None, cs)) \<longleftrightarrow>
    (mqtt_host (cfg_mqtt cfg) \<noteq> ''0.0.0.0'' \<longrightarrow> (\<exists>c as. mqtt_new cfg (su_mqtt io) = (Inr c, as))) \<and>
    (0 \<le>s cfg_dma_latency_usec cfg \<longrightarrow> su_latency_open io = None \<and> su_latency_write io = None) \<and>
    su_getscheduler io = None \<and> su_getparam io = None \<and> su_setscheduler io = None \<and> su_make io = None \<and>
    su_restore io = None \<and> (\<exists>cs. main_sync cfg io = Some (None, cs)) \<and>
    (\<forall>p. (\<forall>c \<in> set (path_cmds cfg io p). su_throws io c = None) \<and>
      (path_used (radio_of cfg p) \<longrightarrow> su_count_throws io p = None \<and>
        (\<forall>ch < su_channels io p. \<exists>n. su_locked io p ch n \<and> (\<forall>i \<le> n. su_sensor_throws io p ch i = None)))) \<and>
    (path_used (cfg_rx cfg) \<longrightarrow> radio_lo_source (cfg_rx cfg) \<in> {[], ''twinrx_shared''})"
proof -
  let ?rx = "cfg_rx cfg" and ?tx = "cfg_tx cfg"
  let ?ok = "\<lambda>cs. \<forall>c \<in> set cs. su_throws io c = None"
  have paths: "(\<forall>p. P p) \<longleftrightarrow> P RX \<and> P TX" for P
    by (metis path.exhaust)
  have ok_rx: "?ok (path_cmds cfg io RX) \<and> (path_used ?rx \<longrightarrow> su_count_throws io RX = None \<and>
        (\<forall>ch < su_channels io RX. seen_locked io RX ch)) \<and>
      (path_used ?rx \<longrightarrow> radio_lo_source ?rx \<in> {[], ''twinrx_shared''}) \<longleftrightarrow>
    run_ok (run_when (path_used ?rx) (device_calls io [Set_subdev RX (radio_subdev ?rx), Set_rate RX (radio_rate ?rx)])) \<and>
      run_ok (tune_channels RX ?rx io) \<and> run_ok (main_rx_frontend ?rx io)"
    unfolding run_ok_tune main_rx_frontend_def Let_def run_ok_simps path_cmds_def radio_of_def
    by (cases "path_used ?rx"; cases "radio_lo_source ?rx = ''twinrx_shared''"; cases "radio_lo_source ?rx = []")
      (auto simp: starts_with_def)
  have ok_tx: "?ok (path_cmds cfg io TX) \<and> (path_used ?tx \<longrightarrow> su_count_throws io TX = None \<and>
        (\<forall>ch < su_channels io TX. seen_locked io TX ch)) \<longleftrightarrow>
    run_ok (run_when (path_used ?tx) (device_calls io [Set_subdev TX (radio_subdev ?tx), Set_rate TX (radio_rate ?tx)])) \<and>
      run_ok (tune_channels TX ?tx io) \<and> run_ok (main_tx_frontend ?tx io)"
    unfolding run_ok_tune main_tx_frontend_def Let_def run_ok_simps path_cmds_def radio_of_def
    by (cases "path_used ?tx") auto
  have parts: "run_ok (main_rates cfg io) \<and> run_ok (main_tune cfg io) \<and> run_ok (main_rx_frontend ?rx io) \<and>
      run_ok (main_tx_frontend ?tx io) \<longleftrightarrow>
    (\<forall>p. ?ok (path_cmds cfg io p) \<and> (path_used (radio_of cfg p) \<longrightarrow> su_count_throws io p = None \<and>
        (\<forall>ch < su_channels io p. seen_locked io p ch))) \<and>
    (path_used ?rx \<longrightarrow> radio_lo_source ?rx \<in> {[], ''twinrx_shared''})"
    unfolding paths main_rates_def main_tune_def run_ok_simps(3)
    using ok_rx ok_tx by (simp add: radio_of_def) blast
  have make: "run_ok (case su_make io of None \<Rightarrow> run_do cs | Some msg \<Rightarrow> run_throw (f msg)) \<longleftrightarrow> su_make io = None"
    for cs :: "setup_cmd list" and f
    by (cases "su_make io") simp_all
  have "run_ok (main_setup cfg io) \<longleftrightarrow> run_ok (main_mqtt cfg io) \<and> run_ok (main_latency cfg io) \<and>
      run_ok (main_connect cfg io) \<and> run_ok (main_sync cfg io) \<and>
      (run_ok (main_rates cfg io) \<and> run_ok (main_tune cfg io) \<and> run_ok (main_rx_frontend ?rx io) \<and>
       run_ok (main_tx_frontend ?tx io))"
    by (simp add: main_setup_def setup_done_def) blast
  moreover have "run_ok (main_latency cfg io) \<longleftrightarrow>
      (0 \<le>s cfg_dma_latency_usec cfg \<longrightarrow> su_latency_open io = None \<and> su_latency_write io = None)"
    by (simp add: main_latency_def)
  moreover have "run_ok (main_connect cfg io) \<longleftrightarrow> su_getscheduler io = None \<and> su_getparam io = None \<and>
      su_setscheduler io = None \<and> su_make io = None \<and> su_restore io = None"
    by (simp add: main_connect_def make)
  ultimately show ?thesis
    unfolding parts run_ok_def [symmetric] run_ok_mqtt seen_locked_def by blast
qed

subsection \<open>Examples\<close>

text \<open>A receiver with two channels, synchronized to the host; the second oscillator locks late.\<close>

definition demo_config :: config where
  "demo_config = default_config\<lparr>cfg_rx := (cfg_rx default_config)\<lparr>radio_subdev := ''A:0 B:0'', radio_antenna := ''RX2'',
     radio_gain := Fin 10, radio_rate := Fin 1000\<rparr>\<rparr>"

definition demo_setup :: setup_io where
  "demo_setup =
     \<lparr>su_mqtt = \<lparr>mi_hostname = Inr [], mi_new = False, mi_int_option = 0, mi_username = 0, mi_threaded = 0, mi_connect = 0,
        mi_socket = None, mi_setsockopt = None\<rparr>,
      su_latency_open = None, su_latency_write = None, su_getscheduler = None, su_getparam = None,
      su_setscheduler = None, su_make = None, su_restore = None, su_channels = \<lambda>p. 2, su_sync = demo_sync,
      su_tuned = \<lambda>p ch. \<lparr>tr_clipped_rf_freq = Fin 0, tr_target_rf_freq = Fin 0, tr_actual_rf_freq = Fin 0,
        tr_target_dsp_freq = Fin 0, tr_actual_dsp_freq = Fin 0\<rparr>,
      su_locked = \<lambda>p ch n. ch \<le> n, su_throws = \<lambda>c. None, su_count_throws = \<lambda>p. None,
      su_sensor_throws = \<lambda>p ch n. None, su_sync_throws = None,
      su_usrp = (let g = \<lparr>get_num_channels = 2, get_antenna = \<lambda>_. [], get_bandwidth = \<lambda>_. Fin 0, get_freq = \<lambda>_. Fin 0,
                   get_gain = \<lambda>_. Fin 0, get_lo_source = \<lambda>_. [], get_rate = \<lambda>_. Fin 0, get_info = \<lambda>_. []\<rparr>
                 in \<lparr>usrp_rx = g, usrp_tx = g, usrp_mboards = []\<rparr>)\<rparr>"

lemma demo_sync_ok: "\<exists>cs. main_sync (demo_config\<lparr>cfg_rx := r\<rparr>) (demo_setup\<lparr>su_throws := t\<rparr>) = Some (None, cs)"
  by (simp add: main_sync_def demo_config_def demo_setup_def default_config_def Let_def run_map_def run_cut_def sync_host_def run_do_def)

text \<open>
  The witness of \<open>setup_succeeds\<close>; another name for the oscillator source makes it fail, and so
  does a device that does not know the antenna.
\<close>

theorem setup_succeeds_witness:
  "(\<exists>cs. main_setup demo_config demo_setup = Some (None, cs)) \<and>
   \<not> (\<exists>cs. main_setup (demo_config\<lparr>cfg_rx := (cfg_rx demo_config)\<lparr>radio_lo_source := ''external''\<rparr>\<rparr>) demo_setup = Some (None, cs)) \<and>
   \<not> (\<exists>cs. main_setup demo_config (demo_setup\<lparr>su_throws := \<lambda>c. if c = Set_antenna RX 1 ''RX2'' then Some ''no such antenna'' else None\<rparr>) =
     Some (None, cs))"
proof (intro conjI)
  have "demo_config = demo_config\<lparr>cfg_rx := cfg_rx demo_config\<rparr>" "demo_setup = demo_setup\<lparr>su_throws := su_throws demo_setup\<rparr>"
    by simp_all
  with demo_sync_ok have "\<exists>cs. main_sync demo_config demo_setup = Some (None, cs)" by metis
  then show "\<exists>cs. main_setup demo_config demo_setup = Some (None, cs)"
    unfolding setup_succeeds by (auto simp: demo_config_def demo_setup_def default_config_def path_used_def radio_of_def)
  show "\<not> (\<exists>cs. main_setup (demo_config\<lparr>cfg_rx := (cfg_rx demo_config)\<lparr>radio_lo_source := ''external''\<rparr>\<rparr>) demo_setup = Some (None, cs))"
    unfolding setup_succeeds by (simp add: demo_config_def path_used_def)
  let ?su = "demo_setup\<lparr>su_throws := \<lambda>c. if c = Set_antenna RX 1 ''RX2'' then Some ''no such antenna'' else None\<rparr>"
  have planned: "Set_antenna RX 1 ''RX2'' \<in> set (path_cmds demo_config ?su RX)"
    by (simp add: path_cmds_def demo_config_def demo_setup_def default_config_def path_used_def radio_of_def
        set_channel_def upt_rec Let_def)
  show "\<not> (\<exists>cs. main_setup demo_config ?su = Some (None, cs))"
  proof
    assume "\<exists>cs. main_setup demo_config ?su = Some (None, cs)"
    from this [unfolded setup_succeeds] have "\<forall>c \<in> set (path_cmds demo_config ?su RX). su_throws ?su c = None"
      by (elim conjE) (erule allE [of _ RX], elim conjE, assumption)
    from bspec [OF this planned] show False by simp
  qed
qed

lemma demo_setup_runs:
  obtains cs where "main_setup demo_config demo_setup = Some (None, cs)"
proof -
  have "demo_config = demo_config\<lparr>cfg_rx := cfg_rx demo_config\<rparr>" "demo_setup = demo_setup\<lparr>su_throws := su_throws demo_setup\<rparr>"
    by simp_all
  with demo_sync_ok have sync: "\<exists>cs. main_sync demo_config demo_setup = Some (None, cs)" by metis
  have locked: "seen_locked demo_setup p ch" for p ch
    by (auto simp: seen_locked_def demo_setup_def)
  have "run_ok (main_mqtt demo_config demo_setup)" "run_ok (main_latency demo_config demo_setup)"
    "run_ok (main_connect demo_config demo_setup)" "run_ok (main_sync demo_config demo_setup)"
    "run_ok (main_rates demo_config demo_setup)"
    "run_ok (main_rx_frontend (cfg_rx demo_config) demo_setup)" "run_ok (main_tune demo_config demo_setup)"
    "run_ok (main_tx_frontend (cfg_tx demo_config) demo_setup)"
    using sync locked
    by (auto simp: run_ok_mqtt main_latency_def main_connect_def main_rates_def main_rx_frontend_def main_tx_frontend_def
        main_tune_def run_ok_tune Let_def run_ok_def [symmetric] demo_config_def demo_setup_def default_config_def path_used_def)
  then show thesis
    using that by (force simp: main_setup_def setup_done_def run_ok_def [symmetric])
qed

theorem setup_order_witness:
  "\<exists>cs. main_setup demo_config demo_setup = Some (None, cs) \<and> sorted (map stage cs)"
proof -
  obtain cs where cs: "main_setup demo_config demo_setup = Some (None, cs)" by (rule demo_setup_runs)
  from setup_order [OF this] cs show ?thesis by blast
qed

theorem setup_settings_witness:
  "\<exists>cs. main_setup demo_config demo_setup = Some (None, cs) \<and>
    (\<exists>lo. filter (\<lambda>c. chan_of c = Some (RX, 1)) cs =
      Set_freq RX 1 (tune_request (cfg_rx demo_config)) # Set_antenna RX 1 ''RX2'' # Set_gain RX 1 (Fin 10) # lo)"
proof -
  obtain cs where cs: "main_setup demo_config demo_setup = Some (None, cs)" by (rule demo_setup_runs)
  from setup_settings [OF this, of RX 1] cs show ?thesis
    by (auto simp: Let_def radio_of_def demo_config_def demo_setup_def default_config_def path_used_def)
qed

end
