(* ===== verification/Program.thy ===== *)
theory Program
  imports Setup Shm "HOL-Library.Signed_Division"
begin

text \<open>
  The program, \<open>main\<close> in \<^verbatim>\<open>src/main.cpp\<close>: the checks before the first resource is taken, the set-up of
  \<^verbatim>\<open>Setup\<close>, the start of the threads, the main loop with its signals, checks of the threads, status line
  and MQTT status, and the ways to the exit code. A turn of the loop is a function of what it reads,
  its result is how the turn ends and the actions it made. The theorems: what the signals toggle, which
  status is published when, what the exit code means, and that the program leaves the system as it
  was.
\<close>

subsection \<open>Data\<close>

datatype signal = SIGHUP | SIGINT | SIGTERM | SIGUSR1 | SIGUSR2

datatype main_act =
    Wait_signal int
  | Wr_start string u64
  | Wr_stop
  | Toggle_mute
  | Log_entry payload
  | Console_status status
  | Publish string "8 word list"
  | Sleep_ms nat
  | Console_error string

text \<open>
  The loop's variables: whether there is a file writer, whether the transmitter is muted (the flag
  is a member of \<open>Tx\<close>, but only this thread changes it), and the second of the last publication.
\<close>

record main_state =
  ma_wr :: bool
  ma_muted :: bool
  ma_last_publish :: u64

text \<open>What the threads and the file system report when asked; asking for the space may throw.\<close>

record readings =
  rd_rx_seconds :: dbl
  rd_tx_seconds :: dbl
  rd_wr_running :: bool
  rd_wr_seconds :: dbl
  rd_wr_backlog :: u64
  rd_space :: "string + u64"

text \<open>
  What a turn meets, in order: the system clock, what \<open>sigtimedwait\<close> returns (or its error number),
  the device's second and the constructor's exception when a file writer is started, the flags of the
  threads, the device's time, the readings for the console, the system clock in seconds, the
  readings for MQTT, the receiver's flag, and the rings when a block of channel \<open>ch\<close> is chosen and
  when its sample \<open>i\<close> is read.
\<close>

record turn_io =
  tu_time_ns :: u64
  tu_signal :: "int + signal"
  tu_full_secs :: int
  tu_wr_new :: "exc option"
  tu_logger :: bool
  tu_mqtt :: bool
  tu_rx :: bool
  tu_tx :: bool
  tu_now :: time_spec
  tu_status :: readings
  tu_time_sec :: u64
  tu_publish :: readings
  tu_rx_still :: bool
  tu_rings :: "sample ringbuf list"
  tu_read :: "nat \<Rightarrow> nat \<Rightarrow> sample ringbuf"

text \<open>How a turn, or the loop, goes on: with a state, by \<open>break\<close> with an exit code, or by an exception.\<close>

datatype outcome = Go main_state | Leave int | Raise exc

type_synonym step = "outcome \<times> main_act list"

definition step_then :: "step \<Rightarrow> (main_state \<Rightarrow> step) \<Rightarrow> step" where
  "step_then s f =
     (case s of (Go st, as) \<Rightarrow> (let (r, bs) = f st in (r, as @ bs)) | (r, as) \<Rightarrow> (r, as))"

definition has_mqtt :: "config \<Rightarrow> bool" where
  "has_mqtt cfg \<longleftrightarrow> mqtt_host (cfg_mqtt cfg) \<noteq> ''0.0.0.0''"

subsection \<open>A turn of the loop\<close>

text \<open>The rest of the division is C's, of the time as a \<open>long\<close>.\<close>

definition main_timeout :: "u64 \<Rightarrow> int" where
  "main_timeout time_ns = 100000000 - sint time_ns smod 100000000"

definition wr_prefix :: "config \<Rightarrow> string \<Rightarrow> string" where
  "wr_prefix cfg hostname =
     path_join (cfg_wr_directory cfg) (''rx_'' @ hostname @ ''_'' @ usrp_args (cfg_usrp cfg))"

definition wr_start_ns :: "int \<Rightarrow> u64" where
  "wr_start_ns full_secs = word_of_int (full_secs + 1) * 1000000000"

text \<open>The error numbers \<open>EINTR\<close> and \<open>EAGAIN\<close> are 4 and 11.\<close>

definition main_signal :: "config \<Rightarrow> string \<Rightarrow> turn_io \<Rightarrow> main_state \<Rightarrow> step" where
  "main_signal cfg hostname io st =
     (let wait = Wait_signal (main_timeout (tu_time_ns io)) in
      case tu_signal io of
        Inl e \<Rightarrow> if e \<noteq> 11 \<and> e \<noteq> 4 then (Raise (Syscall_error ''sigtimedwait() failed'' e), [wait]) else (Go st, [wait])
      | Inr sig \<Rightarrow>
          if sig = SIGINT \<or> sig = SIGTERM
          then (Leave 0, [wait, Log_entry (Misc INFO ''Signal SIGINT or SIGTERM received. Exiting gracefully.'')])
          else if sig = SIGUSR1 \<and> path_used (cfg_rx cfg)
          then if ma_wr st
               then (Go (st\<lparr>ma_wr := False\<rparr>),
                     [wait, Log_entry (Misc INFO ''Signal SIGUSR1 received. File writer stopped.''), Wr_stop])
               else let start = [wait, Log_entry (Misc INFO ''Signal SIGUSR1 received. File writer started.'')]
                    in (case tu_wr_new io of
                          Some e \<Rightarrow> (Raise e, start)
                        | None \<Rightarrow> (Go (st\<lparr>ma_wr := True\<rparr>),
                            start @ [Wr_start (wr_prefix cfg hostname) (wr_start_ns (tu_full_secs io))]))
          else if sig = SIGUSR2 \<and> path_used (cfg_tx cfg)
          then (Go (st\<lparr>ma_muted := \<not> ma_muted st\<rparr>),
                [wait, Log_entry (Misc INFO ''Signal SIGUSR2 received. Tx mute toggled.''), Toggle_mute])
          else (Go st, [wait]))"

definition main_checks :: "config \<Rightarrow> turn_io \<Rightarrow> main_state \<Rightarrow> step" where
  "main_checks cfg io st =
     (if \<not> tu_logger io
      then (Leave 1, [Console_error ''Logging thread stopped unexpectedly. Logging is broken. Terminating.''])
      else if has_mqtt cfg \<and> \<not> tu_mqtt io
      then (Leave 1, [Log_entry (Misc FATAL ''MQTT client thread stopped unexpectedly. Terminating.'')])
      else if path_used (cfg_rx cfg) \<and> \<not> tu_rx io
      then (Leave 1, [Log_entry (Misc FATAL ''Rx thread stopped unexpectedly. Terminating.'')])
      else if path_used (cfg_tx cfg) \<and> \<not> tu_tx io
      then (Leave 1, [Log_entry (Misc FATAL ''Tx thread stopped unexpectedly. Terminating.'')])
      else (Go st, []))"

text \<open>The available space, asked for only with a receiver.\<close>

definition main_space :: "config \<Rightarrow> readings \<Rightarrow> u64 res" where
  "main_space cfg rd =
     (if path_used (cfg_rx cfg)
      then case rd_space rd of Inl msg \<Rightarrow> Inl (Library_error msg) | Inr n \<Rightarrow> Inr n
      else Inr 0)"

definition main_status :: "config \<Rightarrow> turn_io \<Rightarrow> main_state \<Rightarrow> step" where
  "main_status cfg io st =
     (let rd = tu_status io in
      case main_space cfg rd of
        Inl e \<Rightarrow> (Raise e, [])
      | Inr space \<Rightarrow>
          (Go st, [Console_status
            \<lparr>st_time = tu_now io,
             st_rx = (if path_used (cfg_rx cfg) then rd_rx_seconds rd else Fin (- 1)),
             st_tx = (if path_used (cfg_tx cfg) then if \<not> ma_muted st then rd_tx_seconds rd else Fin 0 else Fin (- 1)),
             st_wr = (if ma_wr st then if rd_wr_running rd then rd_wr_seconds rd else Fin (- 2) else Fin (- 1)),
             st_wr_queue = (if ma_wr st then rd_wr_backlog rd else 0),
             st_wr_free = space\<rparr>]))"

definition status_json :: "config \<Rightarrow> turn_io \<Rightarrow> main_state \<Rightarrow> json res" where
  "status_json cfg io st =
     (let rd = tu_publish io; rx = path_used (cfg_rx cfg) in
      and_then (main_space cfg rd) (\<lambda>space.
      and_then (spec_ns (tu_now io)) (\<lambda>ns.
      Inr (JObject
        [(''time_ns'', JUint ns),
         (''rx_seconds'', if rx then JDouble (rd_rx_seconds rd) else JNull),
         (''tx_seconds'', if path_used (cfg_tx cfg)
            then if \<not> ma_muted st then JDouble (rd_tx_seconds rd) else JString ''MUTE'' else JNull),
         (''wr_seconds'', if ma_wr st
            then if rd_wr_running rd then JDouble (rd_wr_seconds rd) else JString ''FAILED'' else JNull),
         (''wr_backlog'', if ma_wr st then JUint (rd_wr_backlog rd) else JNull),
         (''wr_free'', if rx then JUint space else JNull)]))))"

definition string_bytes :: "string \<Rightarrow> 8 word list" where
  "string_bytes s = map of_char s"

text \<open>The samples of one channel; a span that starts before the mapping is undefined behaviour.\<close>

definition publish_channel :: "config \<Rightarrow> turn_io \<Rightarrow> nat \<Rightarrow> main_act res" where
  "publish_channel cfg io ch =
     and_then (get_aligned_samples (tu_rings io ! ch) (mqtt_pub_samples (cfg_mqtt cfg))) (\<lambda>sp.
       if sp_off sp < 0 then Inl (Undefined ''span outside of the ring'')
       else Inr (Publish (''rx_samples/'' @ show_nat ch)
         (samples_bytes (map (\<lambda>i. rb_mem (tu_read io ch i) ! (nat (sp_off sp) + i)) [0..<unat (sp_size sp)]))))"

fun publish_channels :: "config \<Rightarrow> turn_io \<Rightarrow> nat list \<Rightarrow> main_state \<Rightarrow> step" where
  "publish_channels cfg io [] st = (Go st, [])"
| "publish_channels cfg io (ch # chs) st =
     (case publish_channel cfg io ch of
        Inl e \<Rightarrow> (Raise e, [])
      | Inr a \<Rightarrow> step_then (Go st, [a]) (publish_channels cfg io chs))"

definition main_publish :: "config \<Rightarrow> turn_io \<Rightarrow> main_state \<Rightarrow> step" where
  "main_publish cfg io st =
     (if \<not> has_mqtt cfg \<or> tu_time_sec io = ma_last_publish st then (Go st, [])
      else let st = st\<lparr>ma_last_publish := tu_time_sec io\<rparr> in
        case status_json cfg io st of
          Inl e \<Rightarrow> (Raise e, [])
        | Inr obj \<Rightarrow> step_then (Go st, [Publish [] (string_bytes (dump obj))])
            (if mqtt_pub_samples (cfg_mqtt cfg) \<noteq> 0 \<and> path_used (cfg_rx cfg) \<and> tu_rx_still io
             then (\<lambda>st. step_then (Go st, [Sleep_ms 100]) (publish_channels cfg io [0..<length (tu_rings io)]))
             else (\<lambda>st. (Go st, []))))"

definition main_turn :: "config \<Rightarrow> string \<Rightarrow> turn_io \<Rightarrow> main_state \<Rightarrow> step" where
  "main_turn cfg hostname io st =
     step_then (step_then (step_then (main_signal cfg hostname io st) (main_checks cfg io)) (main_status cfg io))
       (main_publish cfg io)"

text \<open>The loop over the turns that were made so far.\<close>

fun main_loop :: "config \<Rightarrow> string \<Rightarrow> turn_io list \<Rightarrow> main_state \<Rightarrow> step" where
  "main_loop cfg hostname [] st = (Go st, [])"
| "main_loop cfg hostname (io # ios) st = step_then (main_turn cfg hostname io st) (main_loop cfg hostname ios)"

definition main_start :: main_state where
  "main_start = \<lparr>ma_wr = False, ma_muted = False, ma_last_publish = 0\<rparr>"

subsection \<open>The threads\<close>

text \<open>
  What the constructors of \<open>Rx\<close> and \<open>Tx\<close> meet: the calls for the rings of each channel, whether the
  receive thread counts the latch down, the size of the transmit file (or the exception of asking for it), and its bytes if
  it can be opened.
\<close>

record threads_io =
  th_shm :: "(shm_io \<times> shm_io) list"
  th_rx_ready :: bool
  th_tx_size :: "string + nat"
  th_tx_bytes :: "8 word list option"

definition tx_new :: "config \<Rightarrow> threads_io \<Rightarrow> sample list res" where
  "tx_new cfg th =
     (case th_tx_size th of
        Inl msg \<Rightarrow> Inl (Library_error msg)
      | Inr n \<Rightarrow> tx_load (cfg_tx_file cfg) n (th_tx_bytes th))"

definition tx_loaded :: "config \<Rightarrow> sample list \<Rightarrow> payload" where
  "tx_loaded cfg sig = Misc DEBUG (''Tx signal loaded from file '' @ quoted (cfg_tx_file cfg) @ '' ('' @
     show_nat (length sig) @ '' samples).'')"

text \<open>
  Starting the threads that are configured: the ring buffers of the receiver or the exception, the
  messages, and the system after it; an exception of the transmitter destroys the receiver.
\<close>

definition main_tx :: "config \<Rightarrow> threads_io \<Rightarrow> ring_obj list \<Rightarrow> os \<Rightarrow> ring_obj list res \<times> main_act list \<times> os" where
  "main_tx cfg th rings os =
     (if path_used (cfg_tx cfg)
      then case tx_new cfg th of
             Inl e \<Rightarrow> (Inl e, [], fold ring_delete rings os)
           | Inr sig \<Rightarrow> (Inr rings, [Log_entry (tx_loaded cfg sig)], os)
      else (Inr rings, [], os))"

definition main_threads :: "kernel \<Rightarrow> config \<Rightarrow> threads_io \<Rightarrow> os \<Rightarrow> (ring_obj list res \<times> main_act list \<times> os) option" where
  "main_threads k cfg th os =
     (if path_used (cfg_rx cfg)
      then case rx_rings k cfg 0 (th_shm th) [] os of
             (Inl e, os) \<Rightarrow> Some (Inl e, [], os)
           | (Inr rings, os) \<Rightarrow> if th_rx_ready th then Some (main_tx cfg th rings os) else None
      else Some (main_tx cfg th [] os))"

subsection \<open>The process\<close>

datatype proc_act =
    Usage
  | Setup_act setup_cmd
  | Main_act main_act
  | Fatal_console exc

text \<open>
  What \<open>main\<close> meets before its second \<open>try\<close>: the number of arguments, the configuration file, the
  results of \<open>pthread_sigmask\<close> and \<open>gethostname\<close>, the inputs of the logger's constructor, and the
  error of opening the PID file.
\<close>

record start_io =
  pi_argc :: int
  pi_config :: "config res"
  pi_sigmask :: int
  pi_hostname :: "int + string"
  pi_uname :: "int + string"
  pi_log_open :: "int option"
  pi_secs :: nat
  pi_git_origin :: string
  pi_git_hash :: string
  pi_pid_open :: "int option"

definition log_prefix :: "string \<Rightarrow> config \<Rightarrow> string" where
  "log_prefix hostname cfg = ''usrp_rxtx_'' @ hostname @ ''_'' @ usrp_args (cfg_usrp cfg)"

definition pid_file :: "string \<Rightarrow> config \<Rightarrow> string" where
  "pid_file hostname cfg = ''usrp_rxtx_'' @ hostname @ ''_'' @ usrp_args (cfg_usrp cfg) @ ''.pid''"

text \<open>Up to the logger: the configuration, the host's name and the logger.\<close>

definition main_begin :: "start_io \<Rightarrow> (config \<times> string \<times> logger) res" where
  "main_begin io =
     and_then (pi_config io) (\<lambda>cfg.
       if pi_sigmask io \<noteq> 0 then Inl (Syscall_error ''pthread_sigmask() failed'' (pi_sigmask io))
       else case pi_hostname io of
              Inl e \<Rightarrow> Inl (Syscall_error ''gethostname() failed'' e)
            | Inr hostname \<Rightarrow>
                and_then (logger_new (pi_hostname io) (pi_uname io) (pi_log_open io) (pi_secs io) (log_prefix hostname cfg)
                    (pi_git_origin io) (pi_git_hash io) (to_json cfg))
                  (\<lambda>(path, lg). Inr (cfg, hostname, lg)))"

text \<open>The second \<open>try\<close>: set-up, threads, loop. What was constructed is destroyed when it ends.\<close>

definition main_body :: "kernel \<Rightarrow> config \<Rightarrow> string \<Rightarrow> setup_io \<Rightarrow> threads_io \<Rightarrow> turn_io list \<Rightarrow> os \<Rightarrow>
    (outcome \<times> proc_act list \<times> os) option" where
  "main_body k cfg hostname su th ios os =
     (case main_setup cfg su of
        None \<Rightarrow> None
      | Some (Some e, cs) \<Rightarrow> Some (Raise e, map Setup_act cs, os)
      | Some (None, cs) \<Rightarrow>
          (case main_threads k cfg th os of
             None \<Rightarrow> None
           | Some (Inl e, as, os) \<Rightarrow> Some (Raise e, map Setup_act cs @ map Main_act as, os)
           | Some (Inr rings, as, os) \<Rightarrow>
               (let (r, bs) = main_loop cfg hostname ios main_start
                in Some (r, map Setup_act cs @ map Main_act as @ map Main_act bs,
                         case r of Go st \<Rightarrow> os | _ \<Rightarrow> fold ring_delete rings os))))"

text \<open>The exit code and what is logged before; \<open>wh\<close> is the text of an exception.\<close>

definition main_exit :: "(exc \<Rightarrow> string) \<Rightarrow> outcome \<Rightarrow> int \<times> payload list" where
  "main_exit wh r =
     (case r of
        Raise e \<Rightarrow> (1, [Exception (Some (wh e)), Misc FATAL ''Exception occurred in main thread. Terminating.''])
      | Leave code \<Rightarrow> (code, [])
      | Go st \<Rightarrow> (0, []))"

text \<open>The handler of \<open>main\<close> itself: an exception where the logger may not exist goes to the console.\<close>

definition main_uncaught :: "proc_act list \<Rightarrow> exc \<Rightarrow> os \<Rightarrow> (int option \<times> proc_act list \<times> os) option" where
  "main_uncaught as e os = Some (Some 1, as @ [Fatal_console e], os)"

lemma main_uncaught_eq [simp]: "main_uncaught as e os = Some (Some 1, as @ [Fatal_console e], os)"
  by (simp add: main_uncaught_def)

text \<open>
  The program: \<open>None\<close> when it hangs before the loop, otherwise the exit code (none while the loop
  goes on), the actions, and the system after it. The system is the files of the shared memory and
  the PID file, and the descriptors and mappings.
\<close>

definition main_program :: "kernel \<Rightarrow> (exc \<Rightarrow> string) \<Rightarrow> start_io \<Rightarrow> setup_io \<Rightarrow> threads_io \<Rightarrow> turn_io list \<Rightarrow> os \<Rightarrow>
    (int option \<times> proc_act list \<times> os) option" where
  "main_program k wh io su th ios os =
     (if pi_argc io \<noteq> 2 then Some (Some 1, [Usage], os)
      else case main_begin io of
        Inl e \<Rightarrow> main_uncaught [] e os
      | Inr (cfg, hostname, lg) \<Rightarrow>
          (let pid = pid_file hostname cfg; hello = Main_act (Log_entry (Misc INFO ''Initializing ...'')) in
           if pid \<in> os_files os
           then main_uncaught [hello] (Generic_error (''PID file '' @ pid @ '' already exists'')) os
           else case pi_pid_open io of
             Some e \<Rightarrow> main_uncaught [hello] (Syscall_error (''error opening PID file '' @ pid) e) os
           | None \<Rightarrow>
               (case main_body k cfg hostname su th ios (os\<lparr>os_files := insert pid (os_files os)\<rparr>) of
                  None \<Rightarrow> None
                | Some (Go st, as, os) \<Rightarrow> Some (None, hello # as, os)
                | Some (r, as, os) \<Rightarrow>
                    (let (code, msgs) = main_exit wh r
                     in Some (Some code, hello # as @ map (\<lambda>p. Main_act (Log_entry p)) (msgs @ [Exit code]),
                              os_unlink pid os)))))"

subsection \<open>Lemmas on steps\<close>

lemma step_then_cases [consumes 1, case_names go stop]:
  assumes "step_then s f = (r, cs)"
  obtains st as bs where "s = (Go st, as)" "f st = (r, bs)" "cs = as @ bs"
    | "s = (r, cs)" "\<nexists>st. r = Go st"
proof -
  obtain q as where s: "s = (q, as)" by fastforce
  show thesis
  proof (cases q)
    case (Go st)
    obtain r' bs where f: "f st = (r', bs)" by fastforce
    with assms s Go have "r' = r" "cs = as @ bs" by (simp_all add: step_then_def)
    with s Go f that(1) show thesis by simp
  qed (use assms s that(2) in \<open>auto simp: step_then_def\<close>)
qed

lemma main_signal_split:
  "main_turn cfg hostname io st = step_then (main_signal cfg hostname io st)
     (\<lambda>st. step_then (step_then (main_checks cfg io st) (main_status cfg io)) (main_publish cfg io))"
  by (auto simp: main_turn_def step_then_def split: prod.splits outcome.splits)

text \<open>The actions that control the writer and the transmitter.\<close>

definition is_control :: "main_act \<Rightarrow> bool" where
  "is_control a \<longleftrightarrow> (case a of Wr_start p t \<Rightarrow> True | Wr_stop \<Rightarrow> True | Toggle_mute \<Rightarrow> True | _ \<Rightarrow> False)"

lemma publish_channels_Go:
  assumes "publish_channels cfg io chs st = (Go st', as)"
  shows "st' = st \<and> list_all (\<lambda>a. \<not> is_control a \<and> (\<nexists>p. a = Publish [] p)) as"
  using assms
proof (induction chs arbitrary: as)
  case (Cons ch chs)
  then obtain a where a: "publish_channel cfg io ch = Inr a" by (auto split: sum.splits)
  with Cons.prems have "step_then (Go st, [a]) (publish_channels cfg io chs) = (Go st', as)" by simp
  then show ?case
  proof (cases rule: step_then_cases)
    case (go st1 xs bs)
    moreover have "\<not> is_control a \<and> (\<nexists>p. a = Publish [] p)"
      using a by (auto simp: publish_channel_def and_then_Inr is_control_def split: if_splits)
    ultimately show ?thesis using Cons.IH [of bs] by auto
  qed simp
qed simp

text \<open>What follows the signals changes nothing but the second of the last publication.\<close>

lemma main_publish_Go:
  assumes "main_publish cfg io st = (Go st', as)"
  shows "st' = (if has_mqtt cfg then st\<lparr>ma_last_publish := tu_time_sec io\<rparr> else st) \<and> filter is_control as = [] \<and>
    (\<exists>ps. list_all (\<lambda>a. \<nexists>p. a = Publish [] p) ps \<and>
      (if has_mqtt cfg \<and> tu_time_sec io \<noteq> ma_last_publish st
       then \<exists>obj. status_json cfg io st' = Inr obj \<and> as = Publish [] (string_bytes (dump obj)) # ps
       else as = []))"
proof (cases "has_mqtt cfg \<and> tu_time_sec io \<noteq> ma_last_publish st")
  case True
  let ?st = "st\<lparr>ma_last_publish := tu_time_sec io\<rparr>"
  from True assms obtain obj where obj: "status_json cfg io ?st = Inr obj"
    by (auto simp: main_publish_def Let_def split: sum.splits)
  let ?rest = "if mqtt_pub_samples (cfg_mqtt cfg) \<noteq> 0 \<and> path_used (cfg_rx cfg) \<and> tu_rx_still io
             then (\<lambda>st. step_then (Go st, [Sleep_ms 100]) (publish_channels cfg io [0..<length (tu_rings io)]))
             else (\<lambda>st. (Go st, []))"
  have "step_then (Go ?st, [Publish [] (string_bytes (dump obj))]) ?rest = (Go st', as)"
    using assms True obj by (simp add: main_publish_def Let_def)
  then obtain ps where ps: "?rest ?st = (Go st', ps)" "as = Publish [] (string_bytes (dump obj)) # ps"
    by (cases rule: step_then_cases) auto
  have "st' = ?st \<and> filter is_control ps = [] \<and> list_all (\<lambda>a. \<nexists>p. a = Publish [] p) ps"
    using ps(1) by (auto simp: step_then_def is_control_def [of "Sleep_ms n" for n] list_all_iff filter_empty_conv
        split: if_splits prod.splits outcome.splits dest!: publish_channels_Go) blast
  with True obj ps show ?thesis by (auto simp: is_control_def)
next
  case False
  with assms show ?thesis by (auto simp: main_publish_def intro: exI [of _ "[]"])
qed

lemma main_loop_append:
  "main_loop cfg hostname (xs @ ys) st = step_then (main_loop cfg hostname xs st) (main_loop cfg hostname ys)"
  by (induction xs arbitrary: st) (auto simp: step_then_def split: prod.splits outcome.splits)

lemma main_loop_single: "main_loop cfg hostname [io] st = main_turn cfg hostname io st"
  by (auto simp: step_then_def split: prod.splits outcome.splits)

text \<open>The status messages among the actions.\<close>

definition status_pubs :: "main_act list \<Rightarrow> 8 word list list" where
  "status_pubs as = concat (map (\<lambda>a. case a of Publish t p \<Rightarrow> if t = [] then [p] else [] | _ \<Rightarrow> []) as)"

lemma status_pubs_simps [simp]:
  "status_pubs [] = []" "status_pubs (Publish t p # as) = (if t = [] then p # status_pubs as else status_pubs as)"
  "\<nexists>t p. a = Publish t p \<Longrightarrow> status_pubs (a # as) = status_pubs as"
  by (auto simp: status_pubs_def split: main_act.split)

lemma status_pubs_append: "status_pubs (as @ bs) = status_pubs as @ status_pubs bs"
  by (simp add: status_pubs_def)

lemma status_pubs_none: "list_all (\<lambda>a. \<nexists>p. a = Publish [] p) as \<Longrightarrow> status_pubs as = []"
  by (induction as) (auto simp: status_pubs_def split: main_act.split)

lemma main_turn_Go:
  assumes "main_turn cfg hostname io st = (Go st', as)"
  obtains st1 xs where "main_signal cfg hostname io st = (Go st1, xs)"
    "st' = (if has_mqtt cfg then st1\<lparr>ma_last_publish := tu_time_sec io\<rparr> else st1)"
    "filter is_control as = filter is_control xs"
    "if has_mqtt cfg \<and> tu_time_sec io \<noteq> ma_last_publish st
     then \<exists>obj. status_json cfg io st' = Inr obj \<and> status_pubs as = [string_bytes (dump obj)]
     else status_pubs as = []"
proof -
  from assms obtain st1 xs ys where sig: "main_signal cfg hostname io st = (Go st1, xs)"
    and ys: "step_then (step_then (main_checks cfg io st1) (main_status cfg io)) (main_publish cfg io) = (Go st', ys)"
    and as: "as = xs @ ys"
    unfolding main_signal_split by (cases rule: step_then_cases) auto
  from ys obtain st2 us zs where us: "step_then (main_checks cfg io st1) (main_status cfg io) = (Go st2, us)"
    and zs: "main_publish cfg io st2 = (Go st', zs)" "ys = us @ zs"
    by (cases rule: step_then_cases) auto
  have "st2 = st1 \<and> filter is_control us = [] \<and> status_pubs us = []"
    using us by (cases rule: step_then_cases)
      (auto simp: main_checks_def main_status_def Let_def is_control_def split: if_splits sum.splits)
  moreover have "ma_last_publish st1 = ma_last_publish st \<and> status_pubs xs = []"
    using sig by (auto simp: main_signal_def Let_def split: if_splits sum.splits option.splits)
  moreover note main_publish_Go [OF zs(1)]
  ultimately show thesis
    using that [OF sig] as zs(2) by (auto simp: status_pubs_append status_pubs_none split: if_splits)
qed

subsection \<open>Signals\<close>

text \<open>The writer is started and stopped in turns: whether there is one after some actions.\<close>

fun recording :: "bool \<Rightarrow> main_act list \<Rightarrow> bool option" where
  "recording b [] = Some b"
| "recording b (Wr_stop # as) = (if b then recording False as else None)"
| "recording b (Wr_start p t # as) = (if b then None else recording True as)"
| "recording b (a # as) = recording b as"

lemma recording_append: "recording b (as @ bs) = Option.bind (recording b as) (\<lambda>c. recording c bs)"
  by (induction b as rule: recording.induct) simp_all

lemma recording_control: "recording b (filter is_control as) = recording b as"
  by (induction b as rule: recording.induct) (simp_all add: is_control_def)

definition signals :: "signal \<Rightarrow> turn_io list \<Rightarrow> nat" where
  "signals s ios = length (filter (\<lambda>io. tu_signal io = Inr s) ios)"

lemma signals_simps [simp]:
  "signals s [] = 0" "signals s (io # ios) = (if tu_signal io = Inr s then 1 else 0) + signals s ios"
  by (simp_all add: signals_def)

lemma main_signal_Go:
  assumes "main_signal cfg hostname io st = (Go st', as)"
  shows "ma_wr st' = (ma_wr st \<noteq> (path_used (cfg_rx cfg) \<and> tu_signal io = Inr SIGUSR1)) \<and>
    ma_muted st' = (ma_muted st \<noteq> (path_used (cfg_tx cfg) \<and> tu_signal io = Inr SIGUSR2)) \<and>
    recording (ma_wr st) as = Some (ma_wr st') \<and>
    (\<forall>p t. Wr_start p t \<in> set as \<longrightarrow> p = wr_prefix cfg hostname \<and> tu_signal io = Inr SIGUSR1 \<and>
       t = wr_start_ns (tu_full_secs io))"
proof (cases "tu_signal io")
  case (Inr sig)
  with assms show ?thesis
    by (cases sig) (auto simp: main_signal_def Let_def split: if_splits option.splits)
qed (use assms in \<open>auto simp: main_signal_def Let_def split: if_splits\<close>)

lemma main_turn_signal:
  assumes "main_turn cfg hostname io st = (Go st', as)"
  shows "ma_wr st' = (ma_wr st \<noteq> (path_used (cfg_rx cfg) \<and> tu_signal io = Inr SIGUSR1)) \<and>
    ma_muted st' = (ma_muted st \<noteq> (path_used (cfg_tx cfg) \<and> tu_signal io = Inr SIGUSR2)) \<and>
    recording (ma_wr st) as = Some (ma_wr st') \<and>
    (\<forall>p t. Wr_start p t \<in> set as \<longrightarrow> p = wr_prefix cfg hostname \<and> tu_signal io = Inr SIGUSR1 \<and>
       t = wr_start_ns (tu_full_secs io))"
proof -
  from assms obtain st1 xs where sig: "main_signal cfg hostname io st = (Go st1, xs)"
    and st': "st' = (if has_mqtt cfg then st1\<lparr>ma_last_publish := tu_time_sec io\<rparr> else st1)"
    and xs: "filter is_control as = filter is_control xs"
    by (rule main_turn_Go)
  have "Wr_start p t \<in> set as \<longleftrightarrow> Wr_start p t \<in> set xs" for p t
  proof -
    have "Wr_start p t \<in> set as \<longleftrightarrow> Wr_start p t \<in> set (filter is_control as)"
      by (simp add: is_control_def)
    then show ?thesis by (simp add: xs is_control_def)
  qed
  moreover have "recording b as = recording b xs" for b
    using recording_control [of b as] recording_control [of b xs] xs by simp
  moreover have "ma_wr st' = ma_wr st1" "ma_muted st' = ma_muted st1"
    by (simp_all add: st')
  ultimately show ?thesis
    using main_signal_Go [OF sig] by simp
qed

lemma wr_start_second:
  assumes "0 \<le> s" "s < 2 ^ 33"
  shows "uint (wr_start_ns s) = (s + 1) * 1000000000"
proof -
  have "wr_start_ns s = word_of_int ((s + 1) * 1000000000)"
    by (simp add: wr_start_ns_def)
  moreover have "((s + 1) * 1000000000) mod 2 ^ LENGTH(64) = (s + 1) * 1000000000"
    using assms by (intro mod_pos_pos_trivial) simp_all
  ultimately show ?thesis
    by (simp only: uint_word_of_int)
qed

text \<open>
  C9. The signals do what they promise, however many come in whatever order: while the loop goes on,
  the file writer exists iff \<open>SIGUSR1\<close> came an odd number of times (with a receiver, else never), the
  transmitter is muted iff \<open>SIGUSR2\<close> came an odd number of times (with a transmitter), writers are
  started and stopped strictly in turns, and every recording starts at the first full second of
  the device after the one in which the signal was handled.
\<close>

theorem signals_toggle:
  assumes "main_loop cfg hostname ios main_start = (Go st', as)"
  shows "ma_wr st' = (path_used (cfg_rx cfg) \<and> odd (signals SIGUSR1 ios)) \<and>
    ma_muted st' = (path_used (cfg_tx cfg) \<and> odd (signals SIGUSR2 ios)) \<and>
    recording False as = Some (ma_wr st') \<and>
    (\<forall>p t. Wr_start p t \<in> set as \<longrightarrow> p = wr_prefix cfg hostname \<and>
      (\<exists>io \<in> set ios. tu_signal io = Inr SIGUSR1 \<and> t = wr_start_ns (tu_full_secs io) \<and>
        (0 \<le> tu_full_secs io \<and> tu_full_secs io < 2 ^ 33 \<longrightarrow> uint t = (tu_full_secs io + 1) * 1000000000)))"
proof -
  have "main_loop cfg hostname ios st = (Go st', as) \<Longrightarrow>
    ma_wr st' = (ma_wr st \<noteq> (path_used (cfg_rx cfg) \<and> odd (signals SIGUSR1 ios))) \<and>
    ma_muted st' = (ma_muted st \<noteq> (path_used (cfg_tx cfg) \<and> odd (signals SIGUSR2 ios))) \<and>
    recording (ma_wr st) as = Some (ma_wr st') \<and>
    (\<forall>p t. Wr_start p t \<in> set as \<longrightarrow> p = wr_prefix cfg hostname \<and>
      (\<exists>io \<in> set ios. tu_signal io = Inr SIGUSR1 \<and> t = wr_start_ns (tu_full_secs io)))" for st
  proof (induction ios arbitrary: st as)
    case (Cons io ios)
    from Cons.prems obtain st1 xs ys where "main_turn cfg hostname io st = (Go st1, xs)"
      "main_loop cfg hostname ios st1 = (Go st', ys)" "as = xs @ ys"
      by (auto elim: step_then_cases)
    from main_turn_signal [OF this(1)] Cons.IH [OF this(2)] this(3) show ?case
      by (auto simp: recording_append)
  qed simp
  from this [OF assms] show ?thesis
    using wr_start_second by (simp add: main_start_def) blast
qed

subsection \<open>The status\<close>

lemma main_loop_last: "main_loop cfg hostname ios st = (Go st', as) \<Longrightarrow> has_mqtt cfg \<Longrightarrow>
    ma_last_publish st' = (if ios = [] then ma_last_publish st else tu_time_sec (last ios))"
proof (induction ios arbitrary: st as)
  case (Cons io ios)
  from Cons.prems(1) obtain st1 xs ys where turn: "main_turn cfg hostname io st = (Go st1, xs)"
    and loop: "main_loop cfg hostname ios st1 = (Go st', ys)"
    by (auto elim: step_then_cases)
  from turn have "ma_last_publish st1 = tu_time_sec io"
    using Cons.prems(2) by (cases rule: main_turn_Go) simp
  with Cons.IH [OF loop Cons.prems(2)] show ?case by simp
qed simp

definition bytes_string :: "8 word list \<Rightarrow> string" where
  "bytes_string bs = map (\<lambda>b. char_of (unat b)) bs"

lemma bytes_string_back [simp]: "bytes_string (string_bytes s) = s"
proof -
  have "char_of (unat (of_char c :: 8 word)) = c" for c
  proof -
    have "(of_char c :: 8 word) = word_of_nat (of_char c)"
      by (simp only: of_nat_of_char)
    then have "unat (of_char c :: 8 word) = of_char c mod 256"
      by (simp only: unat_of_nat) simp
    then show ?thesis by simp
  qed
  then show ?thesis
    by (simp add: bytes_string_def string_bytes_def o_def)
qed

text \<open>
  C39. The status is published once per second: a turn of the loop sends the topic of the device one
  status message when the second of the system clock is another one than at the turn before, and
  none otherwise. The message is the JSON text of the state as the signals of this turn left it,
  and a JSON reader gets the object back from its bytes.
\<close>

theorem status_published:
  assumes "has_mqtt cfg" "main_loop cfg hostname (ios @ [io]) st = (Go st', as)"
  shows "\<exists>st1 xs ys. main_loop cfg hostname ios st = (Go st1, xs) \<and> as = xs @ ys \<and>
    (if tu_time_sec io = (if ios = [] then ma_last_publish st else tu_time_sec (last ios)) then status_pubs ys = []
     else \<exists>obj. status_json cfg io st' = Inr obj \<and> status_pubs ys = [string_bytes (dump obj)] \<and>
       (json_finite obj \<longrightarrow> read_line (bytes_string (string_bytes (dump obj))) = Some (json_view obj)))"
proof -
  from assms(2) obtain st1 xs ys where loop: "main_loop cfg hostname ios st = (Go st1, xs)"
    and last: "main_loop cfg hostname [io] st1 = (Go st', ys)" and as: "as = xs @ ys"
    unfolding main_loop_append by (cases rule: step_then_cases) auto
  from last have "main_turn cfg hostname io st1 = (Go st', ys)"
    unfolding main_loop_single .
  then have pub: "if tu_time_sec io \<noteq> ma_last_publish st1
     then \<exists>obj. status_json cfg io st' = Inr obj \<and> status_pubs ys = [string_bytes (dump obj)] else status_pubs ys = []"
    using assms(1) by (cases rule: main_turn_Go) simp
  have readback: "json_finite obj \<longrightarrow> read_line (bytes_string (string_bytes (dump obj))) = Some (json_view obj)" for obj
    unfolding bytes_string_back read_line_def by (simp add: json_dump_read del: parse_value.simps)
  have "if tu_time_sec io = ma_last_publish st1 then status_pubs ys = []
     else \<exists>obj. status_json cfg io st' = Inr obj \<and> status_pubs ys = [string_bytes (dump obj)] \<and>
       (json_finite obj \<longrightarrow> read_line (bytes_string (string_bytes (dump obj))) = Some (json_view obj))"
    using pub readback by (cases "tu_time_sec io = ma_last_publish st1") (simp, metis)
  with loop as show ?thesis
    unfolding main_loop_last [OF loop assms(1)] by blast
qed

text \<open>
  C40. The loop wakes up in step with the clock: for all times until 2262 the timeout is between one
  nanosecond and a tenth of a second, so it is a valid time specification, and it ends at a
  multiple of a tenth of a second.
\<close>

theorem main_timeout_aligned:
  assumes "uint t < 2 ^ 63"
  shows "0 < main_timeout t \<and> main_timeout t \<le> 100000000 \<and> 100000000 dvd uint t + main_timeout t"
proof -
  have "sint t = uint t"
    using assms order.trans [of "- (2 ^ 63)" 0 "uint t"] by (simp add: sint_uint signed_take_bit_int_eq_self_iff)
  moreover have "uint t smod 100000000 = uint t mod 100000000"
    by (cases "t = 0") (simp_all add: signed_modulo_int_def)
  ultimately have t: "main_timeout t = 100000000 - uint t mod 100000000"
    by (simp add: main_timeout_def)
  then have next_tick: "uint t + main_timeout t = 100000000 * (uint t div 100000000 + 1)"
    by presburger
  have "0 \<le> uint t mod 100000000" "uint t mod 100000000 < 100000000" by simp_all
  then show ?thesis
    unfolding next_tick by (simp add: t)
qed

subsection \<open>The end of the program\<close>

definition threads_ok :: "config \<Rightarrow> turn_io \<Rightarrow> bool" where
  "threads_ok cfg io \<longleftrightarrow> tu_logger io \<and> (has_mqtt cfg \<longrightarrow> tu_mqtt io) \<and> (path_used (cfg_rx cfg) \<longrightarrow> tu_rx io) \<and>
     (path_used (cfg_tx cfg) \<longrightarrow> tu_tx io)"

abbreviation terminating :: "turn_io \<Rightarrow> bool" where
  "terminating io \<equiv> tu_signal io \<in> {Inr SIGINT, Inr SIGTERM}"

lemma publish_channels_Leave: "publish_channels cfg io chs st \<noteq> (Leave c, as)"
  by (induction chs arbitrary: as) (auto simp: step_then_def split: sum.splits prod.splits outcome.splits)

lemma main_turn_Leave:
  assumes "main_turn cfg hostname io st = (Leave c, as)"
  shows "if terminating io then c = 0 else c = 1 \<and> \<not> threads_ok cfg io"
proof -
  from assms have "step_then (main_signal cfg hostname io st)
      (\<lambda>st. step_then (step_then (main_checks cfg io st) (main_status cfg io)) (main_publish cfg io)) = (Leave c, as)"
    by (simp add: main_signal_split)
  then show ?thesis
  proof (cases rule: step_then_cases)
    case (go st1 xs bs)
    from go(1) have no: "\<not> terminating io"
      by (auto simp: main_signal_def Let_def)
    from go(2) have "\<not> threads_ok cfg io \<and> c = 1"
    proof (cases rule: step_then_cases)
      case (go st2 us vs)
      have False
        using go(2) publish_channels_Leave by (auto simp: main_publish_def Let_def step_then_def
            split: if_splits sum.splits prod.splits outcome.splits)
      then show ?thesis ..
    next
      case stop
      from stop(1) show ?thesis
        by (cases rule: step_then_cases)
          (auto simp: main_status_def main_checks_def threads_ok_def Let_def split: if_splits sum.splits)
    qed
    with no show ?thesis by simp
  next
    case stop
    then show ?thesis
      by (auto simp: main_signal_def Let_def split: if_splits sum.splits option.splits)
  qed
qed

lemma main_turn_terminating: "terminating io \<Longrightarrow> \<exists>as. main_turn cfg hostname io st = (Leave 0, as)"
  by (auto simp: main_signal_split main_signal_def step_then_def Let_def)

lemma main_loop_Leave:
  assumes "main_loop cfg hostname ios st = (Leave c, as)"
  shows "\<exists>xs io ys st1 bs. ios = xs @ io # ys \<and> main_loop cfg hostname xs st = (Go st1, bs) \<and>
    (if terminating io then c = 0 else c = 1 \<and> \<not> threads_ok cfg io)"
  using assms
proof (induction ios arbitrary: st as)
  case (Cons io ios)
  from Cons.prems have "step_then (main_turn cfg hostname io st) (main_loop cfg hostname ios) = (Leave c, as)" by simp
  then show ?case
  proof (cases rule: step_then_cases)
    case (go st1 us vs)
    from Cons.IH [OF go(2)] obtain xs io' ys st2 bs where "ios = xs @ io' # ys" "main_loop cfg hostname xs st1 = (Go st2, bs)"
      "if terminating io' then c = 0 else c = 1 \<and> \<not> threads_ok cfg io'"
      by blast
    with go(1) show ?thesis
      by (intro exI [of _ "io # xs"] exI [of _ io'] exI [of _ ys] exI [of _ st2] exI [of _ "us @ bs"])
        (simp add: step_then_def)
  next
    case stop
    then show ?thesis
      using main_turn_Leave by (intro exI [of _ "[]"] exI [of _ io] exI [of _ ios]) auto
  qed
qed simp

lemma main_loop_terminates:
  assumes "main_loop cfg hostname xs st = (Go st1, bs)" "terminating io"
  shows "\<exists>as. main_loop cfg hostname (xs @ io # ys) st = (Leave 0, as)"
  using main_turn_terminating [OF assms(2), of cfg hostname st1] assms(1)
  by (auto simp: main_loop_append step_then_def)

text \<open>The rings of the receiver are the only system objects the second \<open>try\<close> leaves for its end.\<close>

lemma main_threads_os:
  assumes "fresh_kernel k" "os_finite s" "main_threads k cfg th s = Some (r, as, s')"
  shows "case r of Inl e \<Rightarrow> s' = s | Inr rings \<Rightarrow> s' = os_with (files_of rings) s \<and> fold ring_delete rings s' = s"
proof -
  have tx: "case r of Inl e \<Rightarrow> s' = s | Inr rings \<Rightarrow> s' = os_with (files_of rings) s \<and> fold ring_delete rings s' = s"
    if "main_tx cfg th rs (os_with (files_of rs) s) = (r, as, s')" "os_new (files_of rs) s" for rs
    using that os_without_with [OF that(2)]
    by (auto simp: main_tx_def ring_delete_without split: if_splits sum.splits)
  show ?thesis
  proof (cases "path_used (cfg_rx cfg)")
    case True
    obtain q s1 where rr: "rx_rings k cfg 0 (th_shm th) [] s = (q, s1)" by fastforce
    from rx_rings_cases [OF assms(1,2), of "[]" cfg 0 "th_shm th" q s1] rr
    have "case q of Inl e \<Rightarrow> s1 = s | Inr rs \<Rightarrow> s1 = os_with (files_of rs) s \<and> os_new (files_of rs) s"
      by (auto simp: files_of_def split: sum.splits)
    with assms(3) rr True tx show ?thesis
      by (auto simp: main_threads_def split: sum.splits if_splits)
  next
    case False
    with assms(3) tx [of "[]"] show ?thesis
      by (simp add: main_threads_def files_of_def)
  qed
qed

lemma main_body_os:
  assumes "fresh_kernel k" "os_finite s" "main_body k cfg hostname su th ios s = Some (r, as, s')"
  shows "if (\<exists>st. r = Go st) then os_files s \<subseteq> os_files s' else s' = s"
proof -
  obtain e cs where su: "main_setup cfg su = Some (e, cs)"
    using assms(3) by (auto simp: main_body_def split: option.splits)
  show ?thesis
  proof (cases e)
    case Some
    with assms(3) su show ?thesis by (auto simp: main_body_def)
  next
    case None
    with assms(3) su obtain q ms s1 where th: "main_threads k cfg th s = Some (q, ms, s1)"
      by (auto simp: main_body_def split: option.splits)
    with assms(3) su None main_threads_os [OF assms(1,2) th] show ?thesis
      by (cases q) (auto simp: main_body_def os_with_def split: prod.splits outcome.splits)
  qed
qed

text \<open>The program got to its loop.\<close>

definition started :: "kernel \<Rightarrow> start_io \<Rightarrow> setup_io \<Rightarrow> threads_io \<Rightarrow> os \<Rightarrow> config \<Rightarrow> string \<Rightarrow> bool" where
  "started k io su th os cfg hostname \<longleftrightarrow> pi_argc io = 2 \<and> (\<exists>lg. main_begin io = Inr (cfg, hostname, lg)) \<and>
     pid_file hostname cfg \<notin> os_files os \<and> pi_pid_open io = None \<and> (\<exists>cs. main_setup cfg su = Some (None, cs)) \<and>
     (\<exists>rings as os1. main_threads k cfg th (os\<lparr>os_files := insert (pid_file hostname cfg) (os_files os)\<rparr>) =
        Some (Inr rings, as, os1))"

lemma main_program_cases:
  assumes "main_program k wh io su th ios os = Some (r, as, os')"
  obtains (early) "r = Some 1" "os' = os" "\<exists>bs. as = bs @ [Usage] \<or> (\<exists>e. as = bs @ [Fatal_console e])"
      "\<nexists>cfg hostname. started k io su th os cfg hostname"
    | (body) cfg hostname lg q bs os1 where "pi_argc io = 2" "main_begin io = Inr (cfg, hostname, lg)"
      "pid_file hostname cfg \<notin> os_files os" "pi_pid_open io = None"
      "main_body k cfg hostname su th ios (os\<lparr>os_files := insert (pid_file hostname cfg) (os_files os)\<rparr>) = Some (q, bs, os1)"
      "if (\<exists>st. q = Go st) then r = None \<and> os' = os1
       else r = Some (fst (main_exit wh q)) \<and> os' = os_unlink (pid_file hostname cfg) os1 \<and>
         (\<exists>cs. as = cs @ [Main_act (Log_entry (Exit (fst (main_exit wh q))))])"
proof (cases "main_begin io")
  case (Inl e)
  with assms show thesis
    by (intro early) (auto simp: main_program_def started_def split: if_splits)
next
  case (Inr x)
  obtain cfg hostname lg where x: "main_begin io = Inr (cfg, hostname, lg)"
    using Inr by (cases x) simp
  let ?pid = "pid_file hostname cfg" and ?os = "os\<lparr>os_files := insert (pid_file hostname cfg) (os_files os)\<rparr>"
  show thesis
  proof (cases "pi_argc io = 2 \<and> ?pid \<notin> os_files os \<and> pi_pid_open io = None")
    case False
    with assms x show thesis
      by (intro early) (auto simp: main_program_def started_def Let_def split: if_splits option.splits)
  next
    case True
    then obtain q bs os1 where b: "main_body k cfg hostname su th ios ?os = Some (q, bs, os1)"
      using assms x by (auto simp: main_program_def Let_def split: option.splits)
    from assms x True b show thesis
      by (intro body [OF _ x _ _ b]) (auto simp: main_program_def Let_def split: outcome.splits prod.splits)
  qed
qed

text \<open>
  C8. The program leaves the system as it found it: whenever it ends, however far it got and
  whatever failed, the PID file, the shared memory files, the descriptors and the mappings are as
  they were before it started. While it runs its PID file is there, and a second instance for
  the same host and device ends with exit code 1 before it touches anything.
\<close>

theorem program_restores:
  assumes "fresh_kernel k" "finite (os_fds os)" "finite (os_maps os)"
    and "main_program k wh io su th ios os = Some (r, as, os')"
  shows "case r of Some c \<Rightarrow> os' = os
    | None \<Rightarrow> (\<forall>io2 su2 th2 ios2. pi_argc io2 = 2 \<and> main_begin io2 = main_begin io \<longrightarrow>
        (\<exists>e. main_program k wh io2 su2 th2 ios2 os' =
          Some (Some 1, [Main_act (Log_entry (Misc INFO ''Initializing ...'')), Fatal_console e], os')))"
  using assms(4)
proof (cases rule: main_program_cases)
  case (body cfg hostname lg q bs os1)
  let ?os = "os\<lparr>os_files := insert (pid_file hostname cfg) (os_files os)\<rparr>"
  have "os_finite ?os"
    using assms(2,3) by (simp add: os_finite_def)
  note os1 = main_body_os [OF assms(1) this body(5)]
  show ?thesis
  proof (cases "\<exists>st. q = Go st")
    case True
    with body os1 show ?thesis by (auto simp: main_program_def Let_def)
  next
    case False
    with os1 body(3) have "os_unlink (pid_file hostname cfg) os1 = os" by (simp add: os_unlink_def)
    with False body(6) show ?thesis by auto
  qed
qed simp

lemma loop_exit_code:
  assumes "main_loop cfg hostname ios st = (q, ls)" "\<nexists>st. q = Go st"
  shows "fst (main_exit wh q) \<in> {0, 1} \<and> (fst (main_exit wh q) = 0 \<longleftrightarrow>
    (\<exists>xs t ys st1 bs. ios = xs @ t # ys \<and> main_loop cfg hostname xs st = (Go st1, bs) \<and> terminating t))"
    (is "_ \<and> (_ \<longleftrightarrow> ?good)")
proof -
  have good: "q = Leave 0" if ?good
    using that assms(1) main_loop_terminates by (metis fst_conv)
  show ?thesis
  proof (cases q)
    case (Leave c)
    with main_loop_Leave assms(1) obtain xs t ys st1 bs where "ios = xs @ t # ys"
      "main_loop cfg hostname xs st = (Go st1, bs)" "if terminating t then c = 0 else c = 1 \<and> \<not> threads_ok cfg t"
      by metis
    then have a: "c = 0 \<Longrightarrow> ?good" and c: "c \<in> {0, 1}"
      by (auto split: if_splits)
    have b: "?good \<Longrightarrow> c = 0" using good Leave by simp
    from a b have "c = 0 \<longleftrightarrow> ?good" by (rule iffI)
    moreover have "fst (main_exit wh q) = c" by (simp add: Leave main_exit_def)
    ultimately show ?thesis using c by metis
  next
    case (Raise e)
    with good have "\<not> ?good" by force
    then show ?thesis by (simp add: Raise main_exit_def)
  qed (use assms(2) in simp)
qed

text \<open>
  C10. What the exit code means: it is 0 exactly when the program got to its loop and \<open>SIGINT\<close> or
  \<open>SIGTERM\<close> ended it, after turns in which nothing failed, and 1 otherwise; and the last thing the
  program does is to log the exit code, unless it failed before it had its PID file, when it
  prints the reason.
\<close>

theorem program_exit_code:
  assumes "main_program k wh io su th ios os = Some (Some c, as, os')"
  shows "(c = 0 \<or> c = 1) \<and>
    (c = 0 \<longleftrightarrow> (\<exists>cfg hostname xs t ys st bs. started k io su th os cfg hostname \<and> ios = xs @ t # ys \<and>
       main_loop cfg hostname xs main_start = (Go st, bs) \<and> tu_signal t \<in> {Inr SIGINT, Inr SIGTERM})) \<and>
    (\<exists>bs. as = bs @ [Main_act (Log_entry (Exit c))] \<or> as = bs @ [Usage] \<or> (\<exists>e. as = bs @ [Fatal_console e]))"
  using assms
proof (cases rule: main_program_cases)
  case (body cfg hostname lg q bs os1)
  let ?good = "\<exists>cfg hostname xs t ys st bs. started k io su th os cfg hostname \<and> ios = xs @ t # ys \<and>
       main_loop cfg hostname xs main_start = (Go st, bs) \<and> terminating t"
  have q: "\<nexists>st. q = Go st" "c = fst (main_exit wh q)" "\<exists>cs. as = cs @ [Main_act (Log_entry (Exit c))]"
    using body(6) by (auto split: if_splits)
  have same: "started k io su th os cfg' hostname' \<Longrightarrow> cfg' = cfg \<and> hostname' = hostname" for cfg' hostname'
    using body(2) by (simp add: started_def)
  have "(c = 0 \<or> c = 1) \<and> (c = 0 \<longleftrightarrow> ?good)"
  proof (cases "\<exists>ls. main_loop cfg hostname ios main_start = (q, ls) \<and> started k io su th os cfg hostname")
    case True
    then obtain ls where loop: "main_loop cfg hostname ios main_start = (q, ls)" and st: "started k io su th os cfg hostname"
      by blast
    have "?good \<longleftrightarrow> (\<exists>xs t ys st1 bs. ios = xs @ t # ys \<and> main_loop cfg hostname xs main_start = (Go st1, bs) \<and> terminating t)"
      using st same by blast
    with loop_exit_code [OF loop q(1), of wh] show ?thesis
      unfolding q(2) [symmetric] by blast
  next
    case False
    with body(1-5) have "\<exists>e. q = Raise e" "\<nexists>cfg hostname. started k io su th os cfg hostname"
      by (auto simp: main_body_def started_def split: option.splits sum.splits prod.splits)
    then show ?thesis using q(2) by (auto simp: main_exit_def)
  qed
  with q(3) show ?thesis by blast
qed auto

subsection \<open>Examples\<close>

definition demo_readings :: readings where
  "demo_readings = \<lparr>rd_rx_seconds = Fin 1, rd_tx_seconds = Fin 0, rd_wr_running = True, rd_wr_seconds = Fin 0,
     rd_wr_backlog = 0, rd_space = Inr 5\<rparr>"

text \<open>A turn in which all threads run, at second 7 of the device, with a signal.\<close>

definition demo_turn :: "int + signal \<Rightarrow> turn_io" where
  "demo_turn s = \<lparr>tu_time_ns = 1700000000123456789, tu_signal = s, tu_full_secs = 7, tu_wr_new = None, tu_logger = True,
     tu_mqtt = True, tu_rx = True, tu_tx = True, tu_now = (7, Fin 0), tu_status = demo_readings, tu_time_sec = 8,
     tu_publish = demo_readings, tu_rx_still = True, tu_rings = [], tu_read = \<lambda>_ _. ringbuf_new 16 4 zero_sample\<rparr>"

lemma demo_turn_simps [simp]: "tu_signal (demo_turn s) = s" "tu_time_sec (demo_turn s) = 8"
  by (simp_all add: demo_turn_def)

definition demo_threads :: threads_io where
  "demo_threads = \<lparr>th_shm = [(demo_shm_io None, demo_shm_io None), (demo_shm_io None, demo_shm_io None)], th_rx_ready = True, th_tx_size = Inr 0,
     th_tx_bytes = Some []\<rparr>"

definition demo_start :: start_io where
  "demo_start = \<lparr>pi_argc = 2, pi_config = Inr demo_config, pi_sigmask = 0, pi_hostname = Inr ''h'', pi_uname = Inr ''u'',
     pi_log_open = None, pi_secs = 1, pi_git_origin = [], pi_git_hash = [], pi_pid_open = None\<rparr>"

lemma demo_used: "path_used (cfg_rx demo_config)" "\<not> path_used (cfg_tx demo_config)" "\<not> has_mqtt demo_config"
  by (simp_all add: demo_config_def default_config_def path_used_def has_mqtt_def)

lemmas demo_turn_defs = demo_turn_def demo_readings_def demo_used step_then_def main_turn_def main_signal_def main_checks_def
  main_status_def main_space_def main_publish_def Let_def

lemma demo_turn_runs:
  "\<exists>st' as. main_turn demo_config h (demo_turn (Inr SIGUSR1)) st = (Go st', as)"
  "\<exists>st' as. main_turn demo_config h (demo_turn (Inl 11)) st = (Go st', as)"
  by (simp_all add: demo_turn_defs)

lemma demo_loop_runs:
  obtains st as where "main_loop demo_config h [demo_turn (Inr SIGUSR1), demo_turn (Inl 11)] main_start = (Go st, as)"
proof -
  obtain s1 a1 where 1: "main_turn demo_config h (demo_turn (Inr SIGUSR1)) main_start = (Go s1, a1)"
    using demo_turn_runs(1) by blast
  obtain s2 a2 where 2: "main_turn demo_config h (demo_turn (Inl 11)) s1 = (Go s2, a2)"
    using demo_turn_runs(2) by blast
  from that show thesis by (simp add: step_then_def 1 2)
qed

theorem signals_toggle_witness:
  "\<exists>st as. main_loop demo_config ''h'' [demo_turn (Inr SIGUSR1), demo_turn (Inl 11)] main_start = (Go st, as) \<and>
     ma_wr st \<and> \<not> ma_muted st \<and> recording False as = Some True"
proof -
  let ?ios = "[demo_turn (Inr SIGUSR1), demo_turn (Inl 11)]"
  obtain st as where l: "main_loop demo_config ''h'' ?ios main_start = (Go st, as)" by (rule demo_loop_runs)
  have "signals SIGUSR1 ?ios = 1" "signals SIGUSR2 ?ios = 0"
    by simp_all
  with signals_toggle [OF l] l show ?thesis
    by (simp add: demo_used)
qed

theorem main_timeout_aligned_witness:
  "0 < main_timeout 1700000000123456789 \<and> 100000000 dvd 1700000000123456789 + main_timeout 1700000000123456789"
  using main_timeout_aligned [of 1700000000123456789] by simp

definition demo_mqtt_config :: config where
  "demo_mqtt_config = default_config\<lparr>cfg_mqtt := (cfg_mqtt default_config)\<lparr>mqtt_host := ''broker''\<rparr>\<rparr>"

lemma demo_mqtt: "has_mqtt demo_mqtt_config" "\<not> path_used (cfg_rx demo_mqtt_config)" "\<not> path_used (cfg_tx demo_mqtt_config)"
    "mqtt_pub_samples (cfg_mqtt demo_mqtt_config) = 0"
  by (simp_all add: demo_mqtt_config_def default_config_def path_used_def has_mqtt_def)

lemma demo_spec_ns: "spec_ns (7, Fin 0) = Inr 7000000000"
  using nsec_exact [of 7] by (simp add: spec_ns_def)

theorem status_published_witness:
  "\<exists>st as obj. main_loop demo_mqtt_config ''h'' [demo_turn (Inl 11)] main_start = (Go st, as) \<and>
     status_json demo_mqtt_config (demo_turn (Inl 11)) st = Inr obj \<and> status_pubs as = [string_bytes (dump obj)] \<and>
     read_line (bytes_string (string_bytes (dump obj))) = Some (json_view obj)"
proof -
  let ?io = "demo_turn (Inl 11)"
  obtain obj where obj: "\<And>st. \<not> ma_wr st \<Longrightarrow> status_json demo_mqtt_config ?io st = Inr obj" "json_finite obj"
    by (simp add: status_json_def demo_mqtt demo_turn_def demo_readings_def main_space_def demo_spec_ns)
  then obtain st as where l: "main_loop demo_mqtt_config ''h'' ([] @ [?io]) main_start = (Go st, as)"
    by (simp add: demo_turn_defs demo_mqtt main_start_def)
  have st: "\<not> ma_wr st"
    using main_turn_signal [of demo_mqtt_config "''h''" ?io main_start st as] l
    by (simp add: main_loop_single main_start_def del: main_loop.simps)
  from status_published [OF demo_mqtt(1) l] l obj(2) obj(1) [OF st] show ?thesis
    by (auto simp: main_start_def)
qed

lemma demo_begin:
  obtains lg where "main_begin demo_start = Inr (demo_config, ''h'', lg)"
  by (simp add: main_begin_def demo_start_def logger_new_def Let_def)

definition demo_os :: os where
  "demo_os = \<lparr>os_files = {}, os_fds = {0, 1, 2}, os_maps = {}\<rparr>"

lemma demo_threads_run:
  obtains rings as s' where "main_threads demo_kernel demo_config demo_threads
    (demo_os\<lparr>os_files := insert (pid_file ''h'' demo_config) (os_files demo_os)\<rparr>) = Some (Inr rings, as, s')"
proof -
  let ?s = "\<lparr>os_files = {''usrp_rxtx_h_.pid''}, os_fds = {0, 1, 2}, os_maps = {}\<rparr>"
  have s: "demo_os\<lparr>os_files := insert (pid_file ''h'' demo_config) (os_files demo_os)\<rparr> = ?s"
    by (simp add: demo_os_def pid_file_def demo_config_def default_config_def)
  have "\<exists>rs. fst (rx_rings demo_kernel demo_config 0 (th_shm demo_threads) [] ?s) = Inr rs"
    by (simp add: rx_ring_def ring_new_def shm_new_def os_open_def os_mmap_def Let_def ring_file_def path_join_def demo_threads_def
        starts_with_def ends_with_def demo_shm_io_def demo_config_def default_config_def show_nat.simps digit_def)
  then obtain rs s1 where "rx_rings demo_kernel demo_config 0 (th_shm demo_threads) [] ?s = (Inr rs, s1)"
    by (metis prod.collapse)
  with that show thesis
    unfolding s by (simp add: main_threads_def main_tx_def demo_used demo_threads_def)
qed

lemma demo_program:
  assumes "\<exists>r as. main_loop demo_config ''h'' ios main_start = (r, as) \<and> (r = Leave 0 \<or> (\<exists>st. r = Go st))"
  obtains as s' where
    "main_program demo_kernel wh demo_start demo_setup demo_threads ios demo_os =
      Some (if \<exists>st as. main_loop demo_config ''h'' ios main_start = (Go st, as) then None else Some 0, as, s')"
proof -
  obtain lg where b: "main_begin demo_start = Inr (demo_config, ''h'', lg)" by (rule demo_begin)
  obtain cs where su: "main_setup demo_config demo_setup = Some (None, cs)" by (rule demo_setup_runs)
  obtain rings ms s' where th: "main_threads demo_kernel demo_config demo_threads
    (demo_os\<lparr>os_files := insert (pid_file ''h'' demo_config) (os_files demo_os)\<rparr>) = Some (Inr rings, ms, s')"
    by (rule demo_threads_run)
  obtain r as where l: "main_loop demo_config ''h'' ios main_start = (r, as)" "r = Leave 0 \<or> (\<exists>st. r = Go st)"
    using assms by blast
  have start: "pi_argc demo_start = 2" "pi_pid_open demo_start = None" "pid_file ''h'' demo_config \<notin> os_files demo_os"
    by (simp_all add: demo_start_def demo_os_def)
  from l(2) that show thesis
    by (auto simp: main_program_def start b main_body_def su th l(1) main_exit_def Let_def)
qed

definition demo_what :: "exc \<Rightarrow> string" where
  "demo_what = what (\<lambda>e. ''strerror'') (\<lambda>e. ''mosquitto_strerror'') ''../src/main.cpp'' 60"

theorem program_restores_witness:
  "\<exists>as. main_program demo_kernel demo_what demo_start demo_setup demo_threads [demo_turn (Inr SIGTERM)] demo_os =
     Some (Some 0, as, demo_os)"
proof -
  obtain as where "main_loop demo_config ''h'' [demo_turn (Inr SIGTERM)] main_start = (Leave 0, as)"
    using main_loop_terminates [of demo_config "''h''" "[]" main_start main_start "[]" "demo_turn (Inr SIGTERM)" "[]"] by auto
  then obtain as s' where p: "main_program demo_kernel demo_what demo_start demo_setup demo_threads [demo_turn (Inr SIGTERM)] demo_os =
      Some (Some 0, as, s')"
    using demo_program [of "[demo_turn (Inr SIGTERM)]" demo_what] by (auto simp del: main_loop.simps)
  have "finite (os_fds demo_os)" "finite (os_maps demo_os)"
    by (simp_all add: demo_os_def)
  from program_restores [OF demo_fresh this p] p show ?thesis by simp
qed

theorem program_exit_code_witness:
  "\<exists>as s'. main_program demo_kernel demo_what demo_start demo_setup demo_threads [demo_turn (Inr SIGUSR1), demo_turn (Inr SIGINT)] demo_os =
     Some (Some 0, as, s') \<and> (\<exists>bs. as = bs @ [Main_act (Log_entry (Exit 0))] \<or> as = bs @ [Usage] \<or> (\<exists>e. as = bs @ [Fatal_console e]))"
proof -
  let ?ios = "[demo_turn (Inr SIGUSR1)] @ demo_turn (Inr SIGINT) # []"
  obtain st bs where "main_loop demo_config ''h'' [demo_turn (Inr SIGUSR1)] main_start = (Go st, bs)"
    using demo_turn_runs(1) unfolding main_loop_single by blast
  then obtain as where "main_loop demo_config ''h'' ?ios main_start = (Leave 0, as)"
    using main_loop_terminates [of demo_config "''h''" "[demo_turn (Inr SIGUSR1)]" main_start st bs "demo_turn (Inr SIGINT)" "[]"]
    by (auto simp del: main_loop.simps)
  then obtain as s' where p: "main_program demo_kernel demo_what demo_start demo_setup demo_threads ?ios demo_os = Some (Some 0, as, s')"
    using demo_program [of ?ios demo_what] by (auto simp del: main_loop.simps)
  from program_exit_code [OF p] p show ?thesis by auto
qed

end
