(* ===== verification/Punctual.thy ===== *)
theory Punctual
  imports Recording Program
begin

text \<open>
  From the signal to the first sample of a file. \<^verbatim>\<open>main\<close> computes the start of a recording from the
  device's clock, \<^verbatim>\<open>Wr::Wr\<close> turns it into an offset into every ring by way of floating point, and the
  recorder starts there. Together: a recording starts with the sample of the next full second.
\<close>

lemma wr_start_after:
  assumes "n \<le> k"
  shows "wr_start_ns (int k) = word_of_nat (n * 1000000000) + word_of_nat ((Suc k - n) * 1000000000)"
proof -
  have "wr_start_ns (int k) = word_of_nat (Suc k * 1000000000)"
    by (simp add: wr_start_ns_def algebra_simps)
  also have "Suc k * 1000000000 = n * 1000000000 + (Suc k - n) * 1000000000"
    using assms by (simp add: algebra_simps)
  finally show ?thesis
    by (simp only: of_nat_add)
qed

text \<open>The offsets the constructor finds, for rings that started at second \<open>n\<close>.\<close>

lemma wr_new_tails:
  assumes "wr_new path (wr_start_ns (int k)) rings = (None, w0)" "c < length rings"
    and "rb_start_nsec (fst (rings ! c)) = word_of_nat (n * 1000000000)"
    and "rb_rate (fst (rings ! c)) = Fin (of_nat R)"
    and "n \<le> k" "Suc k < 2 ^ 32" "0 < R" "R < 2 ^ 53" "(Suc k - n) * R \<le> 2 ^ 49"
  shows "unat (ws_tails w0 ! c) = (Suc k - n) * R"
proof -
  have "wr_open_all path (wr_start_ns (int k)) 0 rings
      \<lparr>ws_tails = [], ws_paths = [], ws_files = [], ws_open = [], ws_logs = []\<rparr> = (None, w0)"
    using assms(1) by (auto simp: wr_new_def Let_def split: list.splits option.splits prod.splits)
  from wr_open_all_ok [OF this] have tail:
    "get_tail (fst (rings ! c)) (wr_start_ns (int k)) = Inr (ws_tails w0 ! c)"
    using assms(2) by auto
  have "unat (word_of_nat (n * 1000000000) :: u64) = n * 1000000000"
    using assms(5,6) by (intro unat_word_of_nat_u64) simp
  then have "unat (rb_start_nsec (fst (rings ! c))) + (Suc k - n) * 1000000000 < 2 ^ 64"
    using assms(3,5,6) by simp
  from get_tail_whole_seconds [OF assms(7,8,9,4) this]
  have "ws_tails w0 ! c = word_of_nat ((Suc k - n) * R)"
    using tail by (simp only: wr_start_after [OF assms(5)] assms(3)) (auto split: if_splits)
  moreover have "(Suc k - n) * R < 2 ^ 64"
    using assms(9) by simp
  ultimately show ?thesis
    by (simp only: unat_word_of_nat_u64)
qed

text \<open>
  C2. A recording is punctual: if the receiver started its rings at second \<open>n\<close> with a whole number \<open>R\<close> of
  samples per second, and \<open>SIGUSR1\<close> is handled in second \<open>k\<close> of the device, then every file starts
  with the sample that is exactly \<open>k + 1 - n\<close> seconds of samples after the first one, in spite of the
  floating point in between, and goes on from there without a gap, up to \<open>2 ^ 49\<close> samples after the
  start and for any interleaving of the receive thread with the recorder.
\<close>

theorem recording_on_time:
  assumes "psts0 = map (rec_begin (word_of_nat (n * 1000000000)) (Fin (of_nat R))) rbs"
    and "length psts1 = length rbs" "\<forall>c < length rbs. pstep\<^sup>*\<^sup>* (psts0 ! c) (psts1 ! c)"
    and "map fst rings = map p_ring psts1" "wr_new path (wr_start_ns (int k)) rings = (None, w0)"
    and "wr_reach (ws_tails w0) psts1 psts w" "c < length rbs" "pstep\<^sup>*\<^sup>* (psts ! c) p"
    and "n \<le> k" "Suc k < 2 ^ 32" "0 < R" "R < 2 ^ 53" "(Suc k - n) * R \<le> 2 ^ 49"
  shows "wr_files w ! c =
    samples_bytes (block ((Suc k - n) * R) (length (wr_files w ! c) div 4) (p_hist p))"
proof -
  have len: "length rings = length rbs"
    using assms(2) arg_cong [OF assms(4), of length] by simp
  have ring: "fst (rings ! c) = p_ring (psts1 ! c)"
    using arg_cong [OF assms(4), of "\<lambda>xs. xs ! c"] assms(2,7) len by simp
  have "rb_start_nsec (fst (rings ! c)) = word_of_nat (n * 1000000000) \<and> rb_rate (fst (rings ! c)) = Fin (of_nat R)"
    unfolding ring using psteps_info [of "psts0 ! c" "psts1 ! c"] assms(3,7)
    by (simp add: assms(1) rec_begin_def set_descriptor_info_def)
  then have tail: "unat (ws_tails w0 ! c) = (Suc k - n) * R"
    using wr_new_tails [OF assms(5) _ _ _ assms(9-13)] assms(7) len by simp
  have "length psts1 = length (ws_tails w0)"
    using assms(6) by (induction rule: wr_reach.induct) simp_all
  then have "c < length (ws_tails w0)"
    using assms(2,7) by simp
  from recorded_prefix [OF assms(6) this assms(8)] show ?thesis
    by (simp only: tail)
qed

text \<open>
  Concretely: ten samples per second from second 6 on, a signal in second 6, and a recorder that writes
  one sample, which is number ten.
\<close>

definition demo_first :: "sample pstate" where
  "demo_first = rec_begin 6000000000 (Fin 10) (ringbuf_new 4194304 4 zero_sample)"

definition demo_more :: "sample pstate" where
  "demo_more = rec_end (ring_append 10 (replicate 10 (3, 4)) (ring_append 1048576 demo_block (p_ring demo_first)))
     (demo_block @ replicate 10 (3, 4))"

lemma demo_first_ring:
  "ring_wf (p_ring demo_first)" "rb_lhead (p_ring demo_first) = 0" "rb_size (p_ring demo_first) = 1048576"
  "p_hist demo_first = []" "p_hi demo_first = 0" "pinv demo_first"
proof -
  show wf: "ring_wf (p_ring demo_first)"
    using ringbuf_new_ok(1) [of 20 4194304 4 zero_sample]
    by (simp add: demo_first_def rec_begin_def set_descriptor_info_fields)
  then show "pinv demo_first"
    by (simp add: pinv_def demo_first_def rec_begin_def ring_repr_upto_def)
      (simp add: set_descriptor_info_def ringbuf_new_def Let_def)
qed (simp_all add: demo_first_def rec_begin_def set_descriptor_info_def ringbuf_new_def Let_def)

lemma demo_more_reached:
  "pstep\<^sup>*\<^sup>* demo_first demo_more" "rb_size (p_ring demo_more) = 1048576" "rb_clob (p_ring demo_more) = 10 + 1048576"
  "p_hist demo_more = demo_block @ replicate 10 (3, 4)"
proof -
  let ?r0 = "p_ring demo_first"
  let ?r1 = "ring_append 1048576 demo_block ?r0"
  have n: "unat (1048576 :: u64) < 2 ^ 63" "unat (10 :: u64) < 2 ^ 63" by simp_all
  note F0 = ring_append_fields [OF demo_first_ring(1) n(1), of demo_block, unfolded demo_first_ring(2,3)]
  have wf1: "ring_wf ?r1"
    using ring_append_ok(1) [OF demo_first_ring(1) _ n(1), of "[]" demo_block] demo_first_ring
    by (simp add: ring_repr_def ring_repr_upto_def clip_def ring_wf_def)
  have r1: "rb_lhead ?r1 = 1048576" "rb_size ?r1 = 1048576"
    using F0 by simp_all
  note F1 = ring_append_fields [OF wf1 n(2), of "replicate 10 (3, 4)", unfolded r1]
  have start: "demo_first = \<lparr>p_ring = ?r0, p_hist = [], p_hi = length ([] :: sample list)\<rparr>"
    by (simp add: demo_first_def rec_begin_def)
  have 1: "pstep\<^sup>*\<^sup>* demo_first \<lparr>p_ring = ?r1, p_hist = demo_block, p_hi = length demo_block\<rparr>"
    using psteps_append [OF demo_first_ring(1), of "[]" 1048576 demo_block] demo_first_ring(2,3)
    by (subst start) (simp add: clip_def)
  have 2: "pstep\<^sup>*\<^sup>* \<lparr>p_ring = ?r1, p_hist = demo_block, p_hi = length demo_block\<rparr> demo_more"
    using psteps_append [OF wf1, of demo_block 10 "replicate 10 (3, 4)"] r1
    by (simp add: clip_def demo_more_def rec_end_def)
  show "pstep\<^sup>*\<^sup>* demo_first demo_more"
    by (rule rtranclp_trans [OF 1 2])
  show "rb_size (p_ring demo_more) = 1048576" "rb_clob (p_ring demo_more) = 10 + 1048576"
    using F1 by (simp_all add: demo_more_def rec_end_def clip_def)
  show "p_hist demo_more = demo_block @ replicate 10 (3, 4)"
    by (simp add: demo_more_def rec_end_def)
qed

lemma demo_more_tail: "get_tail (p_ring demo_first) (wr_start_ns 6) = Inr 10"
proof -
  have "rb_start_nsec (p_ring demo_first) = 6000000000" "rb_rate (p_ring demo_first) = Fin 10"
    "rb_clob (p_ring demo_first) = 0"
    by (simp_all add: demo_first_def rec_begin_def set_descriptor_info_def ringbuf_new_def Let_def)
  with get_tail_whole_seconds [of 10 1 "p_ring demo_first"] show ?thesis
    by (simp add: wr_start_ns_def)
qed

theorem recording_on_time_witness:
  "\<exists>w0 w. wr_new ''x'' (wr_start_ns (int 6)) [(p_ring demo_first, demo_open None)] = (None, w0) \<and>
     wr_reach (ws_tails w0) [demo_first] [demo_more] w \<and> wr_files w ! 0 = sample_bytes (1, 2)"
proof -
  obtain w0 where w0: "wr_new ''x'' (wr_start_ns (int 6)) [(p_ring demo_first, demo_open None)] = (None, w0)"
    "ws_tails w0 = [10]"
    by (simp add: wr_new_def wr_open_channel_def demo_more_tail demo_open_def Let_def)
  obtain w where w: "wr_reach [10] [demo_first] [demo_more] w" "length (wr_files w ! 0) = 4"
    using demo_record [OF demo_first_ring(6) demo_more_reached(1), of 10] demo_more_reached(2-4) by auto
  have init: "[demo_first] = map (rec_begin (word_of_nat (6 * 1000000000)) (Fin (of_nat 10)))
      [ringbuf_new 4194304 4 zero_sample]"
    by (simp add: demo_first_def)
  have "block 10 1 (demo_block @ replicate 10 (3, 4)) = [(1, 2)]"
    using nth_demo_block [of 10] by (intro nth_equalityI) (auto simp: nth_block nth_append)
  then have "wr_files w ! 0 = sample_bytes (1, 2)"
    using recording_on_time [OF init, of "[demo_first]" "[(p_ring demo_first, demo_open None)]" "''x''" 6 w0
        "[demo_more]" w 0 demo_more] w w0 demo_more_reached(4)
    by simp
  with w0 w(1) show ?thesis by auto
qed

end
