(* ===== verification/Tests.thy ===== *)
theory Tests
  imports Mpsc Rx Config
begin

text \<open>
  The programs under \<^verbatim>\<open>test\<close>, over the same models as the program: what each of them checks, and that the
  checks succeed on every run, not only on the random or scheduled one, with one exception: the check
  of the queue test at its end is too strong, since the consumer may be told to stop before it has emptied
  the queue.
\<close>

subsection \<open>The ring against the test's own counters\<close>

text \<open>
  \<^verbatim>\<open>test_ringbuf.cpp\<close>: one turn for span size and draw, or the text of the exception. \<open>memset\<close> with
  the turn's number fills both halves of a sample with its low byte.
\<close>

record ring_test =
  rt_ring :: "sample ringbuf"
  rt_head :: u64
  rt_clob :: u64

definition test_fill :: "nat \<Rightarrow> sample" where
  "test_fill n = (let b = word_of_nat (n mod 256) :: 16 word in (b OR push_bit 8 b, b OR push_bit 8 b))"

definition test_ring_turn :: "nat \<Rightarrow> u64 \<Rightarrow> u64 \<Rightarrow> ring_test \<Rightarrow> string + ring_test" where
  "test_ring_turn n span_size draw t =
     (let (sp, ring) = get_producer_span span_size (rt_ring t); clob = rt_head t + sp_size sp in
      if sp_size sp \<noteq> span_size \<and> sp_size sp \<noteq> 4096 - (rt_head t AND 4095) then Inl ''span size invalid''
      else if rb_clob ring \<noteq> clob then Inl ''clob pointer invalid''
      else if sp_off sp \<noteq> uint (rt_head t AND 4095) then Inl ''span data address invalid''
      else
        let ring = span_write sp (replicate (unat (sp_size sp)) (test_fill n)) ring;
            prod_size = min (sp_size sp) draw;
            ring = produce prod_size ring;
            head = rt_head t + prod_size
        in if rb_head ring \<noteq> head then Inl ''head pointer invalid''
           else Inr \<lparr>rt_ring = ring, rt_head = head, rt_clob = clob\<rparr>)"

fun test_ring_loop :: "nat \<Rightarrow> (u64 \<times> u64) list \<Rightarrow> ring_test \<Rightarrow> string + ring_test" where
  "test_ring_loop n [] t = Inr t"
| "test_ring_loop n ((span_size, draw) # draws) t =
     (case test_ring_turn n span_size draw t of
        Inl e \<Rightarrow> Inl e
      | Inr t' \<Rightarrow> test_ring_loop (Suc n) draws t')"

definition test_ringbuf :: "(u64 \<times> u64) list \<Rightarrow> string + ring_test" where
  "test_ringbuf draws = test_ring_loop 0 draws
     \<lparr>rt_ring = ringbuf_new (4096 * 4) 4 zero_sample, rt_head = 0, rt_clob = 0\<rparr>"

definition ring_test_ok :: "ring_test \<Rightarrow> bool" where
  "ring_test_ok t \<longleftrightarrow> ring_wf (rt_ring t) \<and> rb_size (rt_ring t) = 4096 \<and> rb_head (rt_ring t) = rt_head t"

lemma test_ring_turn_ok:
  assumes "ring_test_ok t" "unat span_size \<le> 1024" "unat (rt_head t) + 1024 < 2 ^ 63"
  shows "\<exists>t'. test_ring_turn n span_size draw t = Inr t' \<and> ring_test_ok t' \<and>
    unat (rt_head t') \<le> unat (rt_head t) + 1024"
proof -
  let ?rb = "rt_ring t" and ?h = "rt_head t"
  let ?m = "clip 4096 (unat ?h) (unat span_size)"
  have wf: "ring_wf ?rb" and S: "rb_size ?rb = 4096" "rb_head ?rb = ?h"
    using assms(1) by (simp_all add: ring_test_ok_def)
  have "rb_mask ?rb = rb_size ?rb - 1" "rb_head ?rb = rb_lhead ?rb"
    using wf unfolding ring_wf_def by blast+
  then have R: "rb_size ?rb = 4096" "rb_lhead ?rb = ?h" "rb_mask ?rb = 4095"
    using S by simp_all
  define d where "d = min (word_of_nat ?m) draw"
  have n63: "unat span_size < 2 ^ 63"
    using assms(2) by simp
  have m: "?m \<le> 1024"
    by (rule order_trans [OF clip_le assms(2)])
  have sum: "unat ?h + unat span_size < 2 ^ 64"
    using assms(2,3) by simp
  have mask: "unat (?h AND 4095) = unat ?h mod 4096"
    using ring_mask [OF wf, of ?h] by (simp add: R)
  have inside: "unat ?h mod 4096 + ?m \<le> 4096"
    by (rule clip_inside) simp
  have span: "get_producer_span span_size ?rb =
      (Span (int (unat ?h mod 4096)) (word_of_nat ?m), ?rb\<lparr>rb_clob := ?h + word_of_nat ?m\<rparr>)"
    using get_producer_span_eq [OF wf n63] by (simp add: R Let_def)
  have "unat (4096 :: u64) = 4096" by simp
  then have rest: "4096 - (?h AND 4095) = word_of_nat (4096 - unat ?h mod 4096)"
    using masked_rest [OF wf, of ?h] by (simp only: R)
  have size: "word_of_nat ?m = span_size \<or> word_of_nat ?m = 4096 - (?h AND 4095)"
  proof (cases "unat span_size \<le> 4096 - unat ?h mod 4096")
    case True
    then have "?m = unat span_size"
      by (simp add: clip_def min_def)
    then show ?thesis
      by (simp only: of_nat_unat ucast_id simp_thms)
  next
    case False
    then have "?m = 4096 - unat ?h mod 4096"
      by (simp add: clip_def min_def)
    then show ?thesis
      by (simp only: rest simp_thms)
  qed
  have addr: "uint (?h AND 4095) = int (unat ?h mod 4096)"
    using mask by (metis uint_nat)
  define t' where "t' = \<lparr>rt_ring = produce d (span_write (Span (int (unat ?h mod 4096)) (word_of_nat ?m))
      (replicate ?m (test_fill n)) (?rb\<lparr>rb_clob := ?h + word_of_nat ?m\<rparr>)), rt_head = ?h + d,
      rt_clob = ?h + word_of_nat ?m\<rparr>"
  have "test_ring_turn n span_size draw t = Inr t'"
    using size by (auto simp: test_ring_turn_def span addr t'_def d_def produce_def span_write_def R Let_def)
  moreover have d: "unat d \<le> ?m"
    by (simp add: d_def min_def word_le_nat_alt)
  have d1: "unat d \<le> 1024"
    by (rule order_trans [OF d m])
  then have h': "unat (?h + d) = unat ?h + unat d"
    using assms(3) by (intro unat_plus_u64) simp
  have c': "unat (?h + word_of_nat ?m) = unat ?h + ?m"
    using m assms(3) by (intro unat_plus_nat_u64) simp
  have "ring_wf (rt_ring t')"
    using wf inside d by (auto simp: ring_wf_def t'_def produce_def span_write_def Let_def R h' c' word_le_nat_alt)
  then have "ring_test_ok t'"
    by (simp add: ring_test_ok_def t'_def produce_def span_write_def Let_def R)
  moreover have "unat (rt_head t') \<le> unat ?h + 1024"
    using d1 h' by (simp add: t'_def)
  ultimately show ?thesis by blast
qed

text \<open>
  The test never fails, for any spans of at most 1024 samples and as long as the counters have 63
  bits; its own counters and the ring's masks and cached counters agree throughout, and the
  assertions of the ring hold.
\<close>

theorem test_ringbuf_passes:
  assumes "\<forall>(span_size, draw) \<in> set draws. unat span_size \<le> 1024" "length draws * 1024 < 2 ^ 63 - 1024"
  shows "\<exists>t. test_ringbuf draws = Inr t \<and> ring_wf (rt_ring t) \<and> rb_head (rt_ring t) = rt_head t"
proof -
  have "ring_test_ok t \<Longrightarrow> unat (rt_head t) + length ds * 1024 < 2 ^ 63 - 1024 \<Longrightarrow>
      \<forall>(span_size, draw) \<in> set ds. unat span_size \<le> 1024 \<Longrightarrow>
      \<exists>t'. test_ring_loop n ds t = Inr t' \<and> ring_test_ok t'" for n t ds
  proof (induction ds arbitrary: n t)
    case Nil
    then show ?case by simp
  next
    case (Cons d ds)
    obtain span_size draw where [simp]: "d = (span_size, draw)" by fastforce
    have "unat span_size \<le> 1024" "unat (rt_head t) + 1024 < 2 ^ 63"
      using Cons.prems by auto
    from test_ring_turn_ok [OF Cons.prems(1) this] obtain t' where t': "test_ring_turn n span_size draw t = Inr t'"
      "ring_test_ok t'" "unat (rt_head t') \<le> unat (rt_head t) + 1024"
      by blast
    with Cons.prems(2,3) Cons.IH [OF t'(2), of "Suc n"] show ?case by auto
  qed
  moreover have "ring_wf (ringbuf_new (4096 * 4) 4 zero_sample)"
    using ringbuf_new_ok(1) [of 12 "4096 * 4" 4 zero_sample] by simp
  then have "ring_test_ok \<lparr>rt_ring = ringbuf_new (4096 * 4) 4 zero_sample, rt_head = 0, rt_clob = 0\<rparr>"
    by (simp add: ring_test_ok_def) (simp add: ringbuf_new_def Let_def)
  ultimately obtain t where "test_ringbuf draws = Inr t" "ring_test_ok t"
    using assms by (force simp: test_ringbuf_def)
  then show ?thesis
    by (auto simp: ring_test_ok_def)
qed

theorem test_ringbuf_passes_witness: "\<exists>t. test_ringbuf [(1000, 7), (1024, 2000)] = Inr t \<and> rb_head (rt_ring t) = rt_head t"
  using test_ringbuf_passes [of "[(1000, 7), (1024, 2000)]"] by auto

subsection \<open>The queue under two producers\<close>

text \<open>
  \<^verbatim>\<open>test_mpsc.cpp\<close>: an item is the number of its thread and a counter. The test's state is the queue with its
  threads, the counters of the producers, the counters of the consumer, and the text of the
  \<open>test_error\<close> that ended it, if any.
\<close>

type_synonym item = "nat \<times> u64"

record test_sys =
  ts_sys :: "item msys"
  ts_ctr :: "nat \<Rightarrow> u64"
  ts_seen :: "nat \<Rightarrow> u64"
  ts_error :: "string option"

definition test_init :: test_sys where
  "test_init = \<lparr>ts_sys = msys_init 128 (0, 0), ts_ctr = (\<lambda>_. 0), ts_seen = (\<lambda>_. 0), ts_error = None\<rparr>"

text \<open>A push returns an accepted item when it sets the flag of its slot; a refused one returns otherwise.\<close>

fun push_returns :: "item ppc \<Rightarrow> item ppc \<Rightarrow> bool" where
  "push_returns (Written x i g) Idle = True"
| "push_returns _ _ = False"

fun slot_valid :: "item mpsc \<Rightarrow> item ppc \<Rightarrow> bool" where
  "slot_valid q (Written x i g) = q_valid q ! unat i"
| "slot_valid q _ = False"

text \<open>
  The checks, for a step of the queue to \<open>s'\<close>: those that \<open>TEST_MPSC\<close> adds to \<open>push\<close> and \<open>pop\<close>, and the
  consumer's for the item it got.
\<close>

definition test_error :: "test_sys \<Rightarrow> item msys \<Rightarrow> string option" where
  "test_error t s' =
     (let s = ts_sys t in
      if \<exists>p < 2. push_returns (m_pcs s p) (m_pcs s' p) \<and> slot_valid (m_q s) (m_pcs s p)
      then Some ''producer got valid slot''
      else if m_cpc s = CIdle \<and> m_cpc s' = CUsed \<and> 0x7fffffffffffffff < q_used (m_q s)
      then Some ''used count underflowed''
      else case m_cpc s of
             CReleased (thread, c) \<Rightarrow>
               if m_cpc s' = CIdle \<and> ts_seen t thread \<noteq> c then Some ''invalid counter value'' else None
           | _ \<Rightarrow> None)"

text \<open>What the step makes of the test: the counter of a push that was accepted, that of the item's thread.\<close>

definition test_after :: "test_sys \<Rightarrow> item msys \<Rightarrow> test_sys" where
  "test_after t s' =
     (let s = ts_sys t in
      \<lparr>ts_sys = s',
       ts_ctr = (\<lambda>p. if push_returns (m_pcs s p) (m_pcs s' p) then ts_ctr t p + 1 else ts_ctr t p),
       ts_seen = (case m_cpc s of
           CReleased (thread, c) \<Rightarrow>
             if m_cpc s' = CIdle then (ts_seen t)(thread := ts_seen t thread + 1) else ts_seen t
         | _ \<Rightarrow> ts_seen t),
       ts_error = test_error t s'\<rparr>)"

text \<open>
  A step of the test is a step of the queue in which a producer enters \<open>push\<close> only while its counter is below
  the number of iterations \<open>n\<close>, and with the item that has this counter.
\<close>

inductive test_step :: "u64 \<Rightarrow> test_sys \<Rightarrow> test_sys \<Rightarrow> bool" for n :: u64 where
  test_step: "ts_error t = None \<Longrightarrow> mstep 128 2 (ts_sys t) s' \<Longrightarrow>
    (\<And>p. m_pcs (ts_sys t) p = Idle \<Longrightarrow> m_pcs s' p \<noteq> Idle \<Longrightarrow> ts_ctr t p < n) \<Longrightarrow>
    (\<And>p x. m_pcs (ts_sys t) p = Idle \<Longrightarrow> m_pcs s' p = Alloc x \<Longrightarrow> x = (p, ts_ctr t p)) \<Longrightarrow>
    test_step n t (test_after t s')"

text \<open>The producers are done, and the consumer is told to stop; and its check at the end.\<close>

definition producers_done :: "u64 \<Rightarrow> test_sys \<Rightarrow> bool" where
  "producers_done n t \<longleftrightarrow> (\<forall>p < 2. m_pcs (ts_sys t) p = Idle \<and> ts_ctr t p = n)"

definition test_final :: "u64 \<Rightarrow> test_sys \<Rightarrow> bool" where
  "test_final n t \<longleftrightarrow> ts_seen t 0 = n \<and> ts_seen t 1 = n"

text \<open>
  The invariant, over the accepted items in the order of their tickets: those of a producer are numbered
  from 0 on, their number is the producer's counter, plus one while it is inside the push that was
  accepted, and the consumer's counters count what it popped.
\<close>

definition accepted :: "nat \<Rightarrow> (nat \<times> item) list \<Rightarrow> nat" where
  "accepted p es = length (filter (\<lambda>e. fst e = p) es)"

definition numbered :: "(nat \<times> item) list \<Rightarrow> bool" where
  "numbered es \<longleftrightarrow> (\<forall>k < length es. snd (es ! k) =
     (fst (es ! k), word_of_nat (accepted (fst (es ! k)) (take k es))))"

lemma numbered_snoc:
  "numbered (es @ [e]) \<longleftrightarrow> numbered es \<and> snd e = (fst e, word_of_nat (accepted (fst e) es))"
  by (auto simp: numbered_def nth_append less_Suc_eq)

lemma accepted_snoc: "accepted p (es @ [e]) = accepted p es + (if fst e = p then 1 else 0)"
  by (simp add: accepted_def)

fun holds_ticket :: "item ppc \<Rightarrow> bool" where
  "holds_ticket (Slot x i g) = True"
| "holds_ticket (Written x i g) = True"
| "holds_ticket _ = False"

definition counted :: "test_sys \<Rightarrow> bool" where
  "counted t \<longleftrightarrow> (\<forall>p. word_of_nat (accepted p (m_alloc (ts_sys t))) =
     ts_ctr t p + (if holds_ticket (m_pcs (ts_sys t) p) then 1 else 0))"

definition test_inv :: "u64 \<Rightarrow> test_sys \<Rightarrow> bool" where
  "test_inv n t \<longleftrightarrow>
     (let s = ts_sys t in ts_error t = None \<and> minv 128 2 s \<and> numbered (m_alloc s) \<and> counted t \<and>
       (\<forall>p. accepted p (m_alloc s) \<le> unat n) \<and>
       (\<forall>p x. m_pcs s p = Alloc x \<longrightarrow>
          accepted p (m_alloc s) < unat n \<and> x = (p, word_of_nat (accepted p (m_alloc s)))) \<and>
       ts_seen t = (\<lambda>p. word_of_nat (accepted p (take (length (m_out s)) (m_alloc s)))))"

lemma unat_less_u64: "unat (n :: u64) < 2 ^ 64"
  using unsigned_less [of n, where 'a = nat] by simp

lemma test_cfg: "mpsc_cfg 128 2" "mpsc_size_ok 128"
  unfolding mpsc_cfg_def mpsc_size_ok_def by (intro conjI exI [of _ 7]; simp)+

lemma push_returns_same [simp]: "\<not> push_returns c c"
  by (cases c) simp_all

text \<open>A step either leaves the accepted items and adds at most a new push, or accepts one.\<close>

lemma mstep_alloc:
  assumes "mstep N np s t"
  obtains (same) "m_alloc t = m_alloc s"
      "\<And>p x. m_pcs t p = Alloc x \<Longrightarrow> m_pcs s p = Alloc x \<or> m_pcs s p = Idle"
    | (accept) p x where "m_pcs s p = Alloc x" "m_alloc t = m_alloc s @ [(p, x)]"
      "\<And>q. q \<noteq> p \<Longrightarrow> m_pcs t q = m_pcs s q" "\<And>y. m_pcs t p \<noteq> Alloc y"
  using assms
proof cases
  case (push_head p x)
  then show ?thesis by (intro accept [of p x]) simp_all
qed (rule same; auto split: if_splits)+

text \<open>The producers' counters.\<close>

lemma counted_step: "mstep 128 2 (ts_sys t) s' \<Longrightarrow> counted t \<Longrightarrow> counted (test_after t s')"
proof -
  assume "mstep 128 2 (ts_sys t) s'" and c: "counted t"
  have h: "word_of_nat (accepted p (m_alloc (ts_sys t))) =
      ts_ctr t p + (if holds_ticket (m_pcs (ts_sys t) p) then 1 else 0)" for p
    using c by (simp add: counted_def)
  from \<open>mstep 128 2 (ts_sys t) s'\<close> show "counted (test_after t s')"
    unfolding counted_def test_after_def Let_def
    by cases (auto simp: h accepted_snoc)
qed

text \<open>The accepted items, the limit on their number, and the items that are about to be accepted.\<close>

lemma test_items_step:
  assumes inv: "test_inv n t" and step: "mstep 128 2 (ts_sys t) s'"
    and enter: "\<And>p. m_pcs (ts_sys t) p = Idle \<Longrightarrow> m_pcs s' p \<noteq> Idle \<Longrightarrow> ts_ctr t p < n"
      "\<And>p x. m_pcs (ts_sys t) p = Idle \<Longrightarrow> m_pcs s' p = Alloc x \<Longrightarrow> x = (p, ts_ctr t p)"
  shows "numbered (m_alloc s') \<and> (\<forall>p. accepted p (m_alloc s') \<le> unat n) \<and>
    (\<forall>p x. m_pcs s' p = Alloc x \<longrightarrow> accepted p (m_alloc s') < unat n \<and> x = (p, word_of_nat (accepted p (m_alloc s'))))"
proof -
  let ?s = "ts_sys t"
  have num: "numbered (m_alloc ?s)" and le: "\<And>p. accepted p (m_alloc ?s) \<le> unat n" and ctr: "counted t"
    and al: "\<And>p x. m_pcs ?s p = Alloc x \<Longrightarrow> accepted p (m_alloc ?s) < unat n \<and> x = (p, word_of_nat (accepted p (m_alloc ?s)))"
    using inv unfolding test_inv_def Let_def by blast+
  from step show ?thesis
  proof (cases rule: mstep_alloc)
    case px: (accept p x)
    have x: "accepted p (m_alloc ?s) < unat n" "x = (p, word_of_nat (accepted p (m_alloc ?s)))"
      using al [OF px(1)] by simp_all
    have "accepted q (m_alloc s') < unat n \<and> y = (q, word_of_nat (accepted q (m_alloc s')))" if y: "m_pcs s' q = Alloc y" for q y
    proof -
      have "q \<noteq> p"
        using px(4) y by blast
      then show ?thesis
        using al [of q y] px(3) y by (simp add: px(2) accepted_snoc)
    qed
    moreover have "accepted q (m_alloc s') \<le> unat n" for q
      using le [of q] x(1) by (cases "q = p") (simp_all add: px(2) accepted_snoc)
    ultimately show ?thesis
      using num x(2) by (simp add: px(2) numbered_snoc)
  next
    case same
    have "accepted q (m_alloc ?s) < unat n \<and> y = (q, word_of_nat (accepted q (m_alloc ?s)))" if y: "m_pcs s' q = Alloc y" for q y
    proof (cases "m_pcs ?s q = Idle")
      case True
      then have "ts_ctr t q < n" "y = (q, ts_ctr t q)" "ts_ctr t q = word_of_nat (accepted q (m_alloc ?s))"
        using enter y ctr by (simp_all add: counted_def)
      moreover have "accepted q (m_alloc ?s) < 2 ^ 64"
        using unat_less_u64 [of n] by (intro le_less_trans [OF le]) simp
      ultimately show ?thesis
        by (simp add: word_less_nat_alt unat_word_of_nat_u64)
    next
      case False
      then show ?thesis
        using same(2) [OF y] al by blast
    qed
    then show ?thesis
      using num le by (simp add: same(1))
  qed
qed

text \<open>The item the consumer is about to return has the number that the consumer expects.\<close>

lemma popped_item:
  assumes "minv 128 2 s" "numbered (m_alloc s)" "m_cpc s = CReleased (thread, c)"
  shows "length (m_out s) < length (m_alloc s)" "fst (m_alloc s ! length (m_out s)) = thread"
    "c = word_of_nat (accepted thread (take (length (m_out s)) (m_alloc s)))"
proof -
  show l: "length (m_out s) < length (m_alloc s)"
    using assms(1,3) by (simp add: minv_def)
  have "snd (m_alloc s ! length (m_out s)) = (thread, c)"
    using assms(1,3) by (simp add: minv_def)
  moreover have "snd (m_alloc s ! length (m_out s)) = (fst (m_alloc s ! length (m_out s)),
      word_of_nat (accepted (fst (m_alloc s ! length (m_out s))) (take (length (m_out s)) (m_alloc s))))"
    using assms(2) l unfolding numbered_def by blast
  ultimately show "fst (m_alloc s ! length (m_out s)) = thread"
    "c = word_of_nat (accepted thread (take (length (m_out s)) (m_alloc s)))"
    by (metis prod.inject)+
qed

text \<open>A step leaves what was popped, or the consumer returns its item.\<close>

lemma mstep_out:
  assumes "mstep N np s s'"
  obtains (same) "m_out s' = m_out s" "\<And>x. m_cpc s = CReleased x \<Longrightarrow> m_cpc s' \<noteq> CIdle" "\<exists>es. m_alloc s' = m_alloc s @ es"
    | (pop) x where "m_cpc s = CReleased x" "m_cpc s' = CIdle" "m_out s' = m_out s @ [x]" "m_alloc s' = m_alloc s"
  using assms
proof cases
  case (pop_tail x)
  then show ?thesis by (intro pop [of x]) simp_all
qed (rule same; auto)+

lemma test_seen_step:
  assumes inv: "test_inv n t" and step: "mstep 128 2 (ts_sys t) s'"
  shows "ts_seen (test_after t s') = (\<lambda>p. word_of_nat (accepted p (take (length (m_out s')) (m_alloc s'))))"
proof -
  let ?s = "ts_sys t"
  have I: "minv 128 2 ?s" "numbered (m_alloc ?s)"
    and seen: "ts_seen t = (\<lambda>p. word_of_nat (accepted p (take (length (m_out ?s)) (m_alloc ?s))))"
    using inv by (simp_all add: test_inv_def Let_def)
  from step show ?thesis
  proof (cases rule: mstep_out)
    case same
    have "length (m_out ?s) \<le> length (m_alloc ?s)"
      using I(1) by (auto simp: minv_def counters_ok_def lo_def split: if_splits)
    then have "take (length (m_out s')) (m_alloc s') = take (length (m_out ?s)) (m_alloc ?s)"
      using same(1,3) by auto
    moreover have "ts_seen (test_after t s') = ts_seen t"
      using same(2) by (auto simp: test_after_def Let_def split: cpc.split)
    ultimately show ?thesis
      by (simp add: seen)
  next
    case (pop x)
    obtain thread c where x: "x = (thread, c)" by fastforce
    have "m_cpc ?s = CReleased (thread, c)"
      using pop(1) by (simp add: x)
    note P = popped_item [OF I this]
    have "take (length (m_out s')) (m_alloc s') = take (length (m_out ?s)) (m_alloc ?s) @ [m_alloc ?s ! length (m_out ?s)]"
      using P(1) by (simp add: pop(3,4) take_Suc_conv_app_nth)
    then show ?thesis
      using P(2) by (auto simp: test_after_def Let_def pop(1,2) x seen accepted_snoc add.commute)
  qed
qed

text \<open>None of the checks fails.\<close>

lemma test_error_none:
  assumes inv: "test_inv n t"
  shows "test_error t s' = None"
proof -
  let ?s = "ts_sys t"
  have I: "minv 128 2 ?s" "numbered (m_alloc ?s)"
    and seen: "ts_seen t = (\<lambda>p. word_of_nat (accepted p (take (length (m_out ?s)) (m_alloc ?s))))"
    using inv by (simp_all add: test_inv_def Let_def)
  have slot: "\<not> slot_valid (m_q ?s) (m_pcs ?s p)" if p: "p < 2" for p
  proof (cases "m_pcs ?s p")
    case (Written x i g)
    have "ticket_ok 128 ?s p (m_pcs ?s p)"
      using I(1) p by (simp add: minv_def tickets_ok_def)
    then have "lo ?s \<le> g" "g < length (m_alloc ?s)" "unat i = g mod unat (128 :: u64)"
      by (simp_all add: Written ticket_at_def)
    moreover have "pending 2 (m_pcs ?s) g"
      unfolding pending_def using p Written by (intro exI [of _ p]) simp
    ultimately show ?thesis
      using I(1) by (simp add: Written minv_def slots_ok_def)
  qed simp_all
  have C: "counters_ok 128 2 ?s"
    using I(1) by (simp add: minv_def)
  have "unat (q_used (m_q ?s)) \<le> unat (128 :: u64) + 2"
    using used_unat [OF test_cfg(1) C] uses_bound(1) [OF test_cfg(1) C] by simp
  then have used: "\<not> 0x7fffffffffffffff < q_used (m_q ?s)"
    by (simp add: word_less_nat_alt)
  show ?thesis
  proof (cases "m_cpc ?s")
    case (CReleased x)
    obtain thread c where x: "x = (thread, c)" by fastforce
    have "ts_seen t thread = c"
      using popped_item(3) [OF I, of thread c] CReleased by (simp add: x seen)
    then show ?thesis
      using slot by (auto simp: test_error_def Let_def CReleased x)
  qed (use slot used in \<open>auto simp: test_error_def Let_def\<close>)
qed

lemma test_step_inv: "test_step n t u \<Longrightarrow> test_inv n t \<Longrightarrow> test_inv n u"
proof (induction rule: test_step.induct)
  case (test_step t s')
  have S: "minv 128 2 (ts_sys t)" "counted t"
    using test_step.prems by (simp_all add: test_inv_def Let_def)
  have after: "ts_sys (test_after t s') = s'" "ts_error (test_after t s') = test_error t s'"
    by (simp_all add: test_after_def Let_def)
  have "minv 128 2 s'"
    by (rule mstep_inv [OF test_step(2) test_cfg(1) S(1)])
  with test_items_step [OF test_step.prems test_step(2-4)] test_seen_step [OF test_step.prems test_step(2)]
    test_error_none [OF test_step.prems] counted_step [OF test_step(2) S(2)]
  show ?case
    unfolding test_inv_def Let_def after by blast
qed

lemma test_init_inv: "test_inv n test_init"
  using minv_init [OF test_cfg(1)]
  by (auto simp: test_inv_def test_init_def Let_def counted_def numbered_def accepted_def msys_init_def)

lemma test_run_inv: "(test_step n)\<^sup>*\<^sup>* test_init t \<Longrightarrow> test_inv n t"
  by (induction rule: rtranclp_induct) (auto intro: test_init_inv test_step_inv)

text \<open>
  C16. The test of the queue finds no fault, in any interleaving of the two producers and the consumer,
  however often a push is refused, for any number of iterations: neither the checks that \<open>TEST_MPSC\<close> puts into
  \<open>push\<close> and \<open>pop\<close> nor the consumer's check of an item's counter ever fails. When both producers
  are done, as many items of each were accepted as there are iterations; if then the queue is empty and the
  consumer is between two calls, its check at the end succeeds. (If the queue is not empty it may
  fail, see \<open>test_mpsc_race\<close>.)
\<close>

theorem test_mpsc_passes:
  assumes "(test_step n)\<^sup>*\<^sup>* test_init t"
  shows "ts_error t = None \<and>
    (producers_done n t \<longrightarrow> (\<forall>p < 2. accepted p (m_alloc (ts_sys t)) = unat n) \<and>
      (m_cpc (ts_sys t) = CIdle \<and> q_used (m_q (ts_sys t)) = 0 \<longrightarrow> test_final n t))"
proof -
  let ?s = "ts_sys t"
  have inv: "ts_error t = None" "minv 128 2 ?s" "counted t" "\<And>p. accepted p (m_alloc ?s) \<le> unat n"
    "ts_seen t = (\<lambda>p. word_of_nat (accepted p (take (length (m_out ?s)) (m_alloc ?s))))"
    using test_run_inv [OF assms] by (simp_all add: test_inv_def Let_def)
  have acc: "word_of_nat (accepted p (m_alloc ?s)) = n" "accepted p (m_alloc ?s) = unat n"
    if d: "producers_done n t" "p < 2" for p
  proof -
    show w: "word_of_nat (accepted p (m_alloc ?s)) = n"
      using inv(3) d by (simp add: counted_def producers_done_def)
    have "accepted p (m_alloc ?s) < 2 ^ 64"
      using unat_less_u64 [of n] by (intro le_less_trans [OF inv(4)]) simp
    then show "accepted p (m_alloc ?s) = unat n"
      using w unat_word_of_nat_u64 by metis
  qed
  have "test_final n t" if d: "producers_done n t" and e: "m_cpc ?s = CIdle" "q_used (m_q ?s) = 0"
  proof -
    have "quiescent 2 ?s"
      using d e(1) by (simp add: quiescent_def producers_done_def)
    from minv_quiescent [OF test_cfg(2,1) inv(2) this] mpsc_used_unat
    have "length (drop (length (m_out ?s)) (m_alloc ?s)) = 0"
      using e(2) by fastforce
    then have "take (length (m_out ?s)) (m_alloc ?s) = m_alloc ?s"
      by simp
    then show ?thesis
      using acc(1) [OF d, of 0] acc(1) [OF d, of 1] by (simp add: test_final_def inv(5))
  qed
  with inv(1) acc(2) show ?thesis by blast
qed

text \<open>Calls of the test as sequences of its steps: a push that is accepted, and a pop that finds an item.\<close>

lemma test_after_quiet:
  assumes "ts_error t = None" "test_error t s' = None"
    and "\<And>p. \<not> push_returns (m_pcs (ts_sys t) p) (m_pcs s' p)" "\<And>x. m_cpc (ts_sys t) = CReleased x \<Longrightarrow> m_cpc s' \<noteq> CIdle"
  shows "test_after t s' = t\<lparr>ts_sys := s'\<rparr>"
  using assms by (cases t) (auto simp: test_after_def Let_def split: cpc.split)

lemma test_after_push:
  assumes "ts_error t = None" "test_error t s' = None"
    and "\<And>q. push_returns (m_pcs (ts_sys t) q) (m_pcs s' q) \<longleftrightarrow> q = p" "\<And>x. m_cpc (ts_sys t) = CReleased x \<Longrightarrow> m_cpc s' \<noteq> CIdle"
  shows "test_after t s' = t\<lparr>ts_sys := s', ts_ctr := (ts_ctr t)(p := ts_ctr t p + 1)\<rparr>"
  using assms by (cases t) (auto simp: test_after_def Let_def fun_upd_def split: cpc.split)

lemma test_after_pop:
  assumes "ts_error t = None" "test_error t s' = None"
    and "\<And>q. \<not> push_returns (m_pcs (ts_sys t) q) (m_pcs s' q)" "m_cpc (ts_sys t) = CReleased (k, c)" "m_cpc s' = CIdle"
  shows "test_after t s' = t\<lparr>ts_sys := s', ts_seen := (ts_seen t)(k := ts_seen t k + 1)\<rparr>"
  using assms by (cases t) (auto simp: test_after_def Let_def)

lemma test_quiet:
  assumes "test_inv n t" "mstep 128 2 (ts_sys t) s'" "\<And>p. m_pcs (ts_sys t) p = Idle \<Longrightarrow> m_pcs s' p = Idle"
    and "\<And>p. \<not> push_returns (m_pcs (ts_sys t) p) (m_pcs s' p)" "\<And>x. m_cpc (ts_sys t) = CReleased x \<Longrightarrow> m_cpc s' \<noteq> CIdle"
  shows "test_step n t (t\<lparr>ts_sys := s'\<rparr>)"
proof -
  have none: "ts_error t = None"
    using assms(1) by (simp add: test_inv_def Let_def)
  have "test_step n t (test_after t s')"
    by (rule test_step.test_step [OF none assms(2)]) (use assms(3) in force)+
  moreover have "test_after t s' = t\<lparr>ts_sys := s'\<rparr>"
    by (rule test_after_quiet [OF none test_error_none [OF assms(1)] assms(4,5)])
  ultimately show ?thesis by simp
qed

lemma test_quiet_upd:
  assumes "test_inv n (t\<lparr>ts_sys := s\<rparr>)" "mstep 128 2 s s'" "\<And>p. m_pcs s p = Idle \<Longrightarrow> m_pcs s' p = Idle"
    and "\<And>p. \<not> push_returns (m_pcs s p) (m_pcs s' p)" "\<And>x. m_cpc s = CReleased x \<Longrightarrow> m_cpc s' \<noteq> CIdle"
  shows "test_step n (t\<lparr>ts_sys := s\<rparr>) (t\<lparr>ts_sys := s'\<rparr>)"
  using test_quiet [OF assms(1), of s'] assms(2-5) by simp

lemma test_push:
  assumes inv: "test_inv n t" and p: "p < 2" and idle: "m_pcs (ts_sys t) p = Idle"
    and room: "\<not> 128 \<le> q_used (m_q (ts_sys t))" and ctr: "ts_ctr t p < n"
  shows "(test_step n)\<^sup>*\<^sup>* t (t\<lparr>ts_sys := push_effect 128 p (p, ts_ctr t p) (ts_sys t), ts_ctr := (ts_ctr t)(p := ts_ctr t p + 1)\<rparr>)"
proof -
  let ?s = "ts_sys t" and ?x = "(p, ts_ctr t p)"
  let ?i = "q_head (m_q ?s) AND (128 - 1)" and ?g = "length (m_alloc ?s)"
  let ?s1 = "?s\<lparr>m_q := (m_q ?s)\<lparr>q_used := q_used (m_q ?s) + 1\<rparr>, m_pcs := (m_pcs ?s)(p := Alloc ?x)\<rparr>"
  let ?s2 = "?s1\<lparr>m_q := (m_q ?s1)\<lparr>q_head := q_head (m_q ?s1) + 1\<rparr>,
      m_pcs := (m_pcs ?s1)(p := Slot ?x (q_head (m_q ?s1) AND (128 - 1)) (length (m_alloc ?s1))),
      m_alloc := m_alloc ?s1 @ [(p, ?x)]\<rparr>"
  let ?s3 = "?s2\<lparr>m_q := (m_q ?s2)\<lparr>q_data := (q_data (m_q ?s2))[unat ?i := ?x]\<rparr>,
      m_pcs := (m_pcs ?s2)(p := Written ?x ?i ?g)\<rparr>"
  let ?s4 = "?s3\<lparr>m_q := (m_q ?s3)\<lparr>q_valid := (q_valid (m_q ?s3))[unat ?i := True]\<rparr>,
      m_pcs := (m_pcs ?s3)(p := Idle)\<rparr>"
  let ?t1 = "t\<lparr>ts_sys := ?s1\<rparr>" and ?t2 = "t\<lparr>ts_sys := ?s2\<rparr>" and ?t3 = "t\<lparr>ts_sys := ?s3\<rparr>"
  have none: "ts_error t = None"
    using inv by (simp add: test_inv_def Let_def)
  have "test_step n t (test_after t ?s1)"
    by (rule test_step.test_step [OF none push_used [OF p idle room]]) (use ctr in \<open>auto split: if_splits\<close>)
  moreover have "test_after t ?s1 = ?t1"
    by (rule test_after_quiet [OF none test_error_none [OF inv]]) (use idle in auto)
  ultimately have 1: "test_step n t ?t1" by simp
  note inv1 = test_step_inv [OF 1 inv]
  have 2: "test_step n ?t1 ?t2"
    using push_head [OF p, of ?s1 ?x 128] by (intro test_quiet_upd [OF inv1]) (auto split: if_splits)
  note inv2 = test_step_inv [OF 2 inv1]
  have 3: "test_step n ?t2 ?t3"
    using push_data [OF p, of ?s2 ?x ?i ?g 128] by (intro test_quiet_upd [OF inv2]) (auto split: if_splits)
  note inv3 = test_step_inv [OF 3 inv2]
  have "test_step n ?t3 (test_after ?t3 ?s4)"
    by (rule test_step.test_step) (use none push_valid [OF p, of ?s3 ?x ?i ?g 128] in \<open>auto split: if_splits\<close>)
  moreover have "test_after ?t3 ?s4 = ?t3\<lparr>ts_sys := ?s4, ts_ctr := (ts_ctr ?t3)(p := ts_ctr ?t3 p + 1)\<rparr>"
    by (rule test_after_push [OF _ test_error_none [OF inv3]]) (use none in auto)
  moreover have "?s4 = push_effect 128 p ?x ?s"
    using idle room by (auto simp: push_effect_def mpsc_push_def Let_def fun_upd_idem)
  ultimately have 4: "test_step n ?t3 (t\<lparr>ts_sys := push_effect 128 p ?x ?s, ts_ctr := (ts_ctr t)(p := ts_ctr t p + 1)\<rparr>)" by simp
  show ?thesis
    by (rule steps4 [where r = "test_step n", OF 1 2 3 4 refl])
qed

lemma test_pop:
  assumes inv: "test_inv n t" and idle: "m_cpc (ts_sys t) = CIdle" and pop: "fst (mpsc_pop 128 (m_q (ts_sys t))) = Some (k, c)"
  shows "(test_step n)\<^sup>*\<^sup>* t (t\<lparr>ts_sys := pop_effect 128 (ts_sys t), ts_seen := (ts_seen t)(k := ts_seen t k + 1)\<rparr>)"
proof -
  let ?s = "ts_sys t" and ?x = "(k, c)"
  let ?i = "unat (q_tail (m_q ?s) AND (128 - 1))"
  have found: "q_used (m_q ?s) \<noteq> 0" "q_valid (m_q ?s) ! ?i" "q_data (m_q ?s) ! ?i = ?x"
    using pop by (auto simp: mpsc_pop_def Let_def split: if_splits)
  let ?s1 = "?s\<lparr>m_cpc := CUsed\<rparr>"
  let ?s2 = "?s1\<lparr>m_cpc := CValid\<rparr>"
  let ?s3 = "?s2\<lparr>m_cpc := CMoved (q_data (m_q ?s2) ! ?i)\<rparr>"
  let ?s4 = "?s3\<lparr>m_q := (m_q ?s3)\<lparr>q_valid := (q_valid (m_q ?s3))[?i := False]\<rparr>, m_cpc := CInvalidated ?x\<rparr>"
  let ?s5 = "?s4\<lparr>m_q := (m_q ?s4)\<lparr>q_used := q_used (m_q ?s4) - 1\<rparr>, m_cpc := CReleased ?x\<rparr>"
  let ?s6 = "?s5\<lparr>m_q := (m_q ?s5)\<lparr>q_tail := q_tail (m_q ?s5) + 1\<rparr>, m_cpc := CIdle, m_out := m_out ?s5 @ [?x]\<rparr>"
  have none: "ts_error t = None"
    using inv by (simp add: test_inv_def Let_def)
  have 1: "test_step n t (t\<lparr>ts_sys := ?s1\<rparr>)"
    using test_quiet [OF inv, of ?s1] pop_used [OF idle found(1), of 128 2] by auto
  note inv1 = test_step_inv [OF 1 inv]
  have 2: "test_step n (t\<lparr>ts_sys := ?s1\<rparr>) (t\<lparr>ts_sys := ?s2\<rparr>)"
    using test_quiet [OF inv1, of ?s2] pop_valid [of ?s1 128 2] found(2) by auto
  note inv2 = test_step_inv [OF 2 inv1]
  have 3: "test_step n (t\<lparr>ts_sys := ?s2\<rparr>) (t\<lparr>ts_sys := ?s3\<rparr>)"
    using test_quiet [OF inv2, of ?s3] pop_move [of ?s2 128 2] by auto
  note inv3 = test_step_inv [OF 3 inv2]
  have 4: "test_step n (t\<lparr>ts_sys := ?s3\<rparr>) (t\<lparr>ts_sys := ?s4\<rparr>)"
    using test_quiet [OF inv3, of ?s4] pop_invalidate [of ?s3 ?x 128 2] found(3) by auto
  note inv4 = test_step_inv [OF 4 inv3]
  have 5: "test_step n (t\<lparr>ts_sys := ?s4\<rparr>) (t\<lparr>ts_sys := ?s5\<rparr>)"
    using test_quiet [OF inv4, of ?s5] pop_release [of ?s4 ?x 128 2] by auto
  note inv5 = test_step_inv [OF 5 inv4]
  have "test_step n (t\<lparr>ts_sys := ?s5\<rparr>) (test_after (t\<lparr>ts_sys := ?s5\<rparr>) ?s6)"
    by (rule test_step.test_step) (use none pop_tail [of ?s5 ?x 128 2] in auto)
  moreover have "test_after (t\<lparr>ts_sys := ?s5\<rparr>) ?s6 =
      (t\<lparr>ts_sys := ?s5\<rparr>)\<lparr>ts_sys := ?s6, ts_seen := (ts_seen (t\<lparr>ts_sys := ?s5\<rparr>))(k := ts_seen (t\<lparr>ts_sys := ?s5\<rparr>) k + 1)\<rparr>"
    by (rule test_after_pop [OF _ test_error_none [OF inv5]]) (use none in auto)
  moreover have "?s6 = pop_effect 128 ?s"
    using idle found pop by (simp add: pop_effect_def mpsc_pop_def Let_def)
  ultimately have 6: "test_step n (t\<lparr>ts_sys := ?s5\<rparr>) (t\<lparr>ts_sys := pop_effect 128 ?s, ts_seen := (ts_seen t)(k := ts_seen t k + 1)\<rparr>)" by simp
  show ?thesis
    by (rule steps6 [where r = "test_step n", OF 1 2 3 4 5 6 refl])
qed

text \<open>A run with one iteration: both producers push their item, then the consumer pops both.\<close>

definition test_pushed :: test_sys where
  "test_pushed = \<lparr>ts_sys = push_effect 128 1 (1, 0) (push_effect 128 0 (0, 0) (msys_init 128 (0, 0))),
     ts_ctr = (\<lambda>_. 0)(0 := 1, 1 := 1), ts_seen = (\<lambda>_. 0), ts_error = None\<rparr>"

definition test_popped :: test_sys where
  "test_popped = test_pushed\<lparr>ts_sys := pop_effect 128 (pop_effect 128 (ts_sys test_pushed)),
     ts_seen := (\<lambda>_. 0)(0 := 1, 1 := 1)\<rparr>"

lemma test_pushed_fields:
  "m_pcs (ts_sys test_pushed) = (\<lambda>_. Idle)" "m_cpc (ts_sys test_pushed) = CIdle" "m_out (ts_sys test_pushed) = []"
  by (simp_all add: test_pushed_def push_effect_def msys_init_def)

lemma test_pops:
  "fst (mpsc_pop 128 (m_q (ts_sys test_pushed))) = Some (0, 0)"
  "fst (mpsc_pop 128 (m_q (pop_effect 128 (ts_sys test_pushed)))) = Some (1, 0)"
  "q_used (m_q (ts_sys test_popped)) = 0" "m_out (ts_sys test_popped) = [(0, 0), (1, 0)]"
  by code_simp+

lemma test_pushed_reached: "(test_step 1)\<^sup>*\<^sup>* test_init test_pushed"
proof -
  let ?t = "test_init\<lparr>ts_sys := push_effect 128 0 (0, 0) (ts_sys test_init), ts_ctr := (ts_ctr test_init)(0 := 1)\<rparr>"
  have 1: "(test_step 1)\<^sup>*\<^sup>* test_init ?t"
    using test_push [OF test_init_inv, of 0 1] by (simp add: test_init_def msys_init_def mpsc_new_def)
  have "\<not> 128 \<le> q_used (m_q (ts_sys ?t))"
    by (simp add: test_init_def push_effect_def mpsc_push_def msys_init_def mpsc_new_def Let_def word_le_nat_alt)
  then have "(test_step 1)\<^sup>*\<^sup>* ?t (?t\<lparr>ts_sys := push_effect 128 1 (1, 0) (ts_sys ?t), ts_ctr := (ts_ctr ?t)(1 := 1)\<rparr>)"
    using test_push [OF test_run_inv [OF 1], of 1] by (simp add: test_init_def push_effect_def msys_init_def)
  moreover have "?t\<lparr>ts_sys := push_effect 128 1 (1, 0) (ts_sys ?t), ts_ctr := (ts_ctr ?t)(1 := 1)\<rparr> = test_pushed"
    by (simp add: test_pushed_def test_init_def)
  ultimately show ?thesis
    using 1 by simp
qed

lemma test_popped_reached: "(test_step 1)\<^sup>*\<^sup>* test_init test_popped"
proof -
  let ?t = "test_pushed\<lparr>ts_sys := pop_effect 128 (ts_sys test_pushed), ts_seen := (\<lambda>_. 0)(0 := 1)\<rparr>"
  have "(test_step 1)\<^sup>*\<^sup>* test_pushed ?t"
    using test_pop [OF test_run_inv [OF test_pushed_reached] test_pushed_fields(2) test_pops(1)] by (simp add: test_pushed_def)
  then have 1: "(test_step 1)\<^sup>*\<^sup>* test_init ?t"
    by (rule rtranclp_trans [OF test_pushed_reached])
  have "m_cpc (ts_sys ?t) = CIdle"
    using test_pushed_fields(2) by (simp add: pop_effect_def)
  then have "(test_step 1)\<^sup>*\<^sup>* ?t (?t\<lparr>ts_sys := pop_effect 128 (ts_sys ?t), ts_seen := (ts_seen ?t)(1 := ts_seen ?t 1 + 1)\<rparr>)"
    using test_pops(2) by (intro test_pop [OF test_run_inv [OF 1]]) simp_all
  moreover have "?t\<lparr>ts_sys := pop_effect 128 (ts_sys ?t), ts_seen := (ts_seen ?t)(1 := ts_seen ?t 1 + 1)\<rparr> = test_popped"
    by (simp add: test_popped_def)
  ultimately show ?thesis
    using 1 by simp
qed

theorem test_mpsc_passes_witness:
  "(test_step 1)\<^sup>*\<^sup>* test_init test_popped \<and> producers_done 1 test_popped \<and>
   m_out (ts_sys test_popped) = [(0, 0), (1, 0)] \<and> ts_error test_popped = None \<and> test_final 1 test_popped"
proof -
  have fin: "producers_done 1 test_popped" "m_cpc (ts_sys test_popped) = CIdle"
    using test_pushed_fields(1,2)
    by (auto simp: producers_done_def test_popped_def pop_effect_def less_2_cases_iff test_pushed_def)
  then show ?thesis
    using test_mpsc_passes [OF test_popped_reached] test_popped_reached test_pops(3,4) by blast
qed

text \<open>
  The check at the end is too strong: \<^verbatim>\<open>main\<close> clears \<open>run\<close> when the producers are done, and the consumer leaves
  its loop without emptying the queue. Here both have pushed their only item, nothing was popped,
  and the final check fails.
\<close>

theorem test_mpsc_race:
  "(test_step 1)\<^sup>*\<^sup>* test_init test_pushed \<and> producers_done 1 test_pushed \<and> m_cpc (ts_sys test_pushed) = CIdle \<and>
   \<not> test_final 1 test_pushed"
  using test_pushed_reached test_pushed_fields
  by (auto simp: producers_done_def test_final_def less_2_cases_iff) (auto simp: test_pushed_def)

subsection \<open>The JSON text\<close>

text \<open>\<^verbatim>\<open>test_json.cpp\<close>: the object and the text expected of it; the literals are the nearest doubles.\<close>

definition test_text :: string where
  "test_text = ''str'' @ [CHR 0x0a, CHR 0x09, CHR 0x0d, CHR 0x0b] @ ''str''"

definition test_object :: json where
  "test_object = JObject
     [(''str'', JString test_text),
      (''int'', JInt (- 42)), (''uint'', JUint 42), (''float'', JDouble (Fin (1 / 128))),
      (''double0'', JDouble (Fin 0)), (''double1'', JDouble (Fin (884279719003555 / 281474976710656))),
      (''bool'', JBool True), (''null'', JNull),
      (''array'', JArray [JInt 0, JDouble (Fin 1), JString ''str'', JBool True, JArray [], JObject []]),
      (''object'', JObject
        [(''num'', JInt 42), (''bool'', JBool True), (''array'', JArray [JInt 0, JInt 1, JInt 2, JInt 3]),
         (''object'', JObject [(''num'', JInt 42), (''str'', JString ''str'')])])]"

definition quoted :: "string \<Rightarrow> string" where
  "quoted s = CHR 0x22 # s @ [CHR 0x22]"

definition test_text_escaped :: string where
  "test_text_escaped = ''str'' @ [CHR 0x5c] @ ''n'' @ [CHR 0x5c] @ ''t'' @ [CHR 0x5c] @ ''r'' @ [CHR 0x5c] @ ''u000bstr''"

definition test_serialized :: string where
  "test_serialized = ''{'' @ quoted ''str'' @ '': '' @ quoted test_text_escaped @ '', '' @ quoted ''int'' @ '': -42, '' @ quoted ''uint'' @ '': 42, '' @
     quoted ''float'' @ '': 0.0078125, '' @ quoted ''double0'' @ '': 0, '' @ quoted ''double1'' @ '': 3.14159265358979, '' @
     quoted ''bool'' @ '': true, '' @ quoted ''null'' @ '': null, '' @ quoted ''array'' @ '': [0, 1, '' @ quoted ''str'' @
     '', true, [], {}], '' @ quoted ''object'' @ '': {'' @ quoted ''num'' @ '': 42, '' @ quoted ''bool'' @ '': true, '' @
     quoted ''array'' @ '': [0, 1, 2, 3], '' @ quoted ''object'' @ '': {'' @ quoted ''num'' @ '': 42, '' @ quoted ''str'' @
     '': '' @ quoted ''str'' @ ''}}}''"

lemma test_numbers:
  "show_double 15 (Fin (884279719003555 / 281474976710656)) = ''3.14159265358979''"
  "show_int (sint (1 :: u64)) = ''1''" "show_int (sint (2 :: u64)) = ''2''" "show_int (sint (3 :: u64)) = ''3''"
  by code_simp+

lemma test_strings:
  "escape_string test_text = quoted test_text_escaped"
  "escape_string ''str'' = quoted ''str''" "escape_string ''int'' = quoted ''int''"
  "escape_string ''uint'' = quoted ''uint''" "escape_string ''float'' = quoted ''float''"
  "escape_string ''double0'' = quoted ''double0''" "escape_string ''double1'' = quoted ''double1''"
  "escape_string ''bool'' = quoted ''bool''" "escape_string ''null'' = quoted ''null''"
  "escape_string ''array'' = quoted ''array''" "escape_string ''object'' = quoted ''object''"
  "escape_string ''num'' = quoted ''num''"
  by code_simp+

theorem test_json_passes: "dump test_object = test_serialized"
  unfolding test_object_def test_serialized_def
  by (simp only: dump.simps list.map fst_conv snd_conv json_example_numbers test_numbers test_strings
      commas.simps concat.simps append.simps append_assoc if_True)

subsection \<open>Printing a configuration\<close>

text \<open>\<^verbatim>\<open>test_config.cpp\<close>: the text it prints for a file, or the exception; the message of the wrong call is its own.\<close>

definition test_config :: "string list \<Rightarrow> (string \<Rightarrow> string option) \<Rightarrow> int \<Rightarrow> string res" where
  "test_config argv read_file errno =
     (case argv of
        [prog, path] \<Rightarrow> and_then (config_file read_file errno path) (\<lambda>cfg. Inr (dump (to_json cfg)))
      | _ \<Rightarrow> Inl (Library_error (''usage: '' @ hd argv @ '' path/to/config.cfg'')))"

theorem test_config_prints:
  "test_config [prog, path] (\<lambda>_. Some text) errno = Inr out \<Longrightarrow>
   list_all printable out \<and> (\<exists>cfg. parse text = Inr cfg \<and> out = dump (to_json cfg))"
  using dump_printable by (auto simp: test_config_def config_file_def and_then_Inr)

end
