(* ===== verification/Spec2Isabelle.thy ===== *)
theory Spec2Isabelle
  imports Prelude Doubles Text Errors Ringbuf Mpsc Sink Rx Wr Recording Tx Json Config Clock Logging Sync Mqtt Shm Setup Program Punctual Tests
begin

text \<open>
  Verification of \<^verbatim>\<open>usrp_rxtx\<close>, a C++ program that streams samples to and from software-defined radios,
  keeps what it receives in ring buffers in shared memory, records it to files on demand, and
  reports over MQTT and in a log file.

  \<^bold>\<open>Parts.\<close> \<^verbatim>\<open>main\<close> sets up the device and starts the threads: the receiver writes the rings, the recorder
  (and any other process) reads them without locks, the transmitter sends a periodic signal, the
  logger is fed by all threads through a queue, the MQTT client has its own network thread. \<^verbatim>\<open>main\<close>
  then handles signals, watches the threads and publishes the status.

  \<^bold>\<open>Theories.\<close> One for each part, named after what it models; the paths are under \<^verbatim>\<open>src/\<close>.

  \<^item> \<open>Prelude\<close>: lemmas on lists, blocks and words. \<open>Doubles\<close>: binary64 with rounding over the
    rationals. \<open>Text\<close>: string functions and decimal numbers. \<open>Errors\<close>: the exceptions of \<^verbatim>\<open>error.hpp\<close>, and
    procedures (\<open>run\<close>), whose result is the actions up to an exception, or nothing when they hang.
  \<^item> \<open>Ringbuf\<close>: \<^verbatim>\<open>ringbuf.h\<close>, \<^verbatim>\<open>ringbuf.hpp\<close>. The record \<open>ringbuf\<close> is the descriptor, the memory and the producer's private
    head. \<open>ring_repr rb hist\<close> says that the ring holds the end of the history \<open>hist\<close>. A producer
    that runs at the same time is the relation \<open>pstep\<close> with one step for each access.
  \<^item> \<open>Mpsc\<close>: \<^verbatim>\<open>mpsc.hpp\<close>. The calls as functions, and the relation \<open>mstep\<close> with one step for each atomic
    operation of any number of producers and the consumer.
  \<^item> \<open>Rx\<close> (with \<open>Sink\<close>, filling a ring in pieces), \<open>Wr\<close>, \<open>Tx\<close>: the threads of \<^verbatim>\<open>rx.cpp\<close>, \<^verbatim>\<open>wr.cpp\<close> and \<^verbatim>\<open>tx.cpp\<close>. A thread is a
    function of the list of what its turns meet; the device is in these inputs.
  \<^item> \<open>Shm\<close>: \<^verbatim>\<open>ringbuf.cpp\<close> and the constructor of \<open>Rx\<close>, over files, descriptors and mappings.
  \<^item> \<open>Json\<close> (\<^verbatim>\<open>json.hpp\<close>), \<open>Config\<close> (\<^verbatim>\<open>config.cpp\<close>), \<open>Clock\<close> and \<open>Logging\<close> (\<^verbatim>\<open>logging.cpp\<close>): the texts the program
    writes and reads. \<open>Json\<close> has a reader of the JSON grammar, \<open>Config\<close> a grammar of configuration
    files with their meaning; neither is in the program, they say what the texts mean.
  \<^item> \<open>Sync\<close> (\<^verbatim>\<open>sync.cpp\<close>), \<open>Mqtt\<close> (\<^verbatim>\<open>mqtt.cpp\<close>): operations over sensors, clocks and \<^verbatim>\<open>libmosquitto\<close>.
  \<^item> \<open>Setup\<close>, \<open>Program\<close>: \<^verbatim>\<open>main.cpp\<close>, composed from the other parts.
  \<^item> \<open>Recording\<close>, \<open>Punctual\<close>: theorems on several parts together. \<open>Tests\<close>: the programs under \<^verbatim>\<open>test\<close> over the same models.

  \<^bold>\<open>What is shown.\<close> The path of a sample: the rings hold what an ideal receiver makes of the packets,
  and if the radio keeps its contract on time stamps every packet is placed at its time (\<open>rx_worker_aligned\<close>,
  \<open>rx_packet_position\<close>), producing appends to the history
  (\<open>producer_appends\<close>), a reader that validates gets the history
  (\<open>consumer_validated_read\<close>), and the recorded files are the history byte for byte (\<open>wr_recording\<close>). \<open>recording_end_to_end\<close>
  in \<open>Recording\<close> composes them: the receive thread is a producer, and any recorder that runs along with it
  writes what the ideal receiver \<open>rx_ideal\<close> makes of the packets (which, like the code, gives all channels the samples of
  channel 0 after a gap). \<open>recording_on_time\<close> in \<open>Punctual\<close> shows which sample of
  this history is the first in a file. A sent
  sample is the periodic signal at its absolute time (\<open>tx_phase_coherent\<close>). The queue is first in first
  out under every interleaving (\<open>mpsc_fifo\<close>), and every message gets its line in the log file
  (\<open>log_file_complete\<close>). Texts mean what they say (\<open>json_roundtrip\<close>, \<open>config_meaning\<close>,
  \<open>log_time_readable\<close>), and hide credentials (\<open>config_redacted\<close>). The device is set up in the right order with the
  right values (\<open>setup_order\<close>, \<open>setup_settings\<close>), signals do what they promise
  (\<open>signals_toggle\<close>), and the program gives back what it took (\<open>program_restores\<close>,
  \<open>mqtt_no_leak\<close>, \<open>wr_new_no_leak\<close>). Loops end where they should (\<open>sync_wait_pps_ends\<close>, \<open>log_queue_drains\<close>,
  \<open>mqtt_worker_stops\<close>). Some theorems show defects: \<open>wr_truncation_loses\<close>, \<open>rx_start_hang\<close>, \<open>tx_stop_race\<close>,
  \<open>tx_fractional_rate_accepted\<close>, \<open>aligned_samples_out_of_bounds\<close>, \<open>config_key_only\<close>, \<open>test_mpsc_race\<close>. The tests of the
  ring and of the JSON text pass on all inputs (\<open>test_ringbuf_passes\<close>, \<open>test_json_passes\<close>). In the test of the queue
  no check of a push or of an item fails on any schedule, and its check at the end holds when the queue
  is empty then (\<open>test_mpsc_passes\<close>); otherwise that check may fail, by a race of the test itself (\<open>test_mpsc_race\<close>).

  \<^bold>\<open>Bounds and fuel.\<close> Words have the width of the code. A thread runs as many turns as its list of
  inputs has, and the theorems hold for every list. The logger's loop over its queue takes fuel, and
  1025 is enough for its 1024 slots. Loops that poll a sensor are partial functions. Times are readable
  until 2262, where 63 bits of nanoseconds end.

  \<^bold>\<open>Assumptions.\<close> Atomic operations are sequentially consistent. UHD, \<^verbatim>\<open>libmosquitto\<close>, the kernel and
  the file system are inputs; a hypothesis on them says what they document (\<^verbatim>\<open>recv\<close> returns at most what
  it was asked for, the kernel chooses new descriptors, a steady clock advances by the time slept). In the set-up every
  call to the device may throw; elsewhere the device's calls return: the getters that the logger reads for
  \<open>UsrpHardware\<close> and \<open>UsrpChannels\<close>, the time in the loop of \<^verbatim>\<open>main\<close>, \<^verbatim>\<open>recv\<close> and \<^verbatim>\<open>send\<close> in the threads. A write
  to a recording may be short but ends with a whole sample (\<open>io_ok\<close>). A double has no sign of zero, so
  \<open>show_double\<close> prints \<^verbatim>\<open>0\<close> where the code prints \<^verbatim>\<open>-0\<close>. Allocation and writes to streams
  succeed. A conversion or access that is undefined in C++ is the exception \<open>Undefined\<close>.

  \<^bold>\<open>Not modelled.\<close> The generated \<^verbatim>\<open>version.hpp\<close>; the names and priorities of threads; the source
  location in log entries, which is never printed; the branches for other operating systems; the
  Python scripts in \<^verbatim>\<open>utils\<close>, which read finished recordings; build and service files; the random numbers and thread schedules of the tests.
\<close>

end
